(* ===== verification/Prelude.thy ===== *)
theory Prelude
  imports Main "HOL-Library.Word"
begin

text \<open>
  Shared vocabulary of the development: C integer types as machine words, byte buffers, and
  the result type of the models of code that reads a buffer.  A read outside the buffer is
  undefined behaviour in C; here it is the value \<open>Ub\<close>, distinct from every value the code can
  return, so that "the code never reads out of bounds" is a theorem about the model and not an
  assumption of it.  \<open>Err l\<close> is an early return through a \<open>CHECK\<close>-style macro at source line
  \<open>l\<close>.  \<open>wp m Q\<close> says that \<open>m\<close> does not run into undefined behaviour and that a value it
  returns satisfies \<open>Q\<close>; the rules in \<open>wp\<close> compute it along the structure of a model.
\<close>

unbundle bit_operations_syntax

named_theorems res_ok \<open>when a computation returns a value\<close>
named_theorems res_run \<open>running a computation whose guards hold\<close>
named_theorems wp \<open>weakest preconditions of the buffer-reading combinators\<close>
named_theorems twp \<open>total correctness of the buffer-reading combinators\<close>
named_theorems byte_arith \<open>bit tests on machine words as arithmetic on their values\<close>

type_synonym u8 = "8 word"
type_synonym u16 = "16 word"
type_synonym u32 = "32 word"
type_synonym u64 = "64 word"
type_synonym bytes = "u8 list"

subsection \<open>Results\<close>

datatype 'a res = Ok 'a | Err nat | Ub

primrec wp :: "'a res \<Rightarrow> ('a \<Rightarrow> bool) \<Rightarrow> bool" where
  "wp (Ok x) Q = Q x"
| "wp (Err l) Q = True"
| "wp Ub Q = False"

primrec rbind :: "'a res \<Rightarrow> ('a \<Rightarrow> 'b res) \<Rightarrow> 'b res" where
  "rbind (Ok x) f = f x"
| "rbind (Err l) f = Err l"
| "rbind Ub f = Ub"

definition CHECK :: "nat \<Rightarrow> bool \<Rightarrow> 'a res \<Rightarrow> 'a res" where
  "CHECK line cond k = (if cond then k else Err line)"

definition READ :: "bytes \<Rightarrow> nat \<Rightarrow> (u8 \<Rightarrow> 'a res) \<Rightarrow> 'a res" where
  "READ p i k = (if i < length p then k (p ! i) else Ub)"

text \<open>The value of a little-endian byte string, and an unaligned load of \<open>n\<close> bytes.\<close>

primrec le_nat :: "bytes \<Rightarrow> nat" where
  "le_nat [] = 0"
| "le_nat (b # bs) = unat b + 256 * le_nat bs"

definition LOAD :: "nat \<Rightarrow> bytes \<Rightarrow> nat \<Rightarrow> (nat \<Rightarrow> 'a res) \<Rightarrow> 'a res" where
  "LOAD n p i k = (if i + n \<le> length p then k (le_nat (take n (drop i p))) else Ub)"

text \<open>\<open>memcmp (p + i, q, n) == 0\<close>: both arguments must hold \<open>n\<close> bytes.\<close>

definition MEMEQ :: "bytes \<Rightarrow> nat \<Rightarrow> bytes \<Rightarrow> nat \<Rightarrow> (bool \<Rightarrow> 'a res) \<Rightarrow> 'a res" where
  "MEMEQ p i q n k =
     (if i + n \<le> length p \<and> n \<le> length q then k (take n (drop i p) = take n q) else Ub)"

text \<open>The continuation of a check or a read is evaluated only once its guard is decided.\<close>

lemma CHECK_cong [cong]: "l = l' \<Longrightarrow> c = c' \<Longrightarrow> CHECK l c k = CHECK l' c' k"
  by simp

lemma READ_cong [cong]: "p = p' \<Longrightarrow> i = i' \<Longrightarrow> READ p i k = READ p' i' k"
  by simp

lemma LOAD_cong [cong]: "n = n' \<Longrightarrow> p = p' \<Longrightarrow> i = i' \<Longrightarrow> LOAD n p i k = LOAD n' p' i' k"
  by simp

lemma MEMEQ_cong [cong]:
  "p = p' \<Longrightarrow> i = i' \<Longrightarrow> q = q' \<Longrightarrow> n = n' \<Longrightarrow> MEMEQ p i q n k = MEMEQ p' i' q' n' k"
  by simp

lemma rbind_cong [cong]: "m = m' \<Longrightarrow> rbind m f = rbind m' f"
  by simp

lemma res_eval [simp]:
  "CHECK l True k = k"
  "CHECK l False k = Err l"
  "i < length p \<Longrightarrow> READ p i f = f (p ! i)"
  "i + n \<le> length p \<Longrightarrow> LOAD n p i g = g (le_nat (take n (drop i p)))"
  "i + n \<le> length p \<Longrightarrow> n \<le> length q \<Longrightarrow> MEMEQ p i q n h = h (take n (drop i p) = take n q)"
  by (simp_all add: CHECK_def READ_def LOAD_def MEMEQ_def)

lemma CHECK_run [res_run]: "c \<Longrightarrow> CHECK l c k = k"
  by simp

lemma wp_rbind [wp]: "wp (rbind m f) Q = wp m (\<lambda>x. wp (f x) Q)"
  by (cases m) simp_all

lemma wp_if [wp]: "wp (if c then m else m') Q = ((c \<longrightarrow> wp m Q) \<and> (\<not> c \<longrightarrow> wp m' Q))"
  by simp

lemma wp_Let [wp]: "wp (let x = e in f x) Q = wp (f e) Q"
  by simp

lemma wp_CHECK [wp]: "wp (CHECK l c k) Q = (c \<longrightarrow> wp k Q)"
  by (simp add: CHECK_def)

lemma wp_READ [wp]: "wp (READ p i k) Q = (i < length p \<and> wp (k (p ! i)) Q)"
  by (simp add: READ_def)

lemma wp_LOAD [wp]:
  "wp (LOAD n p i k) Q = (i + n \<le> length p \<and> wp (k (le_nat (take n (drop i p)))) Q)"
  by (simp add: LOAD_def)

lemma wp_MEMEQ [wp]:
  "wp (MEMEQ p i q n k) Q =
     (i + n \<le> length p \<and> n \<le> length q \<and> wp (k (take n (drop i p) = take n q)) Q)"
  by (auto simp: MEMEQ_def)

lemma wp_mono: "wp m Q \<Longrightarrow> (\<And>x. m = Ok x \<Longrightarrow> Q x \<Longrightarrow> Q' x) \<Longrightarrow> wp m Q'"
  by (cases m) simp_all

lemma wp_conj: "wp m (\<lambda>x. Q x \<and> Q' x) = (wp m Q \<and> wp m Q')"
  by (cases m) auto

lemma wp_Ok: "wp m Q \<Longrightarrow> m = Ok x \<Longrightarrow> Q x"
  by simp

lemma wp_not_Ub: "wp m Q \<Longrightarrow> m \<noteq> Ub"
  by auto

lemma wp_safe_iff: "wp m (\<lambda>x. m = Ok x \<longrightarrow> Q x) \<Longrightarrow> wp m Q"
  by (cases m) simp_all

text \<open>\<open>twp m Q\<close> says that \<open>m\<close> returns a value and that it satisfies \<open>Q\<close>.\<close>

primrec twp :: "'a res \<Rightarrow> ('a \<Rightarrow> bool) \<Rightarrow> bool" where
  "twp (Ok x) Q = Q x"
| "twp (Err l) Q = False"
| "twp Ub Q = False"

lemma twp_iff: "twp m Q = (\<exists>x. m = Ok x \<and> Q x)"
  by (cases m) simp_all

lemma twp_rbind [twp]: "twp (rbind m f) Q = twp m (\<lambda>x. twp (f x) Q)"
  by (cases m) simp_all

lemma twp_if [twp]: "twp (if c then m else m') Q = ((c \<longrightarrow> twp m Q) \<and> (\<not> c \<longrightarrow> twp m' Q))"
  by simp

lemma twp_Let [twp]: "twp (let x = e in f x) Q = twp (f e) Q"
  by simp

lemma twp_READ [twp]: "twp (READ p i k) Q = (i < length p \<and> twp (k (p ! i)) Q)"
  by (simp add: READ_def)

lemma twp_LOAD [twp]: "twp (LOAD n p i k) Q = (i + n \<le> length p \<and> twp (k (le_nat (take n (drop i p)))) Q)"
  by (simp add: LOAD_def)

lemma twp_MEMEQ [twp]:
  "twp (MEMEQ p i q n k) Q = (i + n \<le> length p \<and> n \<le> length q \<and> twp (k (take n (drop i p) = take n q)) Q)"
  by (auto simp: MEMEQ_def)

lemma twp_mono: "twp m Q \<Longrightarrow> (\<And>x. Q x \<Longrightarrow> Q' x) \<Longrightarrow> twp m Q'"
  by (cases m) simp_all

text \<open>When a computation succeeds, as an equivalence: the collection \<open>res_ok\<close>.\<close>

lemma rbind_Ok [res_ok]: "(rbind m f = Ok x) = (\<exists>y. m = Ok y \<and> f y = Ok x)"
  by (cases m) simp_all

lemma if_Ok [res_ok]: "((if c then m else m') = Ok x) = ((c \<longrightarrow> m = Ok x) \<and> (\<not> c \<longrightarrow> m' = Ok x))"
  by simp

lemma Let_Ok [res_ok]: "((let x = e in f x) = Ok r) = (f e = Ok r)"
  by simp

lemma CHECK_Ok [res_ok]: "(CHECK l c k = Ok x) = (c \<and> k = Ok x)"
  by (simp add: CHECK_def)

lemma READ_Ok [res_ok]: "(READ p i k = Ok x) = (i < length p \<and> k (p ! i) = Ok x)"
  by (simp add: READ_def)

lemma LOAD_Ok [res_ok]:
  "(LOAD n p i k = Ok x) = (i + n \<le> length p \<and> k (le_nat (take n (drop i p))) = Ok x)"
  by (simp add: LOAD_def)

lemma MEMEQ_Ok [res_ok]:
  "(MEMEQ p i q n k = Ok x) =
     (i + n \<le> length p \<and> n \<le> length q \<and> k (take n (drop i p) = take n q) = Ok x)"
  by (auto simp: MEMEQ_def)

subsection \<open>Unsigned 64-bit arithmetic on sizes\<close>

text \<open>
  Offsets and sizes are \<open>nat\<close>s below \<open>2 ^ 64\<close>; \<open>ulong_add\<close>, \<open>ulong_sub\<close> and \<open>ulong_mul\<close> wrap the
  way C's \<open>ulong\<close> does.
\<close>

definition ULONG_MAX :: nat where
  "ULONG_MAX = 2 ^ 64 - 1"

definition ulong_add :: "nat \<Rightarrow> nat \<Rightarrow> nat" where
  "ulong_add a b = (a + b) mod 2 ^ 64"

definition ulong_sub :: "nat \<Rightarrow> nat \<Rightarrow> nat" where
  "ulong_sub a b = (a + (2 ^ 64 - b mod 2 ^ 64)) mod 2 ^ 64"

definition ulong_mul :: "nat \<Rightarrow> nat \<Rightarrow> nat" where
  "ulong_mul a b = (a * b) mod 2 ^ 64"

lemma ulong_sub_le: "b \<le> a \<Longrightarrow> a < 2 ^ 64 \<Longrightarrow> ulong_sub a b = a - b"
proof -
  assume "b \<le> a" "a < 2 ^ 64"
  then have "a + (2 ^ 64 - b mod 2 ^ 64) = (a - b) + 2 ^ 64" and "a - b < 2 ^ 64"
    by simp_all
  then show ?thesis
    by (simp add: ulong_sub_def)
qed

lemma ulong_add_small: "a + b < 2 ^ 64 \<Longrightarrow> ulong_add a b = a + b"
  by (simp add: ulong_add_def)

lemma ulong_mul_small: "a * b < 2 ^ 64 \<Longrightarrow> ulong_mul a b = a * b"
  by (simp add: ulong_mul_def)

subsection \<open>Bytes as numbers\<close>

lemma u8_less_256 [simp]: "unat (b :: u8) < 256"
  using unsigned_less [of b] by simp

lemma u8_le_255 [simp]: "unat (b :: u8) \<le> 255"
  using u8_less_256 [of b] by linarith

lemma u16_less [simp]: "unat (h :: u16) < 65536"
  using unsigned_less [of h] by simp

lemma u16_le [simp]: "unat (h :: u16) \<le> 65535"
  using u16_less [of h] by linarith

lemma unat_of_nat_u8: "n < 256 \<Longrightarrow> unat (of_nat n :: u8) = n"
  by (simp add: unat_of_nat)

lemma unat_of_nat_u16: "n < 65536 \<Longrightarrow> unat (of_nat n :: u16) = n"
  by (simp add: unat_of_nat)

lemma unat_zero_iff [simp]: "(unat (w :: 'a :: len word) = 0) = (w = 0)"
  by (metis unsigned_0 unsigned_word_eqI)

lemma u8_eq_iff: "((a :: u8) = b) = (unat a = unat b)"
  by (rule word_eq_iff_unsigned)

text \<open>A fact about one byte holds if it holds of the 256 bytes.\<close>

lemma u8_exhaust:
  assumes "list_all (\<lambda>n. P (word_of_nat n) n) [0..<256]"
  shows "P (b :: u8) (unat b)"
proof -
  have "unat b \<in> set [0..<256]"
    by simp
  with assms have "P (word_of_nat (unat b)) (unat b)"
    by (simp only: list_all_iff)
  then show ?thesis
    by simp
qed

lemma u8_and_7f [byte_arith]: "unat ((b :: u8) AND 0x7F) = unat b mod 128"
  by (rule u8_exhaust) code_simp

lemma u8_high_bit [byte_arith]: "((b :: u8) AND 0x80 = 0) = (unat b < 128)"
  by (rule u8_exhaust) code_simp

lemma u8_and_fc [byte_arith]: "((b :: u8) AND 0xFC = 0) = (unat b < 4)"
  by (rule u8_exhaust) code_simp

lemma le_nat_less: "le_nat bs < 256 ^ length bs"
proof (induction bs)
  case (Cons b bs)
  have "le_nat (b # bs) < 256 + 256 * le_nat bs"
    by simp
  also have "\<dots> = 256 * (le_nat bs + 1)"
    by simp
  also have "\<dots> \<le> 256 * 256 ^ length bs"
    using Cons.IH by (intro mult_le_mono) simp_all
  finally show ?case
    by simp
qed simp

subsection \<open>Byte strings inside a buffer\<close>

text \<open>\<open>bytes_at p i xs\<close>: the bytes \<open>xs\<close> stand in the buffer \<open>p\<close> at offset \<open>i\<close>.\<close>

definition bytes_at :: "bytes \<Rightarrow> nat \<Rightarrow> bytes \<Rightarrow> bool" where
  "bytes_at p i xs = (take (length xs) (drop i p) = xs)"

lemma bytes_at_Nil [simp]: "bytes_at p i []"
  by (simp add: bytes_at_def)

lemma bytes_at_drop: "bytes_at p i xs = (\<exists>r. drop i p = xs @ r)"
  by (metis append_eq_conv_conj append_take_drop_id bytes_at_def)

lemma bytes_at_append [simp]:
  "bytes_at p i (xs @ ys) = (bytes_at p i xs \<and> bytes_at p (i + length xs) ys)"
proof -
  have "drop i p = xs @ r \<Longrightarrow> drop (i + length xs) p = r" for r
    by (metis add.commute append_eq_conv_conj drop_drop)
  then show ?thesis
    unfolding bytes_at_drop by auto
qed

lemma bytes_at_Cons [simp]:
  "bytes_at p i (x # xs) = (i < length p \<and> p ! i = x \<and> bytes_at p (i + 1) xs)"
  by (cases "i < length p") (auto simp: bytes_at_def Cons_nth_drop_Suc [symmetric])

lemma bytes_at_length: "bytes_at p i xs \<Longrightarrow> xs \<noteq> [] \<Longrightarrow> i + length xs \<le> length p"
proof -
  assume "bytes_at p i xs" "xs \<noteq> []"
  then have "length (take (length xs) (drop i p)) = length xs" "0 < length xs"
    by (simp_all only: bytes_at_def length_greater_0_conv not_False_eq_True)
  then show ?thesis
    unfolding length_take length_drop by linarith
qed

lemma bytes_at_take: "i + n \<le> length p \<Longrightarrow> bytes_at p i (take n (drop i p))"
  by (simp add: bytes_at_def)

lemma bytes_at_eq: "bytes_at p i xs \<Longrightarrow> take (length xs) (drop i p) = xs"
  by (simp add: bytes_at_def)

lemma bytes_at_nth: "bytes_at p i xs \<Longrightarrow> k < length xs \<Longrightarrow> p ! (i + k) = xs ! k"
  by (metis bytes_at_def bytes_at_length list.size(3) not_less_zero nth_drop nth_take
      add_leD1)

lemma bytes_at_0: "bytes_at p 0 xs = (\<exists>ys. p = xs @ ys)"
  by (metis append_eq_conv_conj append_take_drop_id bytes_at_def drop0)

text \<open>Cutting a byte string into \<open>n\<close> pieces of \<open>k\<close> bytes.\<close>

definition chunks :: "nat \<Rightarrow> nat \<Rightarrow> bytes \<Rightarrow> bytes list" where
  "chunks k n xs = map (\<lambda>j. take k (drop (j * k) xs)) [0..<n]"

lemma length_chunks [simp]: "length (chunks k n xs) = n"
  by (simp add: chunks_def)

lemma chunks_lengths: "k * n \<le> length xs \<Longrightarrow> c \<in> set (chunks k n xs) \<Longrightarrow> length c = k"
proof -
  assume "k * n \<le> length xs" "c \<in> set (chunks k n xs)"
  then obtain j where j: "j < n" "c = take k (drop (j * k) xs)"
    by (auto simp: chunks_def)
  then have "Suc j * k \<le> n * k"
    by (intro mult_le_mono1) simp
  with \<open>k * n \<le> length xs\<close> j show ?thesis
    by (simp add: mult.commute)
qed

lemma concat_chunks: "concat (chunks k n xs) = take (k * n) xs"
  by (induction n) (simp_all add: chunks_def take_add [symmetric] algebra_simps)

lemma length_concat_const: "(\<And>x. x \<in> set xs \<Longrightarrow> length x = k) \<Longrightarrow> length (concat xs) = k * length xs"
  by (induction xs) simp_all

lemma chunks_ex:
  assumes "i + k * n \<le> length p"
  shows "\<exists>cs. length cs = n \<and> bytes_at p i (concat cs) \<and> length (concat cs) = k * n \<and>
    (\<forall>c \<in> set cs. length c = k)"
proof (intro exI conjI)
  let ?cs = "chunks k n (take (k * n) (drop i p))"
  show "length ?cs = n" "bytes_at p i (concat ?cs)" "length (concat ?cs) = k * n"
    "\<forall>c \<in> set ?cs. length c = k"
    using assms by (simp_all add: concat_chunks bytes_at_take) (metis chunks_lengths length_take
      min.absorb2 length_drop add_le_imp_le_diff add.commute order_refl)
qed

end
