(* ===== verification/Compact_U16.thy ===== *)
theory Compact_U16
  imports Prelude
begin

text \<open>
  The compact-u16 codec of \<open>src/src/ballet/txn/fd_compact_u16.h\<close>, the variable-length encoding of
  16-bit counts in the transaction wire format.  A buffer pointer \<open>buf\<close> of the C code is a byte
  list and an offset into it.
\<close>

subsection \<open>Definitions\<close>

definition fd_cu16_dec_fixed :: "bytes \<Rightarrow> nat \<Rightarrow> nat \<Rightarrow> u16 res" where
  "fd_cu16_dec_fixed buf off sz =
     (if sz = 1 then READ buf off (\<lambda>b0. Ok (of_nat (unat b0)))
      else if sz = 2 then
        READ buf off (\<lambda>b0. READ buf (off + 1) (\<lambda>b1.
          Ok (of_nat (unat (b0 AND 0x7F) + push_bit 7 (unat b1)))))
      else
        READ buf off (\<lambda>b0. READ buf (off + 1) (\<lambda>b1. READ buf (off + 2) (\<lambda>b2.
          Ok (of_nat (unat (b0 AND 0x7F) + push_bit 7 (unat (b1 AND 0x7F)) + push_bit 14 (unat b2)))))))"

definition fd_cu16_dec_sz :: "bytes \<Rightarrow> nat \<Rightarrow> nat \<Rightarrow> nat res" where
  "fd_cu16_dec_sz buf off bytes_avail =
     (let three =
            (if bytes_avail \<ge> 3 then READ buf (off + 2) (\<lambda>b2.
               if 0xFC AND b2 = 0 then (if b2 = 0 then Ok 0 else Ok 3) else Ok 0)
             else Ok 0);
          two =
            (if bytes_avail \<ge> 2 then READ buf (off + 1) (\<lambda>b1.
               if 0x80 AND b1 = 0 then (if b1 = 0 then Ok 0 else Ok 2) else three)
             else three)
      in if bytes_avail \<ge> 1 then READ buf off (\<lambda>b0. if 0x80 AND b0 = 0 then Ok 1 else two)
         else two)"

text \<open>Success is \<open>Some (size, value)\<close>; \<open>None\<close> is the return value 0, which leaves \<open>result_out\<close> alone.\<close>

definition fd_cu16_dec :: "bytes \<Rightarrow> nat \<Rightarrow> nat \<Rightarrow> (nat \<times> u16) option res" where
  "fd_cu16_dec buf off bytes_avail =
     rbind (fd_cu16_dec_sz buf off bytes_avail) (\<lambda>sz.
       if sz \<noteq> 0 then rbind (fd_cu16_dec_fixed buf off sz) (\<lambda>v. Ok (Some (sz, v)))
       else Ok None)"

text \<open>\<open>fd_cu16_enc\<close> as the bytes it stores; the count it returns is their number.\<close>

definition fd_cu16_enc :: "u16 \<Rightarrow> bytes" where
  "fd_cu16_enc val =
     (let v = unat val;
          byte0 = v AND 0x7F;
          byte1 = drop_bit 7 v AND 0x7F;
          byte2 = drop_bit 14 v;
          needs_byte1 = v > 0x007F;
          needs_byte2 = v > 0x3FFF
      in [of_nat (byte0 OR push_bit 7 (of_bool needs_byte1))]
         @ (if needs_byte1 then [of_nat (byte1 OR push_bit 7 (of_bool needs_byte2))] else [])
         @ (if needs_byte2 then [of_nat byte2] else []))"

subsection \<open>The codec as arithmetic\<close>

lemma and_80_comm: "(0x80 :: u8) AND b = b AND 0x80"
  by (rule and.commute)

lemma and_fc_comm: "(0xFC :: u8) AND b = b AND 0xFC"
  by (rule and.commute)

lemmas cu16_arith = and_80_comm and_fc_comm u8_high_bit u8_and_fc u8_and_7f

lemma nat_and_7f: "(n :: nat) AND 0x7F = n mod 128"
  using take_bit_eq_mask [of 7 n] by (simp add: mask_eq_exp_minus_1 take_bit_eq_mod)

lemma nat_or_80: "n < 128 \<Longrightarrow> (n :: nat) OR 128 = n + 128"
proof -
  assume n: "n < 128"
  then have "n AND 128 = 0"
    using and_exp_eq_0_iff_not_bit [of n 7] by (simp add: bit_iff_odd)
  then show ?thesis
    using disjunctive_add_eq_or [of n 128] by simp
qed

text \<open>
  The codec on numbers: \<open>cu16_bytes v\<close> are the byte values of the encoding of \<open>v\<close>, and
  \<open>cu16_spec avail b0 b1 b2\<close> decodes the three byte values at the cursor, of which \<open>avail\<close> may
  be used, as in the table at the head of \<open>fd_compact_u16.h\<close>.
\<close>

definition cu16_bytes :: "nat \<Rightarrow> nat list" where
  "cu16_bytes v =
     (if v < 128 then [v]
      else if v < 16384 then [v mod 128 + 128, v div 128]
      else [v mod 128 + 128, v div 128 mod 128 + 128, v div 16384])"

definition cu16_spec :: "nat \<Rightarrow> nat \<Rightarrow> nat \<Rightarrow> nat \<Rightarrow> (nat \<times> nat) option" where
  "cu16_spec avail b0 b1 b2 =
     (if 1 \<le> avail \<and> b0 < 128 then Some (1, b0)
      else if 2 \<le> avail \<and> b1 < 128 then
        (if b1 = 0 then None else Some (2, b0 mod 128 + 128 * b1))
      else if 3 \<le> avail \<and> b2 < 4 then
        (if b2 = 0 then None else Some (3, b0 mod 128 + 128 * (b1 mod 128) + 16384 * b2))
      else None)"

lemma mod_128_high: "\<not> b < 128 \<Longrightarrow> b < 256 \<Longrightarrow> (b :: nat) mod 128 = b - 128"
  by (simp add: mod_if)

lemma div_16384: "(v :: nat) div 16384 = v div 128 div 128"
  by (simp add: div_mult2_eq [symmetric])

lemma cu16_digits: "(v :: nat) mod 128 + 128 * (v div 128 mod 128) + 16384 * (v div 16384) = v"
  using mod_mult_div_eq [of v 128] mod_mult_div_eq [of "v div 128" 128]
  unfolding div_16384 by linarith

lemma cu16_compose:
  assumes "x < 128" "y < 128"
  shows "(x + 128 * y + 16384 * z) mod 128 = (x :: nat)"
    and "(x + 128 * y + 16384 * z) div 128 mod 128 = y"
    and "(x + 128 * y + 16384 * z) div 16384 = z"
proof -
  have v: "x + 128 * y + 16384 * z = x + 128 * (y + 128 * z)"
    by simp
  have "(x + 128 * c) mod 128 = x" "(x + 128 * c) div 128 = c" for c
    using assms(1) by simp_all
  note split = this
  show "(x + 128 * y + 16384 * z) mod 128 = x"
    and "(x + 128 * y + 16384 * z) div 128 mod 128 = y"
    and "(x + 128 * y + 16384 * z) div 16384 = z"
    unfolding v div_16384 split using assms(2) by simp_all
qed

lemma map_unat_fd_cu16_enc: "map unat (fd_cu16_enc v) = cu16_bytes (unat v)"
proof -
  have "unat v < 65536"
    by simp
  then have "unat v div 16384 < 4" "unat v div 128 mod 128 < 128" "unat v mod 128 < 128"
    and "unat v < 16384 \<Longrightarrow> unat v div 128 < 128"
    by (simp_all add: less_mult_imp_div_less)
  then show ?thesis
    by (auto simp: fd_cu16_enc_def cu16_bytes_def Let_def nat_and_7f nat_or_80 drop_bit_eq_div
        unat_of_nat simp del: of_nat_add of_nat_unat)
qed

lemma cu16_spec_sound:
  assumes "cu16_spec avail b0 b1 b2 = Some (sz, v)" and "b0 < 256" "b1 < 256"
  shows "take sz [b0, b1, b2] = cu16_bytes v" and "v < 65536"
    and "1 \<le> sz" "sz \<le> 3" "sz \<le> avail"
proof -
  consider "b0 < 128" | x where "b0 = x + 128" "x < 128"
    using assms(2) by (metis add.commute le_Suc_ex not_less nat_add_left_cancel_less numeral_Bit0)
  then have "take sz [b0, b1, b2] = cu16_bytes v \<and> v < 65536 \<and> 1 \<le> sz \<and> sz \<le> 3 \<and> sz \<le> avail"
  proof cases
    case 1
    then show ?thesis
      using assms(1) by (auto simp: cu16_spec_def cu16_bytes_def split: if_splits)
  next
    case (2 x)
    show ?thesis
    proof (cases "b1 < 128")
      case True
      then show ?thesis
        using assms(1) 2 cu16_compose [of x b1 0]
        by (auto simp: cu16_spec_def cu16_bytes_def numeral_2_eq_2 split: if_splits)
    next
      case False
      then obtain y where "b1 = y + 128" "y < 128"
        using assms(3) by (metis add.commute le_Suc_ex not_less nat_add_left_cancel_less numeral_Bit0)
      then show ?thesis
        using assms(1) 2 cu16_compose [of x y b2] cu16_digits [of v]
        by (auto simp: cu16_spec_def cu16_bytes_def numeral_3_eq_3 split: if_splits)
    qed
  qed
  then show "take sz [b0, b1, b2] = cu16_bytes v" and "v < 65536"
    and "1 \<le> sz" "sz \<le> 3" "sz \<le> avail"
    by simp_all
qed

lemma cu16_spec_complete:
  assumes "take (length (cu16_bytes v)) [b0, b1, b2] = cu16_bytes v"
    and "length (cu16_bytes v) \<le> avail" and "v < 65536"
  shows "cu16_spec avail b0 b1 b2 = Some (length (cu16_bytes v), v)"
  using assms
  by (auto simp: cu16_spec_def cu16_bytes_def numeral_2_eq_2 numeral_3_eq_3 cu16_digits
      split: if_splits)

text \<open>The decoder of the source computes \<open>cu16_spec\<close> on the bytes at the cursor.\<close>

abbreviation cu16_at :: "bytes \<Rightarrow> nat \<Rightarrow> nat \<Rightarrow> (nat \<times> nat) option" where
  "cu16_at buf off avail \<equiv>
     cu16_spec avail (unat (buf ! off)) (unat (buf ! (off + 1))) (unat (buf ! (off + 2)))"

lemma fd_cu16_dec_sz_eq:
  assumes "off + avail \<le> length buf"
  shows "fd_cu16_dec_sz buf off avail =
    Ok (case cu16_at buf off avail of None \<Rightarrow> 0 | Some (sz, v) \<Rightarrow> sz)"
  using assms by (auto simp: fd_cu16_dec_sz_def cu16_spec_def Let_def cu16_arith)

lemma fd_cu16_dec_fixed_eq:
  assumes "off + avail \<le> length buf" and "cu16_at buf off avail = Some (sz, v)"
  shows "fd_cu16_dec_fixed buf off sz = Ok (of_nat v)"
  using assms
  by (auto simp: fd_cu16_dec_fixed_def cu16_spec_def cu16_arith push_bit_eq_mult split: if_splits)

lemma fd_cu16_dec_eq:
  assumes "off + avail \<le> length buf"
  shows "fd_cu16_dec buf off avail = Ok (map_option (\<lambda>(sz, v). (sz, of_nat v)) (cu16_at buf off avail))"
proof (cases "cu16_at buf off avail")
  case None
  then show ?thesis
    using assms by (simp add: fd_cu16_dec_def fd_cu16_dec_sz_eq)
next
  case (Some a)
  then obtain sz v where a: "cu16_at buf off avail = Some (sz, v)"
    by (cases a) simp
  then have "1 \<le> sz"
    by (rule cu16_spec_sound) simp_all
  then show ?thesis
    using assms a by (simp add: fd_cu16_dec_def fd_cu16_dec_sz_eq fd_cu16_dec_fixed_eq)
qed

lemma take_3_nth:
  assumes "sz \<le> 3" and "off + sz \<le> length buf"
  shows "map unat (take sz (drop off buf)) =
    take sz [unat (buf ! off), unat (buf ! (off + 1)), unat (buf ! (off + 2))]"
  using assms by (auto simp: list_eq_iff_nth_eq less_Suc_eq numeral_3_eq_3 le_Suc_eq)

lemma map_unat_inj: "map unat (xs :: bytes) = map unat ys \<Longrightarrow> xs = ys"
  by (rule map_injective [rotated]) (auto simp: inj_def u8_eq_iff)

text \<open>
  A successful decode consumed exactly the encoding of the value (so every value has one encoding
  that is accepted), and conversely the encoding of a value decodes to it.
\<close>

lemma fd_cu16_dec_canonical_at:
  assumes "off + avail \<le> length buf" and "fd_cu16_dec buf off avail = Ok (Some (sz, v))"
  shows "take sz (drop off buf) = fd_cu16_enc v" and "sz \<le> avail" and "sz = length (fd_cu16_enc v)"
proof -
  from assms obtain n where n: "cu16_at buf off avail = Some (sz, n)" "v = of_nat n"
    by (auto simp: fd_cu16_dec_eq)
  note s = cu16_spec_sound [OF n(1) u8_less_256 u8_less_256]
  have "map unat (take sz (drop off buf)) = map unat (fd_cu16_enc v)"
    using s assms(1) n(2) by (simp add: take_3_nth map_unat_fd_cu16_enc unat_of_nat_u16)
  then show eq: "take sz (drop off buf) = fd_cu16_enc v"
    by (rule map_unat_inj)
  show "sz \<le> avail"
    by (rule s)
  then show "sz = length (fd_cu16_enc v)"
    using assms(1) by (simp flip: eq)
qed

lemma fd_cu16_dec_enc_at:
  assumes "take (length (fd_cu16_enc v)) (drop off buf) = fd_cu16_enc v"
    and "length (fd_cu16_enc v) \<le> avail" and "off + avail \<le> length buf"
  shows "fd_cu16_dec buf off avail = Ok (Some (length (fd_cu16_enc v), v))"
proof -
  let ?n = "length (fd_cu16_enc v)"
  have len: "length (cu16_bytes (unat v)) = ?n"
    by (simp flip: map_unat_fd_cu16_enc)
  then have "?n \<le> 3"
    by (auto simp: cu16_bytes_def split: if_splits)
  then have "take ?n [unat (buf ! off), unat (buf ! (off + 1)), unat (buf ! (off + 2))] =
      cu16_bytes (unat v)"
    using assms take_3_nth [of ?n off buf] by (simp flip: map_unat_fd_cu16_enc)
  then have "cu16_at buf off avail = Some (?n, unat v)"
    using assms(2) len by (metis cu16_spec_complete u16_less)
  then show ?thesis
    using assms(3) by (simp add: fd_cu16_dec_eq)
qed

text \<open>
  C1. On a buffer that holds at least the bytes it is told about, fd_cu16_dec accepts exactly the
  canonical compact-u16 encodings: it returns (n, v) if and only if the first n bytes are what
  fd_cu16_enc writes for v, so decoding is the inverse of encoding and no value has a second
  accepted spelling.
\<close>

theorem fd_cu16_dec_iff_enc:
  assumes "off + avail \<le> length buf"
  shows "fd_cu16_dec buf off avail = Ok (Some (sz, v)) \<longleftrightarrow>
    sz = length (fd_cu16_enc v) \<and> sz \<le> avail \<and> take sz (drop off buf) = fd_cu16_enc v"
proof
  assume "fd_cu16_dec buf off avail = Ok (Some (sz, v))"
  note dec = fd_cu16_dec_canonical_at [OF assms this]
  show "sz = length (fd_cu16_enc v) \<and> sz \<le> avail \<and> take sz (drop off buf) = fd_cu16_enc v"
    by (intro conjI dec)
next
  assume "sz = length (fd_cu16_enc v) \<and> sz \<le> avail \<and> take sz (drop off buf) = fd_cu16_enc v"
  then show "fd_cu16_dec buf off avail = Ok (Some (sz, v))"
    using assms fd_cu16_dec_enc_at by metis
qed

theorem fd_cu16_dec_iff_enc_witness:
  "fd_cu16_dec [0x80, 0x80, 0x01, 0xAA] 0 4 = Ok (Some (3, 16384)) \<and> fd_cu16_enc 16384 = [0x80, 0x80, 0x01]"
proof -
  have enc: "fd_cu16_enc 16384 = [0x80, 0x80, 0x01]"
    by (simp add: fd_cu16_enc_def)
  show ?thesis
    using fd_cu16_dec_iff_enc [of 0 4 "[0x80, 0x80, 0x01, 0xAA]" 3 16384] enc by simp
qed

end
