(* ===== verification/Txn.thy ===== *)
theory Txn
  imports Compact_U16
begin

text \<open>
  Transactions: the constants and structs of \<open>src/src/ballet/txn/fd_txn.h\<close> and the parser
  \<open>fd_txn_parse_core\<close> of \<open>src/src/ballet/txn/fd_txn_parse.c\<close>.  The parser is cut into the stages
  the source has (V1 header, the two V1 instruction passes, legacy/V0 header, instruction loop,
  lookup-table loop); the macros \<open>CHECK\<close>, \<open>CHECK_LEFT\<close> and \<open>READ_CHECKED_COMPACT_U16\<close> are
  combinators that carry the source line they are expanded at, which is what the code records in
  \<open>failure_ring\<close>.  The trailing flexible array \<open>instr\<close> and the address tables that follow it in
  memory are lists; the explicit padding bytes of the structs are left out.  Each store into
  \<open>out_buf\<close> is preceded by \<open>OUT_WRITE\<close> with its place in the buffer, so that a store past the
  \<open>FD_TXN_MAX_SZ\<close> bytes the caller provides is the value \<open>Ub\<close>, as a read past the payload is.
\<close>

subsection \<open>Constants\<close>

definition FD_TXN_VLEGACY :: u8 where "FD_TXN_VLEGACY = 0xFF"
definition FD_TXN_V0 :: u8 where "FD_TXN_V0 = 0x00"
definition FD_TXN_V1 :: u8 where "FD_TXN_V1 = 0x01"

definition FD_TXN_SIGNATURE_SZ :: nat where "FD_TXN_SIGNATURE_SZ = 64"
definition FD_TXN_ACCT_ADDR_SZ :: nat where "FD_TXN_ACCT_ADDR_SZ = 32"
definition FD_TXN_BLOCKHASH_SZ :: nat where "FD_TXN_BLOCKHASH_SZ = 32"
definition FD_TXN_SIG_MAX :: nat where "FD_TXN_SIG_MAX = 12"
definition FD_TXN_ACCT_ADDR_MAX :: nat where "FD_TXN_ACCT_ADDR_MAX = 64"
definition FD_TXN_ADDR_TABLE_LOOKUP_MAX :: nat where "FD_TXN_ADDR_TABLE_LOOKUP_MAX = 127"
definition FD_TXN_INSTR_MAX :: nat where "FD_TXN_INSTR_MAX = 64"
definition FD_TXN_INSTR_ACCT_MAX :: nat where "FD_TXN_INSTR_ACCT_MAX = 255"
definition FD_TXN_MAX_SZ :: nat where "FD_TXN_MAX_SZ = 854"
definition FD_TXN_MTU :: nat where "FD_TXN_MTU = 4096"
definition FD_TXN_MTU_V0 :: nat where "FD_TXN_MTU_V0 = 1232"
definition FD_TXN_MIN_SERIALIZED_SZ :: nat where "FD_TXN_MIN_SERIALIZED_SZ = 134"
definition FD_TXN_V1_MIN_HEAP_SZ :: nat where "FD_TXN_V1_MIN_HEAP_SZ = 32 * 1024"
definition FD_TXN_V1_MAX_HEAP_SZ :: nat where "FD_TXN_V1_MAX_HEAP_SZ = 256 * 1024"
definition FD_TXN_V1_HEAP_GRANULARITY :: nat where "FD_TXN_V1_HEAP_GRANULARITY = 1024"
definition MIN_INSTR_SZ :: nat where "MIN_INSTR_SZ = 3"
definition MIN_ADDR_LUT_SIZE :: nat where "MIN_ADDR_LUT_SIZE = 34"
definition FD_TXN_PARSE_COUNTERS_RING_SZ :: nat where "FD_TXN_PARSE_COUNTERS_RING_SZ = 32"

lemmas txn_consts =
  FD_TXN_VLEGACY_def FD_TXN_V0_def FD_TXN_V1_def FD_TXN_SIGNATURE_SZ_def FD_TXN_ACCT_ADDR_SZ_def
  FD_TXN_BLOCKHASH_SZ_def FD_TXN_SIG_MAX_def FD_TXN_ACCT_ADDR_MAX_def
  FD_TXN_ADDR_TABLE_LOOKUP_MAX_def FD_TXN_INSTR_MAX_def FD_TXN_INSTR_ACCT_MAX_def
  FD_TXN_MAX_SZ_def FD_TXN_MTU_def FD_TXN_MTU_V0_def FD_TXN_MIN_SERIALIZED_SZ_def
  FD_TXN_V1_MIN_HEAP_SZ_def FD_TXN_V1_MAX_HEAP_SZ_def FD_TXN_V1_HEAP_GRANULARITY_def
  MIN_INSTR_SZ_def MIN_ADDR_LUT_SIZE_def FD_TXN_PARSE_COUNTERS_RING_SZ_def

subsection \<open>Structs\<close>

record fd_txn_instr =
  program_id :: u8
  acct_cnt :: u16
  data_sz :: u16
  acct_off :: u16
  data_off :: u16

record fd_txn_acct_addr_lut =
  addr_off :: u16
  writable_cnt :: u8
  readonly_cnt :: u8
  writable_off :: u16
  readonly_off :: u16

record fd_txn =
  transaction_version :: u8
  signature_cnt :: u8
  signature_off :: u16
  message_off :: u16
  readonly_signed_cnt :: u8
  readonly_unsigned_cnt :: u8
  acct_addr_cnt :: u16
  acct_addr_off :: u16
  recent_blockhash_off :: u16
  addr_table_lookup_cnt :: u8
  addr_table_adtl_writable_cnt :: u8
  addr_table_adtl_cnt :: u8
  v1_txn_config_values_off :: u16
  instr_cnt :: u16
  instr :: "fd_txn_instr list"
  address_tables :: "fd_txn_acct_addr_lut list"

record fd_txn_parse_counters =
  success_cnt :: nat
  failure_cnt :: nat
  failure_ring :: "nat list"

text \<open>\<open>sizeof(fd_txn_t) = 22\<close>, \<open>sizeof(fd_txn_instr_t) = 10\<close>, \<open>sizeof(fd_txn_acct_addr_lut_t) = 8\<close>.\<close>

definition fd_txn_footprint :: "nat \<Rightarrow> nat \<Rightarrow> nat" where
  "fd_txn_footprint n_instr n_lut = 22 + n_instr * 10 + n_lut * 8"

text \<open>\<open>fd_txn_get_address_tables\<close>: the offset of the address tables in a \<open>fd_txn_t\<close> of \<open>n_instr\<close> instructions.\<close>

definition fd_txn_get_address_tables :: "nat \<Rightarrow> nat" where
  "fd_txn_get_address_tables n_instr = 22 + n_instr * 10"

subsection \<open>The parser's macros\<close>

definition CHECK_LEFT :: "nat \<Rightarrow> nat \<Rightarrow> nat \<Rightarrow> nat \<Rightarrow> 'a res \<Rightarrow> 'a res" where
  "CHECK_LEFT line payload_sz i n k = CHECK line (n \<le> ulong_sub payload_sz i) k"

definition READ_CHECKED_COMPACT_U16 ::
    "nat \<Rightarrow> bytes \<Rightarrow> nat \<Rightarrow> nat \<Rightarrow> (nat \<Rightarrow> u16 \<Rightarrow> 'a res) \<Rightarrow> 'a res" where
  "READ_CHECKED_COMPACT_U16 line payload payload_sz loc k =
     rbind (fd_cu16_dec_sz payload loc (ulong_sub payload_sz loc)) (\<lambda>out_sz.
       CHECK line (out_sz \<noteq> 0)
         (rbind (fd_cu16_dec_fixed payload loc out_sz) (\<lambda>v. k out_sz v)))"

text \<open>
  A store of \<open>sz\<close> bytes at offset \<open>off\<close> of \<open>out_buf\<close>, of which the caller promises
  \<open>FD_TXN_MAX_SZ\<close> bytes: a store past them is undefined behaviour.  It stands in front of every
  group of assignments to a struct in \<open>out_buf\<close>; the values assigned are the lists and the record
  that the stages pass along.
\<close>

definition OUT_WRITE :: "nat \<Rightarrow> nat \<Rightarrow> 'a res \<Rightarrow> 'a res" where
  "OUT_WRITE off sz k = (if off + sz \<le> FD_TXN_MAX_SZ then k else Ub)"

definition OUT_INSTR :: "nat \<Rightarrow> 'a res \<Rightarrow> 'a res" where
  "OUT_INSTR j k = OUT_WRITE (22 + j * 10) 10 k"

definition fd_uint_popcnt :: "u32 \<Rightarrow> nat" where
  "fd_uint_popcnt x = length (filter (bit x) [0..<32])"

subsection \<open>V1 transactions\<close>

record v1_header =
  v1_signature_cnt :: nat
  v1_ro_signed_cnt :: nat
  v1_ro_unsigned_cnt :: nat
  v1_recent_blockhash_off :: nat
  v1_instr_cnt :: nat
  v1_acct_addr_cnt :: nat
  v1_acct_addr_off :: nat
  v1_config_values_off :: nat

definition parse_v1_header :: "bytes \<Rightarrow> nat \<Rightarrow> nat \<Rightarrow> (v1_header \<times> nat) res" where
  "parse_v1_header payload payload_sz i =
     CHECK_LEFT 108 payload_sz i 1 (READ payload i (\<lambda>version_byte. let i = i + 1 in
     CHECK 109 (version_byte AND 0x7F = FD_TXN_V1) (
     CHECK_LEFT 112 payload_sz i 1 (READ payload i (\<lambda>signature_cnt. let i = i + 1 in
     CHECK 113 (1 \<le> unat signature_cnt \<and> unat signature_cnt \<le> FD_TXN_SIG_MAX) (
     CHECK_LEFT 114 payload_sz i 1 (READ payload i (\<lambda>ro_signed_cnt. let i = i + 1 in
     CHECK 117 (unat ro_signed_cnt < unat signature_cnt) (
     CHECK_LEFT 118 payload_sz i 1 (READ payload i (\<lambda>ro_unsigned_cnt. let i = i + 1 in
     CHECK_LEFT 124 payload_sz i 4 (LOAD 4 payload i (\<lambda>mask. let config_mask = of_nat mask :: u32; i = i + 4 in
     CHECK 125 (config_mask AND NOT 0x1F = 0) (
     CHECK 126 (config_mask AND 1 = drop_bit 1 config_mask AND 1) (
     CHECK_LEFT 128 payload_sz i FD_TXN_BLOCKHASH_SZ (let recent_blockhash_off = i; i = i + FD_TXN_BLOCKHASH_SZ in
     CHECK_LEFT 130 payload_sz i 1 (READ payload i (\<lambda>instr_cnt. let i = i + 1 in
     CHECK 131 (unat instr_cnt \<le> FD_TXN_INSTR_MAX) (
     CHECK_LEFT 134 payload_sz i 1 (READ payload i (\<lambda>acct_addr_cnt. let i = i + 1 in
     CHECK 135 (unat signature_cnt \<le> unat acct_addr_cnt \<and> unat acct_addr_cnt \<le> FD_TXN_ACCT_ADDR_MAX) (
     CHECK 136 (unat signature_cnt + unat ro_unsigned_cnt \<le> unat acct_addr_cnt) (
     CHECK_LEFT 138 payload_sz i (FD_TXN_ACCT_ADDR_SZ * unat acct_addr_cnt) (
       let acct_addr_off = i; i = i + FD_TXN_ACCT_ADDR_SZ * unat acct_addr_cnt;
           config_values_off = i; num_config_values = fd_uint_popcnt config_mask in
     CHECK_LEFT 143 payload_sz i (4 * num_config_values) (let i = i + 4 * num_config_values;
       hdr = \<lparr>v1_signature_cnt = unat signature_cnt, v1_ro_signed_cnt = unat ro_signed_cnt,
              v1_ro_unsigned_cnt = unat ro_unsigned_cnt,
              v1_recent_blockhash_off = recent_blockhash_off, v1_instr_cnt = unat instr_cnt,
              v1_acct_addr_cnt = unat acct_addr_cnt, v1_acct_addr_off = acct_addr_off,
              v1_config_values_off = config_values_off\<rparr> in
     if drop_bit 4 config_mask AND 1 \<noteq> 0 then
       LOAD 4 payload (config_values_off + 4 * ulong_sub num_config_values 1) (\<lambda>requested_heap.
       CHECK 150 (FD_TXN_V1_MIN_HEAP_SZ \<le> requested_heap \<and> requested_heap \<le> FD_TXN_V1_MAX_HEAP_SZ \<and>
                  requested_heap mod FD_TXN_V1_HEAP_GRANULARITY = 0) (
       Ok (hdr, i)))
     else Ok (hdr, i))))))))))))))))))))))))))"

text \<open>Pass 1 leaves \<open>acct_off\<close> and \<open>data_off\<close> of an entry unset; pass 2 assigns them.\<close>

fun parse_v1_instr_headers ::
    "bytes \<Rightarrow> nat \<Rightarrow> nat \<Rightarrow> nat \<Rightarrow> nat \<Rightarrow> fd_txn_instr list \<Rightarrow> (fd_txn_instr list \<times> nat) res" where
  "parse_v1_instr_headers payload payload_sz addr_cnt 0 i parsed = Ok (parsed, i)"
| "parse_v1_instr_headers payload payload_sz addr_cnt (Suc left) i parsed =
     CHECK_LEFT 164 payload_sz i 1 (READ payload i (\<lambda>prog. let i = i + 1 in
     CHECK 167 (0 < unat prog \<and> unat prog < addr_cnt) (
     CHECK_LEFT 168 payload_sz i 1 (READ payload i (\<lambda>cnt. let i = i + 1 in
     CHECK_LEFT 169 payload_sz i 2 (LOAD 2 payload i (\<lambda>sz. let i = i + 2 in
     OUT_INSTR (length parsed) (
     parse_v1_instr_headers payload payload_sz addr_cnt left i
       (parsed @ [\<lparr>program_id = prog, acct_cnt = of_nat (unat cnt), data_sz = of_nat sz,
                   acct_off = 0, data_off = 0\<rparr>])))))))))"

fun check_v1_accts :: "bytes \<Rightarrow> nat \<Rightarrow> nat \<Rightarrow> nat \<Rightarrow> nat res" where
  "check_v1_accts payload addr_cnt 0 i = Ok i"
| "check_v1_accts payload addr_cnt (Suc left) i =
     READ payload i (\<lambda>b. CHECK 184 (unat b < addr_cnt) (
     check_v1_accts payload addr_cnt left (i + 1)))"

fun parse_v1_instr_payloads ::
    "bytes \<Rightarrow> nat \<Rightarrow> nat \<Rightarrow> fd_txn_instr list \<Rightarrow> nat \<Rightarrow> fd_txn_instr list \<Rightarrow>
     (fd_txn_instr list \<times> nat) res" where
  "parse_v1_instr_payloads payload payload_sz addr_cnt [] i parsed = Ok (parsed, i)"
| "parse_v1_instr_payloads payload payload_sz addr_cnt (ins # rest) i parsed =
     CHECK_LEFT 182 payload_sz i (unat (acct_cnt ins)) (let acct_off' = i in
     rbind (check_v1_accts payload addr_cnt (unat (acct_cnt ins)) i) (\<lambda>i.
     CHECK_LEFT 185 payload_sz i (unat (data_sz ins)) (let data_off' = i; i = i + unat (data_sz ins) in
     OUT_INSTR (length parsed) (
     parse_v1_instr_payloads payload payload_sz addr_cnt rest i
       (parsed @ [ins\<lparr>acct_off := of_nat acct_off', data_off := of_nat data_off'\<rparr>])))))"

definition parse_v1 :: "bytes \<Rightarrow> nat \<Rightarrow> bool \<Rightarrow> (nat \<times> fd_txn \<times> nat) res" where
  "parse_v1 payload payload_sz want_sz =
     rbind (parse_v1_header payload payload_sz 0) (\<lambda>(h, i).
     rbind (parse_v1_instr_headers payload payload_sz (v1_acct_addr_cnt h) (v1_instr_cnt h) i []) (\<lambda>(hdrs, i).
     rbind (parse_v1_instr_payloads payload payload_sz (v1_acct_addr_cnt h) hdrs i []) (\<lambda>(instrs, i).
     CHECK_LEFT 191 payload_sz i (FD_TXN_SIGNATURE_SZ * v1_signature_cnt h) (
       let signature_off' = i; i = i + FD_TXN_SIGNATURE_SZ * v1_signature_cnt h;
           parsed = \<lparr>transaction_version = FD_TXN_V1,
             signature_cnt = of_nat (v1_signature_cnt h),
             signature_off = of_nat signature_off',
             message_off = 0,
             readonly_signed_cnt = of_nat (v1_ro_signed_cnt h),
             readonly_unsigned_cnt = of_nat (v1_ro_unsigned_cnt h),
             acct_addr_cnt = of_nat (v1_acct_addr_cnt h),
             acct_addr_off = of_nat (v1_acct_addr_off h),
             recent_blockhash_off = of_nat (v1_recent_blockhash_off h),
             addr_table_lookup_cnt = 0,
             addr_table_adtl_writable_cnt = 0,
             addr_table_adtl_cnt = 0,
             v1_txn_config_values_off = of_nat (v1_config_values_off h),
             instr_cnt = of_nat (v1_instr_cnt h),
             instr = instrs,
             address_tables = []\<rparr> in
     OUT_WRITE 0 22 (
     CHECK 213 (want_sz \<or> i = length payload) (
     Ok (fd_txn_footprint (v1_instr_cnt h) 0, parsed, i)))))))"

subsection \<open>Legacy and V0 transactions\<close>

record v0_header =
  v0_transaction_version :: u8
  v0_signature_cnt :: nat
  v0_signature_off :: nat
  v0_message_off :: nat
  v0_ro_signed_cnt :: nat
  v0_ro_unsigned_cnt :: nat
  v0_acct_addr_cnt :: nat
  v0_acct_addr_off :: nat
  v0_recent_blockhash_off :: nat
  v0_instr_cnt :: nat

definition parse_v0_version :: "bytes \<Rightarrow> nat \<Rightarrow> u8 \<Rightarrow> u8 \<Rightarrow> nat \<Rightarrow> (u8 \<times> nat) res" where
  "parse_v0_version payload payload_sz sig_cnt header_b0 i =
     (if header_b0 AND 0x80 \<noteq> 0 then
        let version = header_b0 AND 0x7F in
        CHECK 239 (version = FD_TXN_V0) (
        CHECK_LEFT 241 payload_sz i 1 (READ payload i (\<lambda>b. CHECK 241 (sig_cnt = b) (
        Ok (version, i + 1)))))
      else CHECK 244 (sig_cnt = header_b0) (Ok (FD_TXN_VLEGACY, i)))"

definition parse_v0_header :: "bytes \<Rightarrow> nat \<Rightarrow> nat \<Rightarrow> (v0_header \<times> nat) res" where
  "parse_v0_header payload payload_sz i =
     CHECK_LEFT 227 payload_sz i 1 (READ payload i (\<lambda>signature_cnt. let i = i + 1 in
     CHECK 229 (1 \<le> unat signature_cnt \<and> unat signature_cnt \<le> FD_TXN_SIG_MAX) (
     CHECK_LEFT 230 payload_sz i (FD_TXN_SIGNATURE_SZ * unat signature_cnt) (
       let signature_off = i; i = i + FD_TXN_SIGNATURE_SZ * unat signature_cnt; message_off = i in
     CHECK_LEFT 233 payload_sz i 1 (READ payload i (\<lambda>header_b0. let i = i + 1 in
     rbind (parse_v0_version payload payload_sz signature_cnt header_b0 i) (\<lambda>(version, i).
     CHECK_LEFT 246 payload_sz i 1 (READ payload i (\<lambda>ro_signed_cnt. let i = i + 1 in
     CHECK 248 (unat ro_signed_cnt < unat signature_cnt) (
     CHECK_LEFT 250 payload_sz i 1 (READ payload i (\<lambda>ro_unsigned_cnt. let i = i + 1 in
     READ_CHECKED_COMPACT_U16 253 payload payload_sz i (\<lambda>bytes_consumed acct_addr_cnt. let i = i + bytes_consumed in
     CHECK 254 (unat signature_cnt \<le> unat acct_addr_cnt \<and> unat acct_addr_cnt \<le> FD_TXN_ACCT_ADDR_MAX) (
     CHECK 255 (unat signature_cnt + unat ro_unsigned_cnt \<le> unat acct_addr_cnt) (
     CHECK_LEFT 257 payload_sz i (FD_TXN_ACCT_ADDR_SZ * unat acct_addr_cnt) (
       let acct_addr_off = i; i = i + FD_TXN_ACCT_ADDR_SZ * unat acct_addr_cnt in
     CHECK_LEFT 258 payload_sz i FD_TXN_BLOCKHASH_SZ (
       let recent_blockhash_off = i; i = i + FD_TXN_BLOCKHASH_SZ in
     READ_CHECKED_COMPACT_U16 261 payload payload_sz i (\<lambda>bytes_consumed instr_cnt. let i = i + bytes_consumed in
     CHECK 263 (unat instr_cnt \<le> FD_TXN_INSTR_MAX) (
     CHECK_LEFT 265 payload_sz i (MIN_INSTR_SZ * unat instr_cnt) (
     CHECK 268 (unat acct_addr_cnt > of_bool (instr_cnt \<noteq> 0)) (
     Ok (\<lparr>v0_transaction_version = version, v0_signature_cnt = unat signature_cnt,
          v0_signature_off = signature_off, v0_message_off = message_off,
          v0_ro_signed_cnt = unat ro_signed_cnt, v0_ro_unsigned_cnt = unat ro_unsigned_cnt,
          v0_acct_addr_cnt = unat acct_addr_cnt, v0_acct_addr_off = acct_addr_off,
          v0_recent_blockhash_off = recent_blockhash_off,
          v0_instr_cnt = unat instr_cnt\<rparr>, i))))))))))))))))))))))"

fun scan_max_acct :: "bytes \<Rightarrow> nat \<Rightarrow> nat \<Rightarrow> u8 \<Rightarrow> u8 res" where
  "scan_max_acct payload 0 i max_acct = Ok max_acct"
| "scan_max_acct payload (Suc left) i max_acct =
     READ payload i (\<lambda>b. scan_max_acct payload left (i + 1) (max max_acct b))"

fun parse_v0_instrs ::
    "bytes \<Rightarrow> nat \<Rightarrow> nat \<Rightarrow> nat \<Rightarrow> nat \<Rightarrow> u8 \<Rightarrow> fd_txn_instr list \<Rightarrow>
     (fd_txn_instr list \<times> u8 \<times> nat) res" where
  "parse_v0_instrs payload payload_sz addr_cnt 0 i max_acct parsed = Ok (parsed, max_acct, i)"
| "parse_v0_instrs payload payload_sz addr_cnt (Suc left) i max_acct parsed =
     CHECK_LEFT 294 payload_sz i MIN_INSTR_SZ (READ payload i (\<lambda>prog. let i = i + 1 in
     READ_CHECKED_COMPACT_U16 295 payload payload_sz i (\<lambda>bytes_consumed cnt. let i = i + bytes_consumed in
     CHECK 296 (unat cnt \<le> FD_TXN_INSTR_ACCT_MAX) (
     CHECK_LEFT 297 payload_sz i (unat cnt) (let acct_off' = i in
     rbind (scan_max_acct payload (unat cnt) i max_acct) (\<lambda>max_acct. let i = i + unat cnt in
     READ_CHECKED_COMPACT_U16 299 payload payload_sz i (\<lambda>bytes_consumed sz. let i = i + bytes_consumed in
     CHECK_LEFT 300 payload_sz i (unat sz) (let data_off' = i; i = i + unat sz in
     CHECK 308 (0 < unat prog \<and> unat prog < addr_cnt) (
     OUT_INSTR (length parsed) (
     parse_v0_instrs payload payload_sz addr_cnt left i max_acct
       (parsed @ [\<lparr>program_id = prog, acct_cnt = cnt, data_sz = sz,
                   acct_off = of_nat acct_off', data_off = of_nat data_off'\<rparr>])))))))))))"

fun parse_v0_luts ::
    "bytes \<Rightarrow> nat \<Rightarrow> nat \<Rightarrow> nat \<Rightarrow> nat \<Rightarrow> nat \<Rightarrow> nat \<Rightarrow> nat \<Rightarrow> fd_txn_acct_addr_lut list \<Rightarrow>
     (fd_txn_acct_addr_lut list \<times> nat \<times> nat \<times> nat) res" where
  "parse_v0_luts payload payload_sz tables_off addr_cnt 0 i adtl_writable adtl parsed =
     Ok (parsed, adtl_writable, adtl, i)"
| "parse_v0_luts payload payload_sz tables_off addr_cnt (Suc left) i adtl_writable adtl parsed =
     CHECK_LEFT 334 payload_sz i FD_TXN_ACCT_ADDR_SZ (let addr_off' = i; i = i + FD_TXN_ACCT_ADDR_SZ in
     READ_CHECKED_COMPACT_U16 338 payload payload_sz i (\<lambda>bytes_consumed wcnt. let i = i + bytes_consumed in
     CHECK_LEFT 339 payload_sz i (unat wcnt) (let writable_off' = i; i = i + unat wcnt in
     READ_CHECKED_COMPACT_U16 340 payload payload_sz i (\<lambda>bytes_consumed rcnt. let i = i + bytes_consumed in
     CHECK_LEFT 341 payload_sz i (unat rcnt) (let readonly_off' = i; i = i + unat rcnt in
     CHECK 343 (unat wcnt \<le> ulong_sub FD_TXN_ACCT_ADDR_MAX addr_cnt) (
     CHECK 344 (unat rcnt \<le> ulong_sub FD_TXN_ACCT_ADDR_MAX addr_cnt) (
     CHECK 345 (1 \<le> unat wcnt + unat rcnt) (
     OUT_WRITE (tables_off + length parsed * 8) 8 (
     parse_v0_luts payload payload_sz tables_off addr_cnt left i (adtl_writable + unat wcnt)
       (adtl + unat wcnt + unat rcnt)
       (parsed @ [\<lparr>addr_off = of_nat addr_off', writable_cnt = of_nat (unat wcnt),
                   readonly_cnt = of_nat (unat rcnt), writable_off = of_nat writable_off',
                   readonly_off = of_nat readonly_off'\<rparr>]))))))))))"

definition parse_v0_tables ::
    "bytes \<Rightarrow> nat \<Rightarrow> u8 \<Rightarrow> nat \<Rightarrow> nat \<Rightarrow> nat \<Rightarrow> (nat \<times> fd_txn_acct_addr_lut list \<times> nat \<times> nat \<times> nat) res" where
  "parse_v0_tables payload payload_sz version tables_off addr_cnt i =
     (if version = FD_TXN_V0 then
        READ_CHECKED_COMPACT_U16 329 payload payload_sz i (\<lambda>bytes_consumed addr_table_cnt. let i = i + bytes_consumed in
        CHECK 330 (unat addr_table_cnt \<le> FD_TXN_ADDR_TABLE_LOOKUP_MAX) (
        CHECK_LEFT 331 payload_sz i (MIN_ADDR_LUT_SIZE * unat addr_table_cnt) (
        rbind (parse_v0_luts payload payload_sz tables_off addr_cnt (unat addr_table_cnt) i 0 0 []) (\<lambda>(luts, w, n, i).
        Ok (unat addr_table_cnt, luts, w, n, i)))))
      else Ok (0, [], 0, 0, i))"

definition parse_v0 :: "bytes \<Rightarrow> nat \<Rightarrow> bool \<Rightarrow> (nat \<times> fd_txn \<times> nat) res" where
  "parse_v0 payload payload_sz want_sz =
     rbind (parse_v0_header payload payload_sz 0) (\<lambda>(h, i).
     OUT_WRITE 0 22 (
     rbind (parse_v0_instrs payload payload_sz (v0_acct_addr_cnt h) (v0_instr_cnt h) i 0 []) (\<lambda>(instrs, max_acct, i).
     rbind (parse_v0_tables payload payload_sz (v0_transaction_version h)
              (fd_txn_get_address_tables (v0_instr_cnt h)) (v0_acct_addr_cnt h) i)
       (\<lambda>(addr_table_cnt, luts, adtl_writable, adtl, i).
     CHECK 358 (want_sz \<or> i = length payload) (
     CHECK 360 (v0_acct_addr_cnt h + adtl \<le> FD_TXN_ACCT_ADDR_MAX) (
     CHECK 363 (unat max_acct < v0_acct_addr_cnt h + adtl) (
     OUT_WRITE 0 22 (
     Ok (fd_txn_footprint (v0_instr_cnt h) addr_table_cnt,
         \<lparr>transaction_version = v0_transaction_version h,
          signature_cnt = of_nat (v0_signature_cnt h),
          signature_off = of_nat (v0_signature_off h),
          message_off = of_nat (v0_message_off h),
          readonly_signed_cnt = of_nat (v0_ro_signed_cnt h),
          readonly_unsigned_cnt = of_nat (v0_ro_unsigned_cnt h),
          acct_addr_cnt = of_nat (v0_acct_addr_cnt h),
          acct_addr_off = of_nat (v0_acct_addr_off h),
          recent_blockhash_off = of_nat (v0_recent_blockhash_off h),
          addr_table_lookup_cnt = of_nat addr_table_cnt,
          addr_table_adtl_writable_cnt = of_nat adtl_writable,
          addr_table_adtl_cnt = of_nat adtl,
          v1_txn_config_values_off = 0,
          instr_cnt = of_nat (v0_instr_cnt h),
          instr = instrs,
          address_tables = luts\<rparr>,
         i)))))))))"

subsection \<open>The whole parse\<close>

text \<open>
  The parse without its bookkeeping: \<open>Ok (footprint, txn, consumed)\<close> or \<open>Err line\<close>.  \<open>want_sz\<close>
  is \<open>payload_sz_opt != NULL\<close>.
\<close>

definition fd_txn_parse_payload :: "bytes \<Rightarrow> bool \<Rightarrow> (nat \<times> fd_txn \<times> nat) res" where
  "fd_txn_parse_payload payload want_sz =
     CHECK 94 (length payload \<noteq> 0) (READ payload 0 (\<lambda>payload_msb.
       let is_v1 = payload_msb AND 0x80 \<noteq> 0;
           maximum_payload_sz = (if is_v1 then FD_TXN_MTU else FD_TXN_MTU_V0);
           payload_sz = min (length payload) maximum_payload_sz
       in if is_v1 then parse_v1 payload payload_sz want_sz
          else parse_v0 payload payload_sz want_sz))"

text \<open>
  \<open>fd_txn_parse_core\<close> returns the footprint (0 on failure), the transaction written to \<open>out_buf\<close>
  (on failure its contents are unspecified, here \<open>None\<close>), the updated counters and the value stored
  through \<open>payload_sz_opt\<close>.
\<close>

definition count_success :: "fd_txn_parse_counters \<Rightarrow> fd_txn_parse_counters" where
  "count_success c = c\<lparr>success_cnt := ulong_add (success_cnt c) 1\<rparr>"

definition count_failure :: "nat \<Rightarrow> fd_txn_parse_counters \<Rightarrow> fd_txn_parse_counters" where
  "count_failure line c =
     c\<lparr>failure_ring := (failure_ring c)[failure_cnt c mod FD_TXN_PARSE_COUNTERS_RING_SZ := line],
       failure_cnt := ulong_add (failure_cnt c) 1\<rparr>"

definition fd_txn_parse_core ::
    "bytes \<Rightarrow> fd_txn_parse_counters option \<Rightarrow> bool \<Rightarrow>
     (nat \<times> fd_txn option \<times> fd_txn_parse_counters option \<times> nat option) res" where
  "fd_txn_parse_core payload counters_opt want_sz =
     (case fd_txn_parse_payload payload want_sz of
        Ok (footprint, parsed, i) \<Rightarrow>
          Ok (footprint, Some parsed, map_option count_success counters_opt,
              if want_sz then Some i else None)
      | Err line \<Rightarrow> Ok (0, None, map_option (count_failure line) counters_opt, None)
      | Ub \<Rightarrow> Ub)"

definition fd_txn_parse ::
    "bytes \<Rightarrow> fd_txn_parse_counters option \<Rightarrow>
     (nat \<times> fd_txn option \<times> fd_txn_parse_counters option \<times> nat option) res" where
  "fd_txn_parse payload counters_opt = fd_txn_parse_core payload counters_opt False"

subsection \<open>Accessors\<close>

text \<open>The accessors return the offset into the payload that the C functions add to its address.\<close>

definition fd_txn_get_signatures :: "fd_txn \<Rightarrow> nat" where
  "fd_txn_get_signatures txn = unat (signature_off txn)"

definition fd_txn_get_acct_addrs :: "fd_txn \<Rightarrow> nat" where
  "fd_txn_get_acct_addrs txn = unat (acct_addr_off txn)"

definition fd_txn_get_recent_blockhash :: "fd_txn \<Rightarrow> nat" where
  "fd_txn_get_recent_blockhash txn = unat (recent_blockhash_off txn)"

definition fd_txn_get_instr_accts :: "fd_txn_instr \<Rightarrow> nat" where
  "fd_txn_get_instr_accts ins = unat (acct_off ins)"

definition fd_txn_get_instr_data :: "fd_txn_instr \<Rightarrow> nat" where
  "fd_txn_get_instr_data ins = unat (data_off ins)"

definition vote_program_id :: bytes where
  "vote_program_id =
     [0x07, 0x61, 0x48, 0x1d, 0x35, 0x74, 0x74, 0xbb, 0x7c, 0x4d, 0x76, 0x24, 0xeb, 0xd3, 0xbd, 0xb3,
      0xd8, 0x35, 0x5e, 0x73, 0xd1, 0x10, 0x43, 0xfc, 0x0d, 0xa3, 0x53, 0x80, 0x00, 0x00, 0x00, 0x00]"

definition fd_txn_is_simple_vote_transaction :: "fd_txn \<Rightarrow> bytes \<Rightarrow> bool res" where
  "fd_txn_is_simple_vote_transaction txn payload =
     (let addr_base = fd_txn_get_acct_addrs txn
      in if unat (instr_cnt txn) \<noteq> 1 then Ok False
         else if transaction_version txn \<noteq> FD_TXN_VLEGACY then Ok False
         else if unat (signature_cnt txn) > 2 then Ok False
         else case instr txn of
             [] \<Rightarrow> Ub
           | ins # _ \<Rightarrow>
               MEMEQ payload (addr_base + FD_TXN_ACCT_ADDR_SZ * unat (program_id ins)) vote_program_id
                 FD_TXN_ACCT_ADDR_SZ Ok)"

text \<open>
  \<open>fd_txn_parse_v1_config\<close> on the mask and the offset of the config values in the payload:
  priority fee, compute unit limit, loaded accounts data size limit, heap size.
\<close>

definition FD_TXN_V1_DEFAULT_HEAP_SZ :: nat where
  "FD_TXN_V1_DEFAULT_HEAP_SZ = 32 * 1024"

definition V1_FIELD :: "bool \<Rightarrow> nat \<Rightarrow> bytes \<Rightarrow> nat \<Rightarrow> nat \<Rightarrow> (nat \<Rightarrow> nat \<Rightarrow> 'a res) \<Rightarrow> 'a res" where
  "V1_FIELD present sz payload v dflt k =
     (if present then LOAD sz payload v (\<lambda>x. k x (v + sz)) else k dflt v)"

definition fd_txn_parse_v1_config :: "u32 \<Rightarrow> bytes \<Rightarrow> nat \<Rightarrow> (nat \<times> nat \<times> nat \<times> nat) res" where
  "fd_txn_parse_v1_config config_mask payload v =
     V1_FIELD (config_mask AND 1 \<noteq> 0) 8 payload v 0 (\<lambda>priority_fee v.
     V1_FIELD (drop_bit 2 config_mask AND 1 \<noteq> 0) 4 payload v 0 (\<lambda>cu_limit v.
     V1_FIELD (drop_bit 3 config_mask AND 1 \<noteq> 0) 4 payload v 0 (\<lambda>lads_limit v.
     V1_FIELD (drop_bit 4 config_mask AND 1 \<noteq> 0) 4 payload v FD_TXN_V1_DEFAULT_HEAP_SZ (\<lambda>heap v.
     Ok (priority_fee, cu_limit, lads_limit, heap)))))"

end
