(* ===== verification/Txn_Format.thy ===== *)
theory Txn_Format
  imports Txn
begin

text \<open>
  The wire format of transactions, as a specification that does not mention offsets: a
  transaction is its contents (\<open>atxn\<close>), \<open>encode\<close> is the byte string it is sent as, \<open>atxn_wf\<close> the
  rules a transaction keeps, and \<open>layout\<close> the \<open>fd_txn_t\<close> that describes the byte string.  The parser
  is compared with these three in \<open>Txn_Parse\<close>.
\<close>

record ainstr =
  a_prog :: u8
  a_accts :: bytes
  a_data :: bytes

record alut =
  l_addr :: bytes
  l_writable :: bytes
  l_readonly :: bytes

record atxn =
  a_version :: u8
  a_sigs :: "bytes list"
  a_ro_signed :: u8
  a_ro_unsigned :: u8
  a_addrs :: "bytes list"
  a_blockhash :: bytes
  a_instrs :: "ainstr list"
  a_luts :: "alut list"
  a_config_mask :: u32
  a_config :: "bytes list"

definition cu16 :: "nat \<Rightarrow> bytes" where
  "cu16 n = fd_cu16_enc (of_nat n)"

definition byte :: "nat \<Rightarrow> u8" where
  "byte n = of_nat n"

definition le_bytes :: "nat \<Rightarrow> nat \<Rightarrow> bytes" where
  "le_bytes k n = map (\<lambda>j. byte (n div 256 ^ j mod 256)) [0..<k]"

subsection \<open>Legacy and V0\<close>

definition enc_instr :: "ainstr \<Rightarrow> bytes" where
  "enc_instr a = a_prog a # cu16 (length (a_accts a)) @ a_accts a @ cu16 (length (a_data a)) @ a_data a"

definition lay_instr :: "nat \<Rightarrow> ainstr \<Rightarrow> fd_txn_instr" where
  "lay_instr i a =
     (let ao = i + 1 + length (cu16 (length (a_accts a)));
          d = ao + length (a_accts a) + length (cu16 (length (a_data a)))
      in \<lparr>program_id = a_prog a, acct_cnt = of_nat (length (a_accts a)),
          data_sz = of_nat (length (a_data a)), acct_off = of_nat ao, data_off = of_nat d\<rparr>)"

fun lay_instrs :: "nat \<Rightarrow> ainstr list \<Rightarrow> fd_txn_instr list" where
  "lay_instrs i [] = []"
| "lay_instrs i (a # as) = lay_instr i a # lay_instrs (i + length (enc_instr a)) as"

definition enc_lut :: "alut \<Rightarrow> bytes" where
  "enc_lut l = l_addr l @ cu16 (length (l_writable l)) @ l_writable l @
               cu16 (length (l_readonly l)) @ l_readonly l"

definition lay_lut :: "nat \<Rightarrow> alut \<Rightarrow> fd_txn_acct_addr_lut" where
  "lay_lut i l =
     (let w = i + 32 + length (cu16 (length (l_writable l)));
          r = w + length (l_writable l) + length (cu16 (length (l_readonly l)))
      in \<lparr>addr_off = of_nat i, writable_cnt = of_nat (length (l_writable l)),
          readonly_cnt = of_nat (length (l_readonly l)), writable_off = of_nat w,
          readonly_off = of_nat r\<rparr>)"

fun lay_luts :: "nat \<Rightarrow> alut list \<Rightarrow> fd_txn_acct_addr_lut list" where
  "lay_luts i [] = []"
| "lay_luts i (l # ls) = lay_lut i l # lay_luts (i + length (enc_lut l)) ls"

definition adtl_writable :: "alut list \<Rightarrow> nat" where
  "adtl_writable ls = sum_list (map (length \<circ> l_writable) ls)"

definition adtl :: "alut list \<Rightarrow> nat" where
  "adtl ls = sum_list (map (\<lambda>l. length (l_writable l) + length (l_readonly l)) ls)"

definition enc_version :: "u8 \<Rightarrow> bytes" where
  "enc_version v = (if v = FD_TXN_V0 then [0x80] else [])"

definition enc_hd :: "atxn \<Rightarrow> nat \<Rightarrow> bytes" where
  "enc_hd m n_instr = byte (length (a_sigs m)) # concat (a_sigs m) @ enc_version (a_version m) @
     [byte (length (a_sigs m)), a_ro_signed m, a_ro_unsigned m] @
     cu16 (length (a_addrs m)) @ concat (a_addrs m) @ a_blockhash m @ cu16 n_instr"

abbreviation enc_head :: "atxn \<Rightarrow> bytes" where
  "enc_head m \<equiv> enc_hd m (length (a_instrs m))"

definition enc_luts :: "u8 \<Rightarrow> alut list \<Rightarrow> bytes" where
  "enc_luts v ls = (if v = FD_TXN_V0 then cu16 (length ls) @ concat (map enc_lut ls) else [])"

subsection \<open>V1\<close>

definition enc_instr_header :: "ainstr \<Rightarrow> bytes" where
  "enc_instr_header a = [a_prog a, byte (length (a_accts a))] @ le_bytes 2 (length (a_data a))"

definition enc_instr_payload :: "ainstr \<Rightarrow> bytes" where
  "enc_instr_payload a = a_accts a @ a_data a"

fun lay_v1_instrs :: "nat \<Rightarrow> ainstr list \<Rightarrow> fd_txn_instr list" where
  "lay_v1_instrs i [] = []"
| "lay_v1_instrs i (a # as) =
     \<lparr>program_id = a_prog a, acct_cnt = of_nat (length (a_accts a)),
      data_sz = of_nat (length (a_data a)), acct_off = of_nat i,
      data_off = of_nat (i + length (a_accts a))\<rparr> #
     lay_v1_instrs (i + length (enc_instr_payload a)) as"

definition enc_v1_hd :: "atxn \<Rightarrow> nat \<Rightarrow> bytes" where
  "enc_v1_hd m n_instr = [0x81, byte (length (a_sigs m)), a_ro_signed m, a_ro_unsigned m] @
     le_bytes 4 (unat (a_config_mask m)) @ a_blockhash m @
     [byte n_instr, byte (length (a_addrs m))] @ concat (a_addrs m) @ concat (a_config m)"

abbreviation enc_v1_head :: "atxn \<Rightarrow> bytes" where
  "enc_v1_head m \<equiv> enc_v1_hd m (length (a_instrs m))"

definition enc_v1_headers :: "atxn \<Rightarrow> bytes" where
  "enc_v1_headers m = concat (map enc_instr_header (a_instrs m))"

definition enc_v1_payloads :: "atxn \<Rightarrow> bytes" where
  "enc_v1_payloads m = concat (map enc_instr_payload (a_instrs m))"

subsection \<open>Transactions\<close>

definition encode :: "atxn \<Rightarrow> bytes" where
  "encode m =
     (if a_version m = FD_TXN_V1
      then enc_v1_head m @ enc_v1_headers m @ enc_v1_payloads m @ concat (a_sigs m)
      else enc_head m @ concat (map enc_instr (a_instrs m)) @ enc_luts (a_version m) (a_luts m))"

definition layout :: "atxn \<Rightarrow> fd_txn" where
  "layout m =
     (let v1 = a_version m = FD_TXN_V1;
          sigs = 64 * length (a_sigs m);
          msg = 1 + sigs;
          v0 = length (enc_version (a_version m));
          addrs = (if v1 then 42 else msg + v0 + 3 + length (cu16 (length (a_addrs m))));
          v1_payloads = length (enc_v1_head m @ enc_v1_headers m)
      in \<lparr>transaction_version = a_version m,
          signature_cnt = of_nat (length (a_sigs m)),
          signature_off = of_nat (if v1 then v1_payloads + length (enc_v1_payloads m) else 1),
          message_off = of_nat (if v1 then 0 else msg),
          readonly_signed_cnt = a_ro_signed m,
          readonly_unsigned_cnt = a_ro_unsigned m,
          acct_addr_cnt = of_nat (length (a_addrs m)),
          acct_addr_off = of_nat addrs,
          recent_blockhash_off = of_nat (if v1 then 8 else addrs + 32 * length (a_addrs m)),
          addr_table_lookup_cnt = of_nat (length (a_luts m)),
          addr_table_adtl_writable_cnt = of_nat (adtl_writable (a_luts m)),
          addr_table_adtl_cnt = of_nat (adtl (a_luts m)),
          v1_txn_config_values_off = of_nat (if v1 then 42 + 32 * length (a_addrs m) else 0),
          instr_cnt = of_nat (length (a_instrs m)),
          instr = (if v1 then lay_v1_instrs v1_payloads (a_instrs m)
                   else lay_instrs (length (enc_head m)) (a_instrs m)),
          address_tables =
            lay_luts (length (enc_head m @ concat (map enc_instr (a_instrs m))) +
                      length (cu16 (length (a_luts m)))) (a_luts m)\<rparr>)"

text \<open>The rules common to all versions.\<close>

definition atxn_common :: "atxn \<Rightarrow> bool" where
  "atxn_common m \<longleftrightarrow>
     1 \<le> length (a_sigs m) \<and> length (a_sigs m) \<le> 12 \<and> (\<forall>s \<in> set (a_sigs m). length s = 64) \<and>
     unat (a_ro_signed m) < length (a_sigs m) \<and>
     length (a_sigs m) + unat (a_ro_unsigned m) \<le> length (a_addrs m) \<and>
     length (a_addrs m) + adtl (a_luts m) \<le> 64 \<and> (\<forall>s \<in> set (a_addrs m). length s = 32) \<and>
     length (a_blockhash m) = 32 \<and> length (a_instrs m) \<le> 64 \<and>
     (\<forall>a \<in> set (a_instrs m). 0 < unat (a_prog a) \<and> unat (a_prog a) < length (a_addrs m) \<and>
        length (a_accts a) \<le> 255 \<and>
        (\<forall>b \<in> set (a_accts a). unat b < length (a_addrs m) + adtl (a_luts m)))"

definition atxn_luts_wf :: "atxn \<Rightarrow> bool" where
  "atxn_luts_wf m \<longleftrightarrow>
     length (a_luts m) \<le> 127 \<and>
     (\<forall>l \<in> set (a_luts m). length (l_addr l) = 32 \<and>
        1 \<le> length (l_writable l) + length (l_readonly l))"

definition atxn_config_wf :: "atxn \<Rightarrow> bool" where
  "atxn_config_wf m \<longleftrightarrow>
     a_config_mask m AND NOT 0x1F = 0 \<and> (bit (a_config_mask m) 0 = bit (a_config_mask m) 1) \<and>
     length (a_config m) = fd_uint_popcnt (a_config_mask m) \<and> (\<forall>c \<in> set (a_config m). length c = 4) \<and>
     (bit (a_config_mask m) 4 \<longrightarrow>
        (let heap = le_nat (last (a_config m))
         in 32768 \<le> heap \<and> heap \<le> 262144 \<and> heap mod 1024 = 0))"

definition atxn_wf :: "atxn \<Rightarrow> bool" where
  "atxn_wf m \<longleftrightarrow> atxn_common m \<and>
     (if a_version m = FD_TXN_V1
      then a_luts m = [] \<and> atxn_config_wf m \<and> length (encode m) \<le> 4096
      else a_config_mask m = 0 \<and> a_config m = [] \<and> atxn_luts_wf m \<and> length (encode m) \<le> 1232 \<and>
        (a_version m = FD_TXN_V0 \<or> a_version m = FD_TXN_VLEGACY \<and> a_luts m = []))"

end
