(* ===== verification/Txn_Parse.thy ===== *)
theory Txn_Parse
  imports Txn_Format
begin

text \<open>
  The stages of the transaction parser (\<^verbatim>\<open>src/src/ballet/txn/fd_txn_parse.c\<close>), one by one.  For
  each stage there is a lemma that says exactly when it returns normally and with what: the bytes
  under its cursor are the encoding of a piece of the abstract message of \<open>Txn_Format\<close>, and its result is
  the layout of that piece.
\<close>

lemma wp_CHECK_LEFT [wp]:
  "i \<le> sz \<Longrightarrow> sz < 2 ^ 64 \<Longrightarrow> wp (CHECK_LEFT l sz i n k) Q = (i + n \<le> sz \<longrightarrow> wp k Q)"
  by (auto simp: CHECK_LEFT_def wp ulong_sub_le)

text \<open>Stores into \<open>out_buf\<close>.\<close>

lemma OUT_WRITE_cong [cong]: "off = off' \<Longrightarrow> n = n' \<Longrightarrow> OUT_WRITE off n k = OUT_WRITE off' n' k"
  by simp

lemma OUT_INSTR_cong [cong]: "j = j' \<Longrightarrow> OUT_INSTR j k = OUT_INSTR j' k"
  by simp

lemma wp_OUT [wp]:
  "wp (OUT_WRITE off n k) Q = (off + n \<le> 854 \<and> wp k Q)"
  "wp (OUT_INSTR j k) Q = (j \<le> 82 \<and> wp k Q)"
  by (auto simp: OUT_INSTR_def OUT_WRITE_def FD_TXN_MAX_SZ_def)

lemma OUT_Ok [res_ok]:
  "(OUT_WRITE off n k = Ok x) = (off + n \<le> 854 \<and> k = Ok x)"
  "(OUT_INSTR j k = Ok x) = (j \<le> 82 \<and> k = Ok x)"
  by (auto simp: OUT_INSTR_def OUT_WRITE_def FD_TXN_MAX_SZ_def)

lemma OUT_run [res_run]:
  "off + n \<le> 854 \<Longrightarrow> OUT_WRITE off n k = k"
  "j < 64 \<Longrightarrow> OUT_INSTR j k = k"
  by (auto simp: OUT_INSTR_def OUT_WRITE_def FD_TXN_MAX_SZ_def)

lemma OUT_hdr [simp]: "OUT_WRITE 0 22 k = k"
  by (simp add: OUT_run)

definition cu16_read :: "bytes \<Rightarrow> nat \<Rightarrow> nat \<Rightarrow> nat \<Rightarrow> u16 \<Rightarrow> bool" where
  "cu16_read p sz i n v =
     (n = length (fd_cu16_enc v) \<and> i + n \<le> sz \<and> take n (drop i p) = fd_cu16_enc v)"

lemma READ_CHECKED_COMPACT_U16_dec:
  assumes "i \<le> sz" "sz < 2 ^ 64" "sz \<le> length p"
  shows "READ_CHECKED_COMPACT_U16 l p sz i k =
    (case fd_cu16_dec p i (sz - i) of Ok (Some (n, v)) \<Rightarrow> k n v | Ok None \<Rightarrow> Err l | Err e \<Rightarrow> Err e | Ub \<Rightarrow> Ub)"
proof (cases "cu16_at p i (sz - i)")
  case None
  with assms show ?thesis
    by (simp add: READ_CHECKED_COMPACT_U16_def ulong_sub_le fd_cu16_dec_sz_eq fd_cu16_dec_def)
next
  case (Some a)
  then obtain n v where nv: "cu16_at p i (sz - i) = Some (n, v)"
    by (cases a) simp
  have "n \<noteq> 0"
    using cu16_spec_sound [OF nv u8_less_256 u8_less_256] by simp
  with assms nv show ?thesis
    using fd_cu16_dec_fixed_eq [OF _ nv]
    by (simp add: READ_CHECKED_COMPACT_U16_def ulong_sub_le fd_cu16_dec_sz_eq fd_cu16_dec_def)
qed

lemma cu16_read_iff:
  assumes "i \<le> sz" "sz \<le> length p"
  shows "cu16_read p sz i n v = (fd_cu16_dec p i (sz - i) = Ok (Some (n, v)))"
proof
  assume "fd_cu16_dec p i (sz - i) = Ok (Some (n, v))"
  from fd_cu16_dec_canonical_at [OF _ this] assms show "cu16_read p sz i n v"
    by (auto simp: cu16_read_def)
next
  assume "cu16_read p sz i n v"
  then show "fd_cu16_dec p i (sz - i) = Ok (Some (n, v))"
    using fd_cu16_dec_enc_at [of v i p "sz - i"] assms by (auto simp: cu16_read_def)
qed

lemma wp_READ_CHECKED_COMPACT_U16 [wp]:
  assumes "i \<le> sz" "sz < 2 ^ 64" "sz \<le> length p"
  shows "wp (READ_CHECKED_COMPACT_U16 l p sz i k) Q = (\<forall>n v. cu16_read p sz i n v \<longrightarrow> wp (k n v) Q)"
proof -
  obtain r where "fd_cu16_dec p i (sz - i) = Ok r"
    using assms by (simp add: fd_cu16_dec_eq)
  then show ?thesis
    using assms by (auto simp: READ_CHECKED_COMPACT_U16_dec cu16_read_iff split: option.split)
qed

lemma cu16_read_sz:
  assumes "cu16_read p sz i n v"
  shows "1 \<le> n" "n \<le> 3" "i + n \<le> sz"
proof -
  have "length (cu16_bytes (unat v)) = length (fd_cu16_enc v)"
    by (metis length_map map_unat_fd_cu16_enc)
  moreover have "1 \<le> length (cu16_bytes w)" "length (cu16_bytes w) \<le> 3" for w
    by (simp_all add: cu16_bytes_def)
  ultimately show "1 \<le> n" "n \<le> 3" "i + n \<le> sz"
    using assms by (auto simp: cu16_read_def) metis+
qed

lemma wp_check_v1_accts:
  assumes "i + n \<le> length p"
  shows "wp (check_v1_accts p c n i) (\<lambda>j. j = i + n \<and> (\<forall>k<n. unat (p ! (i + k)) < c))"
  using assms
proof (induction n arbitrary: i)
  case (Suc n)
  have "wp (check_v1_accts p c n (i + 1)) (\<lambda>j. j = i + 1 + n \<and> (\<forall>k<n. unat (p ! (i + 1 + k)) < c))"
    using Suc.IH [of "i + 1"] Suc.prems by simp
  then show ?case
    using Suc.prems by (auto simp: wp less_Suc_eq_0_disj elim!: wp_mono)
qed simp

lemma popcnt_config: "fd_uint_popcnt x \<le> 32"
  by (simp add: fd_uint_popcnt_def) (metis length_filter_le diff_zero length_upt)


lemma CHECK_LEFT_Ok [res_ok]:
  "i \<le> sz \<Longrightarrow> sz < 2 ^ 64 \<Longrightarrow> (CHECK_LEFT l sz i n k = Ok x) = (i + n \<le> sz \<and> k = Ok x)"
  by (auto simp: CHECK_LEFT_def res_ok ulong_sub_le)

lemma cu16_read_cu16:
  "cu16_read p sz i n v =
     (n = length (cu16 (unat v)) \<and> i + n \<le> sz \<and> bytes_at p i (cu16 (unat v)))"
  by (auto simp: cu16_read_def cu16_def bytes_at_def)

lemma READ_CHECKED_COMPACT_U16_Ok [res_ok]:
  assumes "i \<le> sz" "sz < 2 ^ 64" "sz \<le> length p"
  shows "(READ_CHECKED_COMPACT_U16 l p sz i k = Ok x) =
    (\<exists>v. i + length (cu16 (unat v)) \<le> sz \<and> bytes_at p i (cu16 (unat v)) \<and>
         k (length (cu16 (unat v))) v = Ok x)"
proof -
  obtain r where "fd_cu16_dec p i (sz - i) = Ok r"
    using assms by (simp add: fd_cu16_dec_eq)
  then have "(READ_CHECKED_COMPACT_U16 l p sz i k = Ok x) = (\<exists>n v. cu16_read p sz i n v \<and> k n v = Ok x)"
    using assms by (auto simp: READ_CHECKED_COMPACT_U16_dec cu16_read_iff split: option.split)
  then show ?thesis
    by (auto simp: cu16_read_cu16)
qed

lemma cu16_length: "1 \<le> length (cu16 n)" "length (cu16 n) \<le> 3"
proof -
  have "length (cu16 n) = length (cu16_bytes (unat (of_nat n :: u16)))"
    by (metis cu16_def length_map map_unat_fd_cu16_enc)
  then show "1 \<le> length (cu16 n)" "length (cu16 n) \<le> 3"
    by (simp_all add: cu16_bytes_def)
qed

lemma CHECK_LEFT_run [res_run]: "i + n \<le> sz \<Longrightarrow> sz < 2 ^ 64 \<Longrightarrow> CHECK_LEFT l sz i n k = k"
  by (simp add: CHECK_LEFT_def CHECK_def ulong_sub_le) linarith

lemma READ_CHECKED_COMPACT_U16_run [res_run]:
  assumes "bytes_at p i (cu16 n)" "i + length (cu16 n) \<le> sz" "sz \<le> length p" "sz < 2 ^ 64" "n < 65536"
  shows "READ_CHECKED_COMPACT_U16 l p sz i k = k (length (cu16 n)) (of_nat n)"
proof -
  have "cu16_read p sz i (length (cu16 n)) (of_nat n)"
    using assms by (simp add: cu16_read_cu16 unat_of_nat_u16)
  with assms show ?thesis
    by (simp add: READ_CHECKED_COMPACT_U16_dec cu16_read_iff)
qed

lemma scan_max_acct_eq:
  "i + n \<le> length p \<Longrightarrow> scan_max_acct p n i mx = Ok (fold max (take n (drop i p)) mx)"
proof (induction n arbitrary: i mx)
  case (Suc n)
  then show ?case
    by (simp add: Cons_nth_drop_Suc [symmetric] max.commute)
qed simp

definition instr_ok :: "nat \<Rightarrow> ainstr \<Rightarrow> bool" where
  "instr_ok c a = (0 < unat (a_prog a) \<and> unat (a_prog a) < c \<and> length (a_accts a) \<le> 255)"

lemma parse_v0_instrs_step:
  assumes "i \<le> sz" "sz \<le> length p" "sz \<le> 4096" "length acc < 64"
  shows "(parse_v0_instrs p sz c (Suc n) i mx acc = Ok r) =
    (\<exists>a. bytes_at p i (enc_instr a) \<and> i + length (enc_instr a) \<le> sz \<and> instr_ok c a \<and>
         parse_v0_instrs p sz c n (i + length (enc_instr a)) (fold max (a_accts a) mx)
           (acc @ [lay_instr i a]) = Ok r)"
  (is "?L = (\<exists>a. ?R a)")
proof
  assume ?L
  with assms obtain v w :: u16 where
    le: "i + 1 + length (cu16 (unat v)) + unat v + length (cu16 (unat w)) + unat w \<le> sz"
    and at: "bytes_at p (i + 1) (cu16 (unat v))"
      "bytes_at p (i + 1 + length (cu16 (unat v)) + unat v) (cu16 (unat w))"
    and ok: "unat v \<le> 255" "0 < unat (p ! i)" "unat (p ! i) < c"
    and rest: "parse_v0_instrs p sz c n
      (i + 1 + length (cu16 (unat v)) + unat v + length (cu16 (unat w)) + unat w)
      (fold max (take (unat v) (drop (i + 1 + length (cu16 (unat v))) p)) mx)
      (acc @ [\<lparr>program_id = p ! i, acct_cnt = v, data_sz = w,
        acct_off = of_nat (i + 1 + length (cu16 (unat v))),
        data_off = of_nat (i + 1 + length (cu16 (unat v)) + unat v + length (cu16 (unat w)))\<rparr>]) = Ok r"
    by (auto simp: res_ok txn_consts scan_max_acct_eq cong: conj_cong)
  let ?accts = "take (unat v) (drop (i + 1 + length (cu16 (unat v))) p)"
  let ?data = "take (unat w) (drop (i + 1 + length (cu16 (unat v)) + unat v + length (cu16 (unat w))) p)"
  let ?a = "\<lparr>a_prog = p ! i, a_accts = ?accts, a_data = ?data\<rparr>"
  have len: "length ?accts = unat v" "length ?data = unat w"
    using le assms by simp_all
  then have "enc_instr ?a = p ! i # cu16 (unat v) @ ?accts @ cu16 (unat w) @ ?data"
    and "lay_instr i ?a = \<lparr>program_id = p ! i, acct_cnt = v, data_sz = w,
        acct_off = of_nat (i + 1 + length (cu16 (unat v))),
        data_off = of_nat (i + 1 + length (cu16 (unat v)) + unat v + length (cu16 (unat w)))\<rparr>"
    by (simp_all add: enc_instr_def lay_instr_def Let_def)
  then have "?R ?a"
    using le at ok rest len assms by (simp add: instr_ok_def bytes_at_take add.assoc)
  then show "\<exists>a. ?R a" ..
next
  assume "\<exists>a. ?R a"
  then obtain a where a: "?R a" ..
  then have le: "length (a_accts a) < 65536" "length (a_data a) < 65536"
    using assms by (simp_all add: enc_instr_def instr_ok_def)
  with a assms show ?L
    using cu16_length [of "length (a_accts a)"] cu16_length [of "length (a_data a)"]
    by (auto simp: res_run txn_consts scan_max_acct_eq bytes_at_eq enc_instr_def instr_ok_def
        lay_instr_def Let_def unat_of_nat_u16 add.assoc)
qed

lemma ex_length_Suc:
  "(\<exists>xs. length xs = Suc n \<and> P xs) = (\<exists>x xs. length xs = n \<and> P (x # xs))"
  by (metis length_Suc_conv)

lemma parse_v0_instrs_Ok:
  assumes "i \<le> sz" "sz \<le> length p" "sz \<le> 4096" "length acc + n \<le> 64"
  shows "(parse_v0_instrs p sz c n i mx acc = Ok (res, mx', j)) =
    (\<exists>as. length as = n \<and> bytes_at p i (concat (map enc_instr as)) \<and>
          j = i + length (concat (map enc_instr as)) \<and> j \<le> sz \<and> (\<forall>a \<in> set as. instr_ok c a) \<and>
          mx' = fold max (concat (map a_accts as)) mx \<and> res = acc @ lay_instrs i as)"
  using assms
proof (induction n arbitrary: i mx acc)
  case 0
  then show ?case
    by auto
next
  case (Suc n)
  have acc: "length acc < 64" "length (acc @ [x]) + n \<le> 64" for x
    using Suc.prems(4) by simp_all
  note IH = Suc.IH [OF _ Suc.prems(2,3) acc(2)]
  show ?case
    unfolding parse_v0_instrs_step [OF Suc.prems(1-3) acc(1)] ex_length_Suc
    by (intro ex_cong1) (auto simp: IH add.assoc cong: conj_cong)
qed

definition lut_ok :: "nat \<Rightarrow> alut \<Rightarrow> bool" where
  "lut_ok c l = (length (l_addr l) = 32 \<and> length (l_writable l) \<le> 64 - c \<and>
     length (l_readonly l) \<le> 64 - c \<and> 1 \<le> length (l_writable l) + length (l_readonly l))"

lemma parse_v0_luts_step:
  assumes "i \<le> sz" "sz \<le> length p" "sz \<le> 4096" "c \<le> 64"
  shows "(parse_v0_luts p sz tb c (Suc n) i aw at acc = Ok res) =
    (tb + 8 * Suc (length acc) \<le> 854 \<and> (\<exists>l. bytes_at p i (enc_lut l) \<and> i + length (enc_lut l) \<le> sz \<and> lut_ok c l \<and>
         parse_v0_luts p sz tb c n (i + length (enc_lut l)) (aw + length (l_writable l))
           (at + length (l_writable l) + length (l_readonly l)) (acc @ [lay_lut i l]) = Ok res))"
  (is "?L = (?B \<and> (\<exists>l. ?R l))")
proof
  assume ?L
  with assms obtain v w :: u16 where
    le: "i + 32 + length (cu16 (unat v)) + unat v + length (cu16 (unat w)) + unat w \<le> sz"
    and at: "bytes_at p (i + 32) (cu16 (unat v))"
      "bytes_at p (i + 32 + length (cu16 (unat v)) + unat v) (cu16 (unat w))"
    and ok: "unat v \<le> 64 - c" "unat w \<le> 64 - c" "1 \<le> unat v + unat w"
    and b: ?B
    and rest: "parse_v0_luts p sz tb c n
      (i + 32 + length (cu16 (unat v)) + unat v + length (cu16 (unat w)) + unat w)
      (aw + unat v) (at + unat v + unat w)
      (acc @ [\<lparr>addr_off = of_nat i, writable_cnt = of_nat (unat v), readonly_cnt = of_nat (unat w),
        writable_off = of_nat (i + 32 + length (cu16 (unat v))),
        readonly_off = of_nat (i + 32 + length (cu16 (unat v)) + unat v + length (cu16 (unat w)))\<rparr>]) = Ok res"
    by (auto simp: res_ok txn_consts ulong_sub_le cong: conj_cong)
  let ?addr = "take 32 (drop i p)"
  let ?w = "take (unat v) (drop (i + 32 + length (cu16 (unat v))) p)"
  let ?r = "take (unat w) (drop (i + 32 + length (cu16 (unat v)) + unat v + length (cu16 (unat w))) p)"
  let ?l = "\<lparr>l_addr = ?addr, l_writable = ?w, l_readonly = ?r\<rparr>"
  have len: "length ?addr = 32" "length ?w = unat v" "length ?r = unat w"
    using le assms by simp_all
  then have "enc_lut ?l = ?addr @ cu16 (unat v) @ ?w @ cu16 (unat w) @ ?r"
    and "lay_lut i ?l = \<lparr>addr_off = of_nat i, writable_cnt = of_nat (unat v), readonly_cnt = of_nat (unat w),
        writable_off = of_nat (i + 32 + length (cu16 (unat v))),
        readonly_off = of_nat (i + 32 + length (cu16 (unat v)) + unat v + length (cu16 (unat w)))\<rparr>"
    by (simp_all add: enc_lut_def lay_lut_def Let_def)
  then have "?R ?l"
    using le at ok rest len assms by (simp add: lut_ok_def bytes_at_take add.assoc)
  with b show "?B \<and> (\<exists>l. ?R l)"
    by blast
next
  assume *: "?B \<and> (\<exists>l. ?R l)"
  then obtain l where l: "?R l"
    by blast
  then have le: "length (l_writable l) < 65536" "length (l_readonly l) < 65536"
    using assms by (simp_all add: enc_lut_def lut_ok_def)
  with l assms conjunct1 [OF *] show ?L
    by (auto simp: res_run txn_consts ulong_sub_le enc_lut_def lut_ok_def
        lay_lut_def Let_def unat_of_nat_u16 add.assoc)
qed

lemma parse_v0_luts_Ok:
  assumes "i \<le> sz" "sz \<le> length p" "sz \<le> 4096" "c \<le> 64"
  shows "(parse_v0_luts p sz tb c n i aw at acc = Ok (res, aw', at', j)) =
    (\<exists>ls. length ls = n \<and> (n \<noteq> 0 \<longrightarrow> tb + 8 * (length acc + n) \<le> 854) \<and> bytes_at p i (concat (map enc_lut ls)) \<and>
          j = i + length (concat (map enc_lut ls)) \<and> j \<le> sz \<and> (\<forall>l \<in> set ls. lut_ok c l) \<and>
          aw' = aw + adtl_writable ls \<and> at' = at + adtl ls \<and> res = acc @ lay_luts i ls)"
  using assms
proof (induction n arbitrary: i aw at acc)
  case 0
  then show ?case
    by (auto simp: adtl_writable_def adtl_def)
next
  case (Suc n)
  have ex: "(B \<and> (\<exists>l. R l)) = (\<exists>l. B \<and> R l)" for B and R :: "alut \<Rightarrow> bool"
    by blast
  show ?case
    unfolding parse_v0_luts_step [OF Suc.prems] ex_length_Suc ex
    by (intro ex_cong1)
      (auto simp: Suc.IH Suc.prems adtl_writable_def adtl_def add.assoc cong: conj_cong)
qed

lemma u8_high_80: "((b :: u8) AND 0x80 \<noteq> 0 \<and> b AND 0x7F = 0) = (b = 0x80)"
  by (rule u8_exhaust) code_simp

lemma parse_v0_version_Ok:
  assumes "i = k + 1" "i \<le> sz" "sz \<le> length p" "sz \<le> 4096" "unat s < 128"
  shows "(parse_v0_version p sz s (p ! k) i = Ok (ver, j)) =
    ((ver = FD_TXN_V0 \<or> ver = FD_TXN_VLEGACY) \<and> bytes_at p k (enc_version ver @ [s]) \<and>
     j = i + length (enc_version ver) \<and> j \<le> sz)"
proof (cases "p ! k AND 0x80 = 0")
  case True
  then have "p ! k \<noteq> 0x80"
    by auto
  with True assms show ?thesis
    by (auto simp: parse_v0_version_def res_ok enc_version_def txn_consts)
next
  case False
  then have "(p ! k AND 0x7F = 0) = (p ! k = 0x80)" and "p ! k \<noteq> s"
    using u8_high_80 [of "p ! k"] u8_high_bit [of s] assms by auto
  with False assms show ?thesis
    by (auto simp: parse_v0_version_def res_ok enc_version_def txn_consts)
qed

definition head_ok :: "atxn \<Rightarrow> nat \<Rightarrow> bool" where
  "head_ok m ni \<longleftrightarrow>
     (a_version m = FD_TXN_V0 \<or> a_version m = FD_TXN_VLEGACY) \<and>
     1 \<le> length (a_sigs m) \<and> length (a_sigs m) \<le> 12 \<and> (\<forall>s \<in> set (a_sigs m). length s = 64) \<and>
     unat (a_ro_signed m) < length (a_sigs m) \<and>
     length (a_sigs m) + unat (a_ro_unsigned m) \<le> length (a_addrs m) \<and>
     length (a_addrs m) \<le> 64 \<and> (\<forall>s \<in> set (a_addrs m). length s = 32) \<and>
     length (a_blockhash m) = 32 \<and> ni \<le> 64 \<and> (if ni = 0 then 0 else 1) < length (a_addrs m)"

definition lay_hd :: "atxn \<Rightarrow> nat \<Rightarrow> v0_header" where
  "lay_hd m ni =
     (let sigs = 64 * length (a_sigs m);
          ao = 1 + sigs + length (enc_version (a_version m)) + 3 + length (cu16 (length (a_addrs m)))
      in \<lparr>v0_transaction_version = a_version m, v0_signature_cnt = length (a_sigs m),
          v0_signature_off = 1, v0_message_off = 1 + sigs,
          v0_ro_signed_cnt = unat (a_ro_signed m), v0_ro_unsigned_cnt = unat (a_ro_unsigned m),
          v0_acct_addr_cnt = length (a_addrs m), v0_acct_addr_off = ao,
          v0_recent_blockhash_off = ao + 32 * length (a_addrs m), v0_instr_cnt = ni\<rparr>)"

lemma byte_unat [simp]: "byte (unat b) = b"
  by (simp add: byte_def)

lemma unat_byte: "n < 256 \<Longrightarrow> unat (byte n) = n"
  by (simp add: byte_def unat_of_nat_u8)

lemma parse_v0_header_sound:
  assumes sz: "sz \<le> length p" "sz \<le> 4096" and ok: "parse_v0_header p sz 0 = Ok (h, i)"
  shows "\<exists>m ni. head_ok m ni \<and> bytes_at p 0 (enc_hd m ni) \<and> i = length (enc_hd m ni) \<and>
    i + 3 * ni \<le> sz \<and> h = lay_hd m ni"
proof -
  let ?s = "unat (p ! 0)"
  let ?K = "\<lambda>ver. 64 * ?s + length (enc_version ver)"
  let ?A = "\<lambda>ver v. Suc (Suc (Suc (Suc (?K ver + length (cu16 (unat (v :: u16)))))))"
  let ?B = "\<lambda>ver v. Suc (Suc (Suc (Suc (?K ver + length (cu16 (unat (v :: u16))) + 32 * unat v))))"
  let ?I = "\<lambda>ver v. ?B ver v + 32"
  from ok sz obtain ver and v w :: u16 where
    h: "\<lparr>v0_transaction_version = ver, v0_signature_cnt = ?s, v0_signature_off = 1,
          v0_message_off = 1 + 64 * ?s, v0_ro_signed_cnt = unat (p ! Suc (Suc (?K ver))),
          v0_ro_unsigned_cnt = unat (p ! Suc (Suc (Suc (?K ver)))), v0_acct_addr_cnt = unat v, v0_acct_addr_off = ?A ver v,
          v0_recent_blockhash_off = ?B ver v, v0_instr_cnt = unat w\<rparr> = h"
    and i: "?I ver v + length (cu16 (unat w)) = i"
    and le: "?I ver v + length (cu16 (unat w)) + 3 * unat w \<le> sz"
    and ver: "ver = FD_TXN_V0 \<or> ver = FD_TXN_VLEGACY" "bytes_at p (1 + 64 * ?s) (enc_version ver)" "p ! Suc (?K ver) = p ! 0"
    and at: "bytes_at p (Suc (Suc (Suc (Suc (?K ver))))) (cu16 (unat v))" "bytes_at p (?I ver v) (cu16 (unat w))"
    and ok: "1 \<le> ?s" "?s \<le> 12" "unat (p ! Suc (Suc (?K ver))) < ?s" "?s + unat (p ! Suc (Suc (Suc (?K ver)))) \<le> unat v" "unat v \<le> 64"
      "unat w \<le> 64" "(if w \<noteq> 0 then 1 else 0) < unat v"
    by (simp add: parse_v0_header_def res_ok txn_consts parse_v0_version_Ok of_bool_def
        cong: conj_cong) (elim exE conjE, rule that, simp_all add: txn_consts)
  obtain sigs where s: "length sigs = ?s" "bytes_at p 1 (concat sigs)" "length (concat sigs) = 64 * ?s"
      "\<forall>c \<in> set sigs. length c = 64"
    using chunks_ex [of 1 64 ?s p] le sz by auto
  obtain addrs where a: "length addrs = unat v" "bytes_at p (?A ver v) (concat addrs)"
      "length (concat addrs) = 32 * unat v" "\<forall>c \<in> set addrs. length c = 32"
    using chunks_ex [of "?A ver v" 32 "unat v" p] le sz by auto
  let ?m = "\<lparr>a_version = ver, a_sigs = sigs, a_ro_signed = p ! Suc (Suc (?K ver)),
    a_ro_unsigned = p ! Suc (Suc (Suc (?K ver))),
    a_addrs = addrs, a_blockhash = take 32 (drop (?B ver v) p), a_instrs = [], a_luts = [],
    a_config_mask = 0, a_config = []\<rparr>"
  have "head_ok ?m (unat w)"
    using ver ok le sz s a by (simp add: head_ok_def split: if_splits)
  moreover have "bytes_at p 0 (enc_hd ?m (unat w))"
    using ver at s a le sz by (auto simp: enc_hd_def bytes_at_take)
  moreover have "i = length (enc_hd ?m (unat w))"
    using s a le sz i by (simp add: enc_hd_def)
  moreover have "h = lay_hd ?m (unat w)"
    using h s a by (auto simp: lay_hd_def Let_def)
  moreover have "i + 3 * unat w \<le> sz"
    using le i by simp
  ultimately show ?thesis
    by blast
qed

lemma parse_v0_header_complete:
  assumes sz: "sz \<le> length p" "sz \<le> 4096" and ok: "head_ok m ni" and at: "bytes_at p 0 (enc_hd m ni)"
    and le: "length (enc_hd m ni) + 3 * ni \<le> sz"
  shows "parse_v0_header p sz 0 = Ok (lay_hd m ni, length (enc_hd m ni))"
proof -
  let ?s = "length (a_sigs m)"
  let ?k = "1 + 64 * ?s"
  have len: "length (concat (a_sigs m)) = 64 * ?s" "length (concat (a_addrs m)) = 32 * length (a_addrs m)"
    using ok by (auto simp: head_ok_def intro: length_concat_const)
  have "unat (of_nat ni :: u16) = ni"
    using ok by (simp add: unat_of_nat_u16 head_ok_def)
  then have w0: "((of_nat ni :: u16) = 0) = (ni = 0)"
    by (metis unat_zero_iff)
  have "parse_v0_version p sz (byte ?s) (p ! ?k) (?k + 1) = Ok (a_version m, ?k + 1 + length (enc_version (a_version m)))"
    using sz ok at le len by (subst parse_v0_version_Ok) (auto simp: head_ok_def enc_hd_def unat_byte)
  then show ?thesis
    using sz ok at le len
    by (auto simp: parse_v0_header_def res_run enc_hd_def head_ok_def unat_byte txn_consts lay_hd_def
        Let_def unat_of_nat_u16 w0 of_bool_def add_ac simp del: One_nat_def add_2_eq_Suc add_2_eq_Suc')
qed

definition hdr_of :: "ainstr \<Rightarrow> fd_txn_instr" where
  "hdr_of a = \<lparr>program_id = a_prog a, acct_cnt = of_nat (length (a_accts a)),
     data_sz = of_nat (length (a_data a)), acct_off = 0, data_off = 0\<rparr>"

definition enc_v1_hdr :: "fd_txn_instr \<Rightarrow> bytes" where
  "enc_v1_hdr h = [program_id h, of_nat (unat (acct_cnt h))] @ le_bytes 2 (unat (data_sz h))"

definition v1_hdr_ok :: "nat \<Rightarrow> fd_txn_instr \<Rightarrow> bool" where
  "v1_hdr_ok c h = (0 < unat (program_id h) \<and> unat (program_id h) < c \<and> unat (acct_cnt h) < 256 \<and>
     acct_off h = 0 \<and> data_off h = 0)"

lemma length_le_bytes [simp]: "length (le_bytes k n) = k"
  by (simp add: le_bytes_def)

lemma le_bytes_Suc: "le_bytes (Suc k) n = byte (n mod 256) # le_bytes k (n div 256)"
  by (auto simp: le_bytes_def upt_conv_Cons simp del: upt_Suc simp flip: map_Suc_upt
      simp: div_mult2_eq)

lemma le_nat_le_bytes: "le_nat (le_bytes k n) = n mod 256 ^ k"
proof (induction k arbitrary: n)
  case (Suc k)
  have "unat (byte (n mod 256)) = n mod 256"
    by (simp add: unat_byte)
  then show ?case
    using Suc.IH [of "n div 256"] mod_mult2_eq [of n 256 "256 ^ k"] by (simp add: le_bytes_Suc)
qed (simp add: le_bytes_def)

lemma le_bytes_le_nat [simp]: "length bs = k \<Longrightarrow> le_bytes k (le_nat bs) = bs"
proof (induction bs arbitrary: k)
  case (Cons b bs)
  then obtain k' where k: "k = Suc k'" and IH: "le_bytes k' (le_nat bs) = bs"
    by auto
  have "(unat b + 256 * le_nat bs) mod 256 = unat b" "(unat b + 256 * le_nat bs) div 256 = le_nat bs"
    by simp_all
  then show ?case
    using IH by (simp add: k le_bytes_Suc)
qed (simp add: le_bytes_def)

lemma bytes_at_le_bytes:
  assumes "bytes_at p i (le_bytes k n)" "n < 256 ^ k" "0 < k"
  shows "i + k \<le> length p" "le_nat (take k (drop i p)) = n"
proof -
  have "le_bytes k n \<noteq> []"
    using assms(3) by (metis length_le_bytes less_numeral_extra(3) list.size(3))
  then show "i + k \<le> length p" "le_nat (take k (drop i p)) = n"
    using bytes_at_length [OF assms(1)] bytes_at_eq [OF assms(1)] assms(2)
    by (auto simp: le_nat_le_bytes)
qed

lemma LOAD_run [res_run]:
  "bytes_at p i (le_bytes n v) \<Longrightarrow> v < 256 ^ n \<Longrightarrow> 0 < n \<Longrightarrow> LOAD n p i k = k v"
  using bytes_at_le_bytes [of p i n v] by simp

lemma le_nat_take_less: "le_nat (take k xs) < 256 ^ k"
proof -
  have "le_nat (take k xs) < 256 ^ length (take k xs)"
    by (rule le_nat_less)
  also have "\<dots> \<le> 256 ^ k"
    by (intro power_increasing) simp_all
  finally show ?thesis .
qed

lemma parse_v1_instr_headers_step:
  assumes "i \<le> sz" "sz \<le> length p" "sz \<le> 4096" "length acc < 64"
  shows "(parse_v1_instr_headers p sz c (Suc n) i acc = Ok r) =
    (\<exists>h. bytes_at p i (enc_v1_hdr h) \<and> i + 4 \<le> sz \<and> v1_hdr_ok c h \<and>
         parse_v1_instr_headers p sz c n (i + 4) (acc @ [h]) = Ok r)"
  (is "?L = (\<exists>h. ?R h)")
proof -
  have i4: "i + 4 = Suc (Suc (Suc (Suc i)))" "i + 3 = Suc (Suc (Suc i))"
    by simp_all
  show ?thesis
proof
  assume ?L
  let ?h = "\<lparr>program_id = p ! i, acct_cnt = of_nat (unat (p ! Suc i)),
     data_sz = of_nat (le_nat (take 2 (drop (Suc (Suc i)) p))), acct_off = 0, data_off = 0\<rparr>"
  have u: "unat (of_nat (unat (b :: u8)) :: u16) = unat b" for b
    by (rule unat_of_nat_u16) (rule order_less_trans [OF u8_less_256], simp)
  have w: "of_nat (unat (b :: u8)) = b" for b
    by simp
  have d: "unat (of_nat (le_nat (take 2 (drop (Suc (Suc i)) p))) :: u16) = le_nat (take 2 (drop (Suc (Suc i)) p))"
    using le_nat_take_less [of 2] by (simp add: unat_of_nat_u16)
  from \<open>?L\<close> assms have "?R ?h"
    by (auto simp: res_ok v1_hdr_ok_def enc_v1_hdr_def u w d i4 bytes_at_take simp del: unsigned_of_nat of_nat_unat)
  then show "\<exists>h. ?R h" ..
next
  assume "\<exists>h. ?R h"
  then obtain h where h: "?R h" ..
  let ?c = "of_nat (unat (acct_cnt h)) :: u8"
  have "unat (acct_cnt h) < 256"
    using h by (simp add: v1_hdr_ok_def)
  then have "unat ?c = unat (acct_cnt h)"
    by (rule unat_of_nat_u8)
  moreover obtain g k d where hd: "h = \<lparr>program_id = g, acct_cnt = k, data_sz = d, acct_off = 0, data_off = 0\<rparr>"
    using h by (cases h) (simp add: v1_hdr_ok_def)
  ultimately have c: "unat (of_nat (unat k) :: u8) = unat k"
    by simp
  have c': "of_nat (unat (of_nat (unat k) :: u8)) = k"
    unfolding c by simp
  have d: "unat d < 256 ^ 2"
    using u16_less [of d] by simp
  then have "le_nat (take 2 (drop (Suc (Suc i)) p)) = unat d"
    using bytes_at_le_bytes [of p "Suc (Suc i)" 2 "unat d"] h by (simp add: hd enc_v1_hdr_def)
  moreover have "of_nat (unat d) = d"
    by simp
  ultimately show ?L
    using h assms c c'
    by (auto simp: res_run enc_v1_hdr_def v1_hdr_ok_def i4 hd simp del: of_nat_unat)
qed
qed

lemma parse_v1_instr_headers_Ok:
  assumes "i \<le> sz" "sz \<le> length p" "sz \<le> 4096" "length acc + n \<le> 64"
  shows "(parse_v1_instr_headers p sz c n i acc = Ok (res, j)) =
    (\<exists>hs. length hs = n \<and> bytes_at p i (concat (map enc_v1_hdr hs)) \<and> j = i + 4 * n \<and> j \<le> sz \<and>
          (\<forall>h \<in> set hs. v1_hdr_ok c h) \<and> res = acc @ hs)"
  using assms
proof (induction n arbitrary: i acc)
  case 0
  then show ?case
    by auto
next
  case (Suc n)
  have "length (enc_v1_hdr h) = 4" for h
    by (simp add: enc_v1_hdr_def)
  moreover have acc: "length acc < 64" "length (acc @ [x]) + n \<le> 64" for x
    using Suc.prems(4) by simp_all
  moreover note IH = Suc.IH [OF _ Suc.prems(2,3) acc(2)]
  ultimately show ?case
    unfolding parse_v1_instr_headers_step [OF Suc.prems(1-3) acc(1)] ex_length_Suc
    by (intro ex_cong1) (auto simp: IH cong: conj_cong)
qed

lemma check_v1_accts_Ok:
  "i + n \<le> length p \<Longrightarrow> (check_v1_accts p c n i = Ok j) =
     (j = i + n \<and> (\<forall>b \<in> set (take n (drop i p)). unat b < c))"
proof (induction n arbitrary: i)
  case (Suc n)
  have "take (Suc n) (drop i p) = p ! i # take n (drop (Suc i) p)"
    using Suc.prems by (simp add: Cons_nth_drop_Suc [symmetric])
  then show ?case
    using Suc by (auto simp: res_ok)
qed auto

definition payload_ok :: "nat \<Rightarrow> ainstr \<Rightarrow> bool" where
  "payload_ok c a = (length (a_accts a) < 65536 \<and> length (a_data a) < 65536 \<and> (\<forall>b \<in> set (a_accts a). unat b < c))"

lemma parse_v1_instr_payloads_step:
  assumes "i \<le> sz" "sz \<le> length p" "sz \<le> 4096" "acct_off h = 0" "data_off h = 0" "length acc < 64"
  shows "(parse_v1_instr_payloads p sz c (h # hs) i acc = Ok r) =
    (\<exists>a. hdr_of a = h \<and> bytes_at p i (enc_instr_payload a) \<and> i + length (enc_instr_payload a) \<le> sz \<and>
         payload_ok c a \<and>
         parse_v1_instr_payloads p sz c hs (i + length (enc_instr_payload a))
           (acc @ [h\<lparr>acct_off := of_nat i, data_off := of_nat (i + length (a_accts a))\<rparr>]) = Ok r)"
  (is "?L = (\<exists>h. ?R h)")
proof
  assume ?L
  with assms have le: "i + unat (acct_cnt h) + unat (data_sz h) \<le> sz"
    and ok: "\<forall>b \<in> set (take (unat (acct_cnt h)) (drop i p)). unat b < c"
    and rest: "parse_v1_instr_payloads p sz c hs (i + unat (acct_cnt h) + unat (data_sz h))
      (acc @ [h\<lparr>acct_off := of_nat i, data_off := of_nat (i + unat (acct_cnt h))\<rparr>]) = Ok r"
    by (auto simp: res_ok check_v1_accts_Ok)
  obtain accts data where len: "length accts = unat (acct_cnt h)" "length data = unat (data_sz h)"
    and at: "bytes_at p i accts" "bytes_at p (i + length accts) data" and ok': "\<forall>b \<in> set accts. unat b < c"
    using that [of "take (unat (acct_cnt h)) (drop i p)" "take (unat (data_sz h)) (drop (i + unat (acct_cnt h)) p)"]
      le ok assms by (simp add: bytes_at_take)
  let ?a = "\<lparr>a_prog = program_id h, a_accts = accts, a_data = data\<rparr>"
  have "hdr_of ?a = h"
    using len assms by (cases h) (simp add: hdr_of_def)
  then have "?R ?a"
    using le at ok' rest len by (simp add: enc_instr_payload_def payload_ok_def add.assoc)
  then show "\<exists>h. ?R h" ..
next
  assume "\<exists>a. ?R a"
  then obtain a where a: "?R a" ..
  then have cnt: "unat (acct_cnt h) = length (a_accts a)" "unat (data_sz h) = length (a_data a)"
    by (auto simp: hdr_of_def payload_ok_def unat_of_nat_u16)
  have "check_v1_accts p c (length (a_accts a)) i = Ok (i + length (a_accts a))"
    using a assms by (subst check_v1_accts_Ok) (auto simp: enc_instr_payload_def payload_ok_def bytes_at_eq)
  with a assms show ?L
    by (simp add: res_run cnt enc_instr_payload_def add.assoc)
qed

lemma hdr_of_upd:
  "(hdr_of a)\<lparr>acct_off := x, data_off := y\<rparr> =
     \<lparr>program_id = a_prog a, acct_cnt = of_nat (length (a_accts a)),
      data_sz = of_nat (length (a_data a)), acct_off = x, data_off = y\<rparr>"
  by (simp add: hdr_of_def)

lemma parse_v1_instr_payloads_Ok:
  assumes "i \<le> sz" "sz \<le> length p" "sz \<le> 4096" "\<forall>h \<in> set hs. acct_off h = 0 \<and> data_off h = 0"
    "length acc + length hs \<le> 64"
  shows "(parse_v1_instr_payloads p sz c hs i acc = Ok (res, j)) =
    (\<exists>as. map hdr_of as = hs \<and> bytes_at p i (concat (map enc_instr_payload as)) \<and>
          j = i + length (concat (map enc_instr_payload as)) \<and> j \<le> sz \<and>
          (\<forall>a \<in> set as. payload_ok c a) \<and> res = acc @ lay_v1_instrs i as)"
  using assms
proof (induction hs arbitrary: i acc)
  case Nil
  then show ?case
    by auto
next
  case (Cons h hs)
  have 1: "(\<exists>as. map hdr_of as = h # hs \<and> P as) = (\<exists>a as. hdr_of a = h \<and> map hdr_of as = hs \<and> P (a # as))" for P
    by (auto simp: map_eq_Cons_conv)
  have off: "acct_off h = 0" "data_off h = 0" "\<forall>h \<in> set hs. acct_off h = 0 \<and> data_off h = 0"
    using Cons.prems by simp_all
  have acc: "length acc < 64" "length (acc @ [x]) + length hs \<le> 64" for x
    using Cons.prems(5) by simp_all
  note IH = Cons.IH [OF _ Cons.prems(2,3) off(3) acc(2)]
  show ?case
    unfolding 1 parse_v1_instr_payloads_step [OF Cons.prems(1-3) off(1,2) acc(1)]
    by (intro ex_cong1) (auto simp: IH hdr_of_upd add.assoc cong: conj_cong)
qed

definition v1_head_ok :: "atxn \<Rightarrow> nat \<Rightarrow> bool" where
  "v1_head_ok m ni \<longleftrightarrow>
     a_version m = FD_TXN_V1 \<and> a_luts m = [] \<and>
     1 \<le> length (a_sigs m) \<and> length (a_sigs m) \<le> 12 \<and>
     unat (a_ro_signed m) < length (a_sigs m) \<and>
     length (a_sigs m) + unat (a_ro_unsigned m) \<le> length (a_addrs m) \<and>
     length (a_addrs m) \<le> 64 \<and> (\<forall>s \<in> set (a_addrs m). length s = 32) \<and>
     length (a_blockhash m) = 32 \<and> ni \<le> 64 \<and> atxn_config_wf m"

definition lay_v1_hd :: "atxn \<Rightarrow> nat \<Rightarrow> v1_header" where
  "lay_v1_hd m ni =
     \<lparr>v1_signature_cnt = length (a_sigs m), v1_ro_signed_cnt = unat (a_ro_signed m),
      v1_ro_unsigned_cnt = unat (a_ro_unsigned m), v1_recent_blockhash_off = 8,
      v1_instr_cnt = ni, v1_acct_addr_cnt = length (a_addrs m), v1_acct_addr_off = 42,
      v1_config_values_off = 42 + 32 * length (a_addrs m)\<rparr>"

lemma u8_high_81: "((b :: u8) AND 0x80 \<noteq> 0 \<and> b AND 0x7F = 1) = (b = 0x81)"
  by (rule u8_exhaust) code_simp

lemma and_1_bit: "((x :: u32) AND 1 = y AND 1) = (bit x 0 = bit y 0)"
  by (simp add: and_one_eq mod_2_eq_odd bit_0)

lemma drop_bit_and_1: "(drop_bit n (x :: u32) AND 1 = 0) = (\<not> bit x n)"
  by (simp add: and_one_eq mod_2_eq_odd bit_iff_odd_drop_bit)

lemma popcnt_pos: "bit x n \<Longrightarrow> n < 32 \<Longrightarrow> 1 \<le> fd_uint_popcnt x"
  by (auto simp: fd_uint_popcnt_def Suc_le_eq filter_empty_conv)

lemma last_chunk:
  assumes "bytes_at p i (concat cs)" "\<forall>c \<in> set cs. length c = k" "cs \<noteq> []"
  shows "take k (drop (i + k * (length cs - 1)) p) = last cs"
proof -
  obtain cs' c where cs: "cs = cs' @ [c]"
    using assms(3) by (metis append_butlast_last_id)
  have "length (concat cs') = k * length cs'"
    using assms(2) by (intro length_concat_const) (simp add: cs)
  then show ?thesis
    using assms(1,2) bytes_at_eq [of p "i + k * length cs'" c] by (simp add: cs)
qed

lemma parse_v1_header_sound:
  assumes sz: "sz \<le> length p" "sz \<le> 4096" and msb: "p ! 0 AND 0x80 \<noteq> 0"
    and ok: "parse_v1_header p sz 0 = Ok (h, i)"
  shows "\<exists>m ni. v1_head_ok m ni \<and> bytes_at p 0 (enc_v1_hd m ni) \<and> i = length (enc_v1_hd m ni) \<and>
    i \<le> sz \<and> h = lay_v1_hd m ni"
proof -
  let ?mask = "of_nat (le_nat (take 4 (drop (Suc (Suc (Suc (Suc 0)))) p))) :: u32"
  let ?n = "fd_uint_popcnt ?mask"
  let ?c = "42 + 32 * unat (p ! 41)"
  let ?heap = "le_nat (take 4 (drop (?c + 4 * (?n - 1)) p))"
  have n: "bit ?mask 4 \<Longrightarrow> 1 \<le> ?n" and u: "bit ?mask 4 \<Longrightarrow> ulong_sub ?n 1 = ?n - 1"
    using popcnt_pos [of ?mask 4] popcnt_config [of ?mask] by (simp_all add: ulong_sub_le)
  from ok sz have f: "p ! 0 AND 127 = 1 \<and> 1 \<le> unat (p ! 1) \<and> unat (p ! 1) \<le> 12 \<and>
      unat (p ! Suc (Suc 0)) < unat (p ! 1) \<and> ?mask AND NOT 0x1F = 0 \<and>
      (bit ?mask 0 = bit ?mask 1) \<and> unat (p ! 40) \<le> 64 \<and> unat (p ! 41) \<le> 64 \<and>
      unat (p ! 1) + unat (p ! Suc (Suc (Suc 0))) \<le> unat (p ! 41) \<and> ?c + 4 * ?n \<le> sz \<and>
      (bit ?mask 4 \<longrightarrow> 32768 \<le> ?heap \<and> ?heap \<le> 262144 \<and> ?heap mod 1024 = 0) \<and>
      h = \<lparr>v1_signature_cnt = unat (p ! 1), v1_ro_signed_cnt = unat (p ! Suc (Suc 0)),
          v1_ro_unsigned_cnt = unat (p ! Suc (Suc (Suc 0))),
          v1_recent_blockhash_off = 8, v1_instr_cnt = unat (p ! 40),
          v1_acct_addr_cnt = unat (p ! 41), v1_acct_addr_off = 42,
          v1_config_values_off = ?c\<rparr> \<and> i = ?c + 4 * ?n"
    using u
    by (simp add: parse_v1_header_def res_ok txn_consts drop_bit_and_1 and_1_bit bit_drop_bit_eq
        cong: conj_cong) auto
  have l: "42 \<le> length p" "42 + 32 * unat (p ! 41) \<le> length p" "?c + 4 * ?n \<le> length p"
    using f sz by linarith+
  have b0: "p ! 0 = 0x81"
    using f msb u8_high_81 [of "p ! 0"] by simp
  let ?mask4 = "take 4 (drop (Suc (Suc (Suc (Suc 0)))) p)"
  have m: "le_bytes 4 (unat ?mask) = ?mask4"
  proof -
    have "unat ?mask = le_nat ?mask4"
      using le_nat_take_less [of 4] by (simp add: unat_of_nat)
    moreover have "length ?mask4 = 4"
      using l by simp
    ultimately show ?thesis
      by simp
  qed
  obtain addrs where a: "length addrs = unat (p ! 41)" "bytes_at p 42 (concat addrs)"
      "length (concat addrs) = 32 * unat (p ! 41)" "\<forall>c \<in> set addrs. length c = 32"
    using chunks_ex [OF l(2)] by auto
  obtain cfg where c: "length cfg = ?n" "bytes_at p ?c (concat cfg)"
      "length (concat cfg) = 4 * ?n" "\<forall>c \<in> set cfg. length c = 4"
    using chunks_ex [OF l(3)] by auto
  let ?m = "\<lparr>a_version = FD_TXN_V1, a_sigs = replicate (unat (p ! 1)) [], a_ro_signed = p ! Suc (Suc 0),
    a_ro_unsigned = p ! Suc (Suc (Suc 0)), a_addrs = addrs, a_blockhash = take 32 (drop 8 p),
    a_instrs = [], a_luts = [], a_config_mask = ?mask, a_config = cfg\<rparr>"
  have heap: "bit ?mask 4 \<Longrightarrow> le_nat (last cfg) = ?heap"
  proof -
    assume "bit ?mask 4"
    then have "cfg \<noteq> []"
      using n c(1) by (cases cfg) simp_all
    then show "le_nat (last cfg) = ?heap"
      using last_chunk [OF c(2,4)] c(1) by simp
  qed
  have "atxn_config_wf ?m"
    using f c(1,4) heap by (simp add: atxn_config_wf_def Let_def)
  then have "v1_head_ok ?m (unat (p ! 40))"
    using f l a by (simp add: v1_head_ok_def)
  moreover have "bytes_at p 0 (enc_v1_hd ?m (unat (p ! 40)))"
    using l a(1-3) c(1-3) m b0 by (auto simp: enc_v1_hd_def bytes_at_take)
  moreover have "i = length (enc_v1_hd ?m (unat (p ! 40)))"
    using f l a(1-3) c(1-3) by (simp add: enc_v1_hd_def)
  moreover have "h = lay_v1_hd ?m (unat (p ! 40))" "i \<le> sz"
    using f a by (simp_all add: lay_v1_hd_def)
  ultimately show ?thesis
    by blast
qed

lemma parse_v1_header_complete:
  assumes sz: "sz \<le> length p" "sz \<le> 4096" and ok: "v1_head_ok m ni" and at: "bytes_at p 0 (enc_v1_hd m ni)"
    and le: "length (enc_v1_hd m ni) \<le> sz"
  shows "parse_v1_header p sz 0 = Ok (lay_v1_hd m ni, length (enc_v1_hd m ni))"
proof -
  let ?mask = "a_config_mask m"
  let ?n = "fd_uint_popcnt ?mask"
  let ?c = "42 + 32 * length (a_addrs m)"
  let ?heap = "le_nat (last (a_config m))"
  have len: "length (concat (a_addrs m)) = 32 * length (a_addrs m)" "length (concat (a_config m)) = 4 * ?n"
    using ok length_concat_const [of "a_config m" 4] length_concat_const [of "a_addrs m" 32]
    by (simp_all add: v1_head_ok_def atxn_config_wf_def)
  have cfg: "length (a_config m) = ?n" "\<forall>c \<in> set (a_config m). length c = 4"
      "?mask AND NOT 0x1F = 0" "bit ?mask 0 = bit ?mask 1"
    and heap_ok: "bit ?mask 4 \<Longrightarrow> 32768 \<le> ?heap \<and> ?heap \<le> 262144 \<and> ?heap mod 1024 = 0"
    and cat: "bytes_at p ?c (concat (a_config m))"
    using ok at len by (simp_all add: v1_head_ok_def atxn_config_wf_def enc_v1_hd_def Let_def)
  have heap: "ulong_sub ?n 1 = ?n - 1" "take 4 (drop (?c + 4 * (?n - 1)) p) = last (a_config m)"
    "46 + (32 * length (a_addrs m) + 4 * (?n - 1)) \<le> sz"
    if "bit ?mask 4"
  proof -
    have n: "1 \<le> ?n" "?n \<le> 32"
      using popcnt_pos [of ?mask 4] that popcnt_config [of ?mask] by simp_all
    then have "a_config m \<noteq> []"
      using cfg(1) by auto
    with n show "ulong_sub ?n 1 = ?n - 1" "take 4 (drop (?c + 4 * (?n - 1)) p) = last (a_config m)"
      "46 + (32 * length (a_addrs m) + 4 * (?n - 1)) \<le> sz"
      using last_chunk [OF cat cfg(2)] cfg(1) le len ok by (simp_all add: ulong_sub_le enc_v1_hd_def v1_head_ok_def)
  qed
  have "unat ?mask < 256 ^ 4"
    using unsigned_less [of ?mask] by simp
  then have "le_nat (take 4 (drop (Suc (Suc (Suc (Suc 0)))) p)) = unat ?mask"
    using bytes_at_le_bytes [of p "Suc (Suc (Suc (Suc 0)))" 4 "unat ?mask"] at by (simp add: enc_v1_hd_def)
  then have mask: "of_nat (le_nat (take 4 (drop (Suc (Suc (Suc (Suc 0)))) p))) = ?mask"
    by simp
  have ld: "LOAD 4 p (?c + 4 * (?n - Suc 0)) k = k ?heap" if "bit ?mask 4" for k :: "nat \<Rightarrow> (v1_header \<times> nat) res"
    using heap(2,3) [OF that] sz by (simp add: LOAD_def)
  have bits: "?mask AND - 32 = 0" "?mask AND 1 = drop_bit 1 ?mask AND 1" "(drop_bit 4 ?mask AND 1 = 0) = (\<not> bit ?mask 4)"
    using cfg(3,4) by (simp_all add: and_1_bit drop_bit_and_1 bit_drop_bit_eq)
  show ?thesis
    using ok at le sz len
    by (simp add: parse_v1_header_def lay_v1_hd_def v1_head_ok_def enc_v1_hd_def txn_consts CHECK_LEFT_run
        unat_byte Let_def mask bits bits [simplified] heap(1) [simplified] ld heap_ok [simplified])
qed

lemma length_enc_instr: "3 \<le> length (enc_instr a)"
  using cu16_length(1) [of "length (a_accts a)"] cu16_length(1) [of "length (a_data a)"]
  by (simp add: enc_instr_def)

lemma length_enc_lut: "length (l_addr l) = 32 \<Longrightarrow> 34 \<le> length (enc_lut l)"
  using cu16_length(1) [of "length (l_writable l)"] cu16_length(1) [of "length (l_readonly l)"]
  by (simp add: enc_lut_def)

lemma length_concat_ge: "(\<And>x. x \<in> set xs \<Longrightarrow> k \<le> length (f x)) \<Longrightarrow> k * length xs \<le> length (concat (map f xs))"
  by (induction xs) (auto simp: add_le_mono)

lemma parse_v0_tables_Ok:
  assumes "i \<le> sz" "sz \<le> length p" "sz \<le> 4096" "c \<le> 64"
  shows "(parse_v0_tables p sz ver tb c i = Ok (k, luts, w, n, j)) =
    (\<exists>ls. (ver \<noteq> FD_TXN_V0 \<longrightarrow> ls = []) \<and> (ls \<noteq> [] \<longrightarrow> tb + 8 * length ls \<le> 854) \<and> length ls \<le> 127 \<and> bytes_at p i (enc_luts ver ls) \<and>
       j = i + length (enc_luts ver ls) \<and> j \<le> sz \<and> (\<forall>l \<in> set ls. lut_ok c l) \<and> k = length ls \<and>
       w = adtl_writable ls \<and> n = adtl ls \<and> luts = lay_luts (i + length (cu16 (length ls))) ls)"
  (is "?L = ?R")
proof (cases "ver = FD_TXN_V0")
  case False
  with assms show ?thesis
    by (auto simp: parse_v0_tables_def enc_luts_def adtl_def adtl_writable_def)
next
  case True
  show ?thesis
  proof
    assume ?L
    with True assms obtain v :: u16 where v: "unat v \<le> 127" "bytes_at p i (cu16 (unat v))" "k = unat v"
        "i + length (cu16 (unat v)) \<le> sz"
      and run: "parse_v0_luts p sz tb c (unat v) (i + length (cu16 (unat v))) 0 0 [] = Ok (luts, w, n, j)"
      by (auto simp: parse_v0_tables_def res_ok txn_consts cong: conj_cong)
    from run [unfolded parse_v0_luts_Ok [OF v(4) assms(2-4)]] obtain ls where n: "length ls = unat v"
      and b: "unat v \<noteq> 0 \<longrightarrow> tb + 8 * (length ([] :: fd_txn_acct_addr_lut list) + unat v) \<le> 854"
      and at: "bytes_at p (i + length (cu16 (unat v))) (concat (map enc_lut ls))"
      and j: "j = i + length (cu16 (unat v)) + length (concat (map enc_lut ls))" "j \<le> sz"
      and res: "\<forall>l \<in> set ls. lut_ok c l" "w = 0 + adtl_writable ls" "n = 0 + adtl ls"
        "luts = [] @ lay_luts (i + length (cu16 (unat v))) ls"
      by blast
    have "ls \<noteq> [] \<longrightarrow> tb + 8 * length ls \<le> 854"
      using b n by auto
    moreover
    have "bytes_at p i (enc_luts ver ls)" "j = i + length (enc_luts ver ls)"
      using True at j n v(2) by (simp_all add: enc_luts_def)
    ultimately show ?R
      using True n j(2) res v(1,3) by (intro exI [of _ ls]) simp
  next
    assume ?R
    then obtain ls where ls: "length ls \<le> 127" "bytes_at p i (enc_luts ver ls)" "j = i + length (enc_luts ver ls)"
      "j \<le> sz" "\<forall>l \<in> set ls. lut_ok c l" "ls \<noteq> [] \<longrightarrow> tb + 8 * length ls \<le> 854" and res: "k = length ls"
      "w = adtl_writable ls" "n = adtl ls" "luts = lay_luts (i + length (cu16 (length ls))) ls"
      by blast
    have "34 * length ls \<le> length (concat (map enc_lut ls))"
      using ls(5) length_enc_lut by (intro length_concat_ge) (simp add: lut_ok_def)
    moreover have "parse_v0_luts p sz tb c (length ls) (i + length (cu16 (length ls))) 0 0 [] = Ok (luts, w, n, j)"
      using ls res True assms by (subst parse_v0_luts_Ok) (auto simp: enc_luts_def)
    ultimately show ?L
      using ls res True assms
      by (auto simp: parse_v0_tables_def res_run enc_luts_def txn_consts unat_of_nat_u16)
  qed
qed

lemma unat_max: "unat (max a b) = max (unat a) (unat (b :: u8))"
  by (simp add: max_def word_le_nat_alt)

lemma unat_fold_max: "(unat (fold max xs (m :: u8)) < k) = (unat m < k \<and> (\<forall>b \<in> set xs. unat b < k))"
  by (induction xs arbitrary: m) (auto simp: unat_max)

end
