(* ===== verification/Txn_Exact.thy ===== *)
theory Txn_Exact
  imports Txn_Parse
begin

text \<open>
  The stages of the parser put together: \<open>parse_v0\<close> and \<open>parse_v1\<close> return a descriptor exactly when
  the buffer starts with the encoding of a well-formed transaction, and then the descriptor is the
  layout of that encoding.
\<close>

subsection \<open>Sizes of encodings\<close>

lemma length_enc_instr_header [simp]: "length (enc_instr_header a) = 4"
  by (simp add: enc_instr_header_def)

lemma length_headers: "length (concat (map enc_instr_header as)) = 4 * length as"
  by (induction as) simp_all

lemma length_encode_v0:
  assumes "atxn_wf m" "a_version m \<noteq> FD_TXN_V1"
  shows "length (encode m) = 36 + 64 * length (a_sigs m) + length (enc_version (a_version m)) +
    length (cu16 (length (a_addrs m))) + 32 * length (a_addrs m) + length (cu16 (length (a_instrs m))) +
    length (concat (map enc_instr (a_instrs m))) + length (enc_luts (a_version m) (a_luts m))"
proof -
  have "length (concat (a_sigs m)) = 64 * length (a_sigs m)" "length (concat (a_addrs m)) = 32 * length (a_addrs m)"
    using assms by (auto simp: atxn_wf_def atxn_common_def intro: length_concat_const)
  with assms show ?thesis
    by (simp add: encode_def enc_hd_def atxn_wf_def atxn_common_def)
qed

lemma length_encode_v1:
  assumes "atxn_wf m" "a_version m = FD_TXN_V1"
  shows "length (encode m) = 42 + 32 * length (a_addrs m) + 4 * length (a_config m) + 4 * length (a_instrs m) +
    length (enc_v1_payloads m) + 64 * length (a_sigs m)"
    and "length (enc_v1_hd m (length (a_instrs m)) @ enc_v1_headers m) =
      42 + 32 * length (a_addrs m) + 4 * length (a_config m) + 4 * length (a_instrs m)"
proof -
  have "length (concat (a_sigs m)) = 64 * length (a_sigs m)" "length (concat (a_addrs m)) = 32 * length (a_addrs m)"
    "length (concat (a_config m)) = 4 * length (a_config m)"
    using assms length_concat_const [of "a_config m" 4] length_concat_const [of "a_sigs m" 64]
      length_concat_const [of "a_addrs m" 32]
    by (simp_all add: atxn_wf_def atxn_common_def atxn_config_wf_def)
  with assms show "length (encode m) = 42 + 32 * length (a_addrs m) + 4 * length (a_config m) + 4 * length (a_instrs m) +
      length (enc_v1_payloads m) + 64 * length (a_sigs m)"
    and "length (enc_v1_hd m (length (a_instrs m)) @ enc_v1_headers m) =
      42 + 32 * length (a_addrs m) + 4 * length (a_config m) + 4 * length (a_instrs m)"
    by (simp_all add: encode_def enc_v1_hd_def enc_v1_headers_def length_headers atxn_wf_def atxn_common_def)
qed

lemma length_enc_lut_wf:
  "atxn_luts_wf m \<Longrightarrow> 35 * length (a_luts m) \<le> length (concat (map enc_lut (a_luts m)))"
proof (rule length_concat_ge)
  fix l
  assume "atxn_luts_wf m" "l \<in> set (a_luts m)"
  then show "35 \<le> length (enc_lut l)"
    using cu16_length(1) [of "length (l_writable l)"] cu16_length(1) [of "length (l_readonly l)"]
    by (auto simp: enc_lut_def atxn_luts_wf_def)
qed

lemma encode_sizes:
  assumes m: "atxn_wf m"
  shows "(case a_version m of v \<Rightarrow> if v = FD_TXN_V1 then 138 else if v = FD_TXN_V0 then 136 else 134) \<le> length (encode m)"
    and "fd_txn_footprint (length (a_instrs m)) (length (a_luts m)) \<le> FD_TXN_MAX_SZ"
proof -
  have wf: "atxn_common m"
    using m by (simp add: atxn_wf_def)
  then have a: "1 \<le> length (a_sigs m)" "1 \<le> length (a_addrs m)" "length (a_instrs m) \<le> 64"
      "a_instrs m \<noteq> [] \<Longrightarrow> 2 \<le> length (a_addrs m)"
    by (cases "a_instrs m", auto simp: atxn_common_def)+
  have "138 \<le> length (encode m) \<and> a_luts m = []" if "a_version m = FD_TXN_V1"
    using length_encode_v1(1) [OF m that] a that m by (simp add: atxn_wf_def)
  moreover have "134 + (if a_version m = FD_TXN_V0 then 2 else 0) \<le> length (encode m) \<and>
      10 * length (a_instrs m) + 8 * length (a_luts m) \<le> 832" if v: "a_version m \<noteq> FD_TXN_V1"
  proof -
    have ins: "3 * length (a_instrs m) \<le> length (concat (map enc_instr (a_instrs m)))"
      by (rule length_concat_ge) (rule length_enc_instr)
    have lut: "(if a_version m = FD_TXN_V0 then 1 else 0) + 35 * length (a_luts m) \<le> length (enc_luts (a_version m) (a_luts m))"
      using m v length_enc_lut_wf [of m] cu16_length(1) [of "length (a_luts m)"]
      by (auto simp: enc_luts_def atxn_wf_def)
    have ver: "length (enc_version (a_version m)) = (if a_version m = FD_TXN_V0 then 1 else 0)"
      by (simp add: enc_version_def)
    have "length (encode m) \<le> 1232"
      using m v by (simp add: atxn_wf_def)
    note len = length_encode_v0 [OF m v] ins lut ver this a cu16_length(1) [of "length (a_addrs m)"]
      cu16_length(1) [of "length (a_instrs m)"]
    have "10 * length (a_instrs m) + 8 * length (a_luts m) \<le> 832"
    proof (cases "a_luts m = []")
      case False
      then have "a_version m = FD_TXN_V0"
        using m v by (auto simp: atxn_wf_def)
      with len have *: "3 * length (a_instrs m) + 35 * length (a_luts m) + 32 * length (a_addrs m) \<le> 1128"
        by simp
      show ?thesis
        using * a(3,4) len by (cases "a_instrs m = []"; cases "length (a_instrs m) = 64"; simp)
    qed (use a(3) in simp)
    then show ?thesis
      using len by (auto split: if_splits)
  qed
  ultimately show "(case a_version m of v \<Rightarrow> if v = FD_TXN_V1 then 138 else if v = FD_TXN_V0 then 136 else 134) \<le> length (encode m)"
    and "fd_txn_footprint (length (a_instrs m)) (length (a_luts m)) \<le> FD_TXN_MAX_SZ"
    using a(3) by (cases "a_version m = FD_TXN_V1"; auto simp: fd_txn_footprint_def FD_TXN_MAX_SZ_def split: if_splits)+
qed

subsection \<open>Legacy and V0\<close>

lemma enc_hd_upd [simp]:
  "enc_hd (m\<lparr>a_instrs := as, a_luts := ls, a_config_mask := x, a_config := xs\<rparr>) n = enc_hd m n"
  "lay_hd (m\<lparr>a_instrs := as, a_luts := ls, a_config_mask := x, a_config := xs\<rparr>) n = lay_hd m n"
  "head_ok (m\<lparr>a_instrs := as, a_luts := ls, a_config_mask := x, a_config := xs\<rparr>) n = head_ok m n"
  by (simp_all add: enc_hd_def lay_hd_def head_ok_def)

text \<open>The parts of a legacy or V0 transaction, put together.\<close>

definition v0_parts :: "atxn \<Rightarrow> bool" where
  "v0_parts m \<longleftrightarrow> head_ok m (length (a_instrs m)) \<and> a_config_mask m = 0 \<and> a_config m = [] \<and>
     (\<forall>a \<in> set (a_instrs m). instr_ok (length (a_addrs m)) a) \<and>
     (a_version m \<noteq> FD_TXN_V0 \<longrightarrow> a_luts m = []) \<and> length (a_luts m) \<le> 127 \<and>
     (\<forall>l \<in> set (a_luts m). lut_ok (length (a_addrs m)) l) \<and>
     length (a_addrs m) + adtl (a_luts m) \<le> 64 \<and>
     (\<forall>a \<in> set (a_instrs m). \<forall>b \<in> set (a_accts a). unat b < length (a_addrs m) + adtl (a_luts m))"

lemma lut_le_adtl: "l \<in> set ls \<Longrightarrow> length (l_writable l) + length (l_readonly l) \<le> adtl ls"
  by (induction ls) (auto simp: adtl_def)

lemma atxn_wf_v0:
  "(atxn_wf m \<and> a_version m \<noteq> FD_TXN_V1) = (v0_parts m \<and> length (encode m) \<le> 1232)"
proof -
  have "(if length (a_instrs m) = 0 then 0 else 1) < length (a_addrs m)"
    if "atxn_common m"
    using that by (cases "a_instrs m") (auto simp: atxn_common_def)
  moreover have "lut_ok (length (a_addrs m)) l" if "atxn_common m" "atxn_luts_wf m" "l \<in> set (a_luts m)" for l
    using that lut_le_adtl [of l "a_luts m"] by (auto simp: atxn_common_def atxn_luts_wf_def lut_ok_def)
  ultimately show ?thesis
    by (auto simp: atxn_wf_def v0_parts_def head_ok_def atxn_common_def atxn_luts_wf_def instr_ok_def lut_ok_def txn_consts)
qed

lemma parse_v0_sound:
  assumes sz: "sz = min (length p) 1232" and ok: "parse_v0 p sz want = Ok (fp, t, n)"
  shows "\<exists>m. atxn_wf m \<and> a_version m \<noteq> FD_TXN_V1 \<and> bytes_at p 0 (encode m) \<and> n = length (encode m) \<and>
    n \<le> length p \<and> (want \<or> n = length p) \<and> t = layout m \<and>
    fp = fd_txn_footprint (length (a_instrs m)) (length (a_luts m))"
proof -
  have sz': "sz \<le> length p" "sz \<le> 4096" "sz \<le> 1232"
    using sz by simp_all
  from ok obtain h i instrs mx j k luts w ad where
    hd: "parse_v0_header p sz 0 = Ok (h, i)" and ins: "parse_v0_instrs p sz (v0_acct_addr_cnt h) (v0_instr_cnt h) i 0 [] = Ok (instrs, mx, j)"
    and tab: "parse_v0_tables p sz (v0_transaction_version h) (fd_txn_get_address_tables (v0_instr_cnt h)) (v0_acct_addr_cnt h) j = Ok (k, luts, w, ad, n)"
    and chk: "want \<or> n = length p" "v0_acct_addr_cnt h + ad \<le> 64" "unat mx < v0_acct_addr_cnt h + ad"
    and fp: "fp = fd_txn_footprint (v0_instr_cnt h) k"
    and t: "t = \<lparr>transaction_version = v0_transaction_version h,
          signature_cnt = of_nat (v0_signature_cnt h),
          signature_off = of_nat (v0_signature_off h),
          message_off = of_nat (v0_message_off h),
          readonly_signed_cnt = of_nat (v0_ro_signed_cnt h),
          readonly_unsigned_cnt = of_nat (v0_ro_unsigned_cnt h),
          acct_addr_cnt = of_nat (v0_acct_addr_cnt h),
          acct_addr_off = of_nat (v0_acct_addr_off h),
          recent_blockhash_off = of_nat (v0_recent_blockhash_off h),
          addr_table_lookup_cnt = of_nat k,
          addr_table_adtl_writable_cnt = of_nat w,
          addr_table_adtl_cnt = of_nat ad,
          v1_txn_config_values_off = 0,
          instr_cnt = of_nat (v0_instr_cnt h),
          instr = instrs,
          address_tables = luts\<rparr>"
    by (auto simp: parse_v0_def res_ok txn_consts)
  from parse_v0_header_sound [OF sz'(1,2) hd] obtain m0 ni where
    m0: "head_ok m0 ni" "bytes_at p 0 (enc_hd m0 ni)" "i = length (enc_hd m0 ni)" "i \<le> sz" "h = lay_hd m0 ni"
    by auto
  have c: "v0_acct_addr_cnt h = length (a_addrs m0)" "v0_instr_cnt h = ni" "v0_transaction_version h = a_version m0"
      "length (a_addrs m0) \<le> 64" "length ([] :: fd_txn_instr list) + v0_instr_cnt h \<le> 64"
    using m0 by (simp_all add: lay_hd_def Let_def head_ok_def)
  from ins [unfolded parse_v0_instrs_Ok [OF m0(4) sz'(1,2) c(5)]] obtain as where
    as: "length as = ni" "bytes_at p i (concat (map enc_instr as))" "j = i + length (concat (map enc_instr as))"
      "j \<le> sz" "\<forall>a \<in> set as. instr_ok (length (a_addrs m0)) a" "mx = fold max (concat (map a_accts as)) 0"
      "instrs = lay_instrs i as"
    by (auto simp: c)
  from tab [unfolded parse_v0_tables_Ok [OF as(4) sz'(1,2) c(4) [folded c(1)]]] obtain ls where
    ls: "a_version m0 \<noteq> FD_TXN_V0 \<longrightarrow> ls = []" "length ls \<le> 127" "bytes_at p j (enc_luts (a_version m0) ls)"
      "n = j + length (enc_luts (a_version m0) ls)" "n \<le> sz" "\<forall>l \<in> set ls. lut_ok (length (a_addrs m0)) l"
      "k = length ls" "w = adtl_writable ls" "ad = adtl ls" "luts = lay_luts (j + length (cu16 (length ls))) ls"
    by (auto simp: c)
  let ?m = "m0\<lparr>a_instrs := as, a_luts := ls, a_config_mask := 0, a_config := []\<rparr>"
  have enc: "encode ?m = enc_hd m0 ni @ concat (map enc_instr as) @ enc_luts (a_version m0) ls"
    using m0(1) as(1) by (auto simp: encode_def head_ok_def txn_consts)
  then have n: "n = length (encode ?m)" and at: "bytes_at p 0 (encode ?m)"
    using m0 as ls by simp_all
  have "v0_parts ?m"
    using m0(1) as(1,5,6) ls(1,2,6,9) chk by (auto simp: v0_parts_def c(1) unat_fold_max)
  then have wf: "atxn_wf ?m" "a_version ?m \<noteq> FD_TXN_V1"
    using atxn_wf_v0 [of ?m] n ls(5) sz' by auto
  have "t = layout ?m"
    using wf(2) as ls c m0(3,5)
    by (simp add: t layout_def Let_def lay_hd_def add.assoc)
  then show ?thesis
    using wf n at chk(1) fp as(1) ls(5,7) c(2) sz' by (intro exI [of _ ?m]) auto
qed

lemma parse_v0_complete:
  assumes sz: "sz = min (length p) 1232" and m: "atxn_wf m" "a_version m \<noteq> FD_TXN_V1"
    and at: "bytes_at p 0 (encode m)" and want: "want \<or> length (encode m) = length p"
  shows "parse_v0 p sz want =
    Ok (fd_txn_footprint (length (a_instrs m)) (length (a_luts m)), layout m, length (encode m))"
proof -
  let ?hd = "enc_hd m (length (a_instrs m))" and ?ins = "concat (map enc_instr (a_instrs m))"
    and ?c = "length (a_addrs m)" and ?lut = "enc_luts (a_version m) (a_luts m)"
  have parts: "v0_parts m" "length (encode m) \<le> 1232"
    using m atxn_wf_v0 by auto
  then have hok: "head_ok m (length (a_instrs m))"
    by (simp add: v0_parts_def)
  have enc: "encode m = ?hd @ ?ins @ ?lut"
    using m(2) by (simp add: encode_def)
  moreover have "encode m \<noteq> []"
    by (simp add: enc enc_hd_def)
  ultimately have sz': "sz \<le> length p" "sz \<le> 4096" "length (encode m) \<le> sz"
    using sz bytes_at_length [OF at] parts(2) by auto
  have "3 * length (a_instrs m) \<le> length ?ins"
    by (rule length_concat_ge) (rule length_enc_instr)
  then have hd: "parse_v0_header p sz 0 = Ok (lay_hd m (length (a_instrs m)), length ?hd)"
    using parse_v0_header_complete [OF sz'(1,2) hok] at enc sz'(3) by simp
  have ni: "length (a_instrs m) \<le> 64"
    using hok by (simp add: head_ok_def)
  have fit: "fd_txn_get_address_tables (length (a_instrs m)) + 8 * length (a_luts m) \<le> 854"
    using encode_sizes(2) [OF m(1)] by (simp add: fd_txn_footprint_def fd_txn_get_address_tables_def FD_TXN_MAX_SZ_def)
  have ins: "parse_v0_instrs p sz ?c (length (a_instrs m)) (length ?hd) 0 [] =
      Ok (lay_instrs (length ?hd) (a_instrs m), fold max (concat (map a_accts (a_instrs m))) 0, length (?hd @ ?ins))"
    using parts(1) at enc sz' ni by (subst parse_v0_instrs_Ok) (auto simp: v0_parts_def)
  have tab: "parse_v0_tables p sz (a_version m) (fd_txn_get_address_tables (length (a_instrs m))) ?c (length (?hd @ ?ins)) =
      Ok (length (a_luts m), lay_luts (length (?hd @ ?ins) + length (cu16 (length (a_luts m)))) (a_luts m),
          adtl_writable (a_luts m), adtl (a_luts m), length (encode m))"
    using parts(1) at enc sz' fit by (subst parse_v0_tables_Ok) (auto simp: v0_parts_def)
  have "unat (fold max (concat (map a_accts (a_instrs m))) 0) < ?c + adtl (a_luts m)"
    using parts(1) by (auto simp: unat_fold_max v0_parts_def head_ok_def)
  moreover have "v0_acct_addr_cnt (lay_hd m k) = ?c" "v0_instr_cnt (lay_hd m k) = k"
      "v0_transaction_version (lay_hd m k) = a_version m" for k
    by (simp_all add: lay_hd_def Let_def)
  moreover have "?c + adtl (a_luts m) \<le> 64"
    using parts(1) by (simp add: v0_parts_def)
  ultimately show ?thesis
    using want m(2) hd ins tab
    by (simp add: parse_v0_def txn_consts layout_def Let_def) (simp add: lay_hd_def Let_def add.assoc)
qed

subsection \<open>V1\<close>

lemma enc_v1_hd_upd [simp]:
  "length (a_sigs m) = length sigs \<Longrightarrow> enc_v1_hd (m\<lparr>a_sigs := sigs, a_instrs := as\<rparr>) n = enc_v1_hd m n"
  "length (a_sigs m) = length sigs \<Longrightarrow> lay_v1_hd (m\<lparr>a_sigs := sigs, a_instrs := as\<rparr>) n = lay_v1_hd m n"
  "length (a_sigs m) = length sigs \<Longrightarrow> v1_head_ok (m\<lparr>a_sigs := sigs, a_instrs := as\<rparr>) n = v1_head_ok m n"
  by (simp_all add: enc_v1_hd_def lay_v1_hd_def v1_head_ok_def atxn_config_wf_def)

definition v1_parts :: "atxn \<Rightarrow> bool" where
  "v1_parts m \<longleftrightarrow> v1_head_ok m (length (a_instrs m)) \<and> (\<forall>s \<in> set (a_sigs m). length s = 64) \<and>
     (\<forall>a \<in> set (a_instrs m). instr_ok (length (a_addrs m)) a \<and> (\<forall>b \<in> set (a_accts a). unat b < length (a_addrs m)))"

lemma atxn_wf_v1:
  "(atxn_wf m \<and> a_version m = FD_TXN_V1) = (v1_parts m \<and> length (encode m) \<le> 4096)"
  by (auto simp: atxn_wf_def v1_parts_def v1_head_ok_def atxn_common_def instr_ok_def adtl_def)

lemma hdr_of_ok:
  assumes "length (a_accts a) < 65536"
  shows "v1_hdr_ok c (hdr_of a) = instr_ok c a"
  using assms by (auto simp: v1_hdr_ok_def hdr_of_def instr_ok_def unat_of_nat_u16)

lemma enc_v1_hdr_of:
  assumes "length (a_accts a) < 65536" "length (a_data a) < 65536"
  shows "enc_v1_hdr (hdr_of a) = enc_instr_header a"
  using assms by (simp add: enc_v1_hdr_def hdr_of_def enc_instr_header_def byte_def unat_of_nat_u16 del: of_nat_unat)

lemma length_mem_payloads: "a \<in> set as \<Longrightarrow> length (enc_instr_payload a) \<le> length (concat (map enc_instr_payload as))"
  by (induction as) auto

lemma parse_v1_sound:
  assumes sz: "sz = min (length p) 4096" and msb: "p ! 0 AND 0x80 \<noteq> 0"
    and ok: "parse_v1 p sz want = Ok (fp, t, n)"
  shows "\<exists>m. atxn_wf m \<and> a_version m = FD_TXN_V1 \<and> bytes_at p 0 (encode m) \<and> n = length (encode m) \<and>
    n \<le> length p \<and> (want \<or> n = length p) \<and> t = layout m \<and>
    fp = fd_txn_footprint (length (a_instrs m)) (length (a_luts m))"
proof -
  have sz': "sz \<le> length p" "sz \<le> 4096" "sz < 2 ^ 64"
    using sz by simp_all
  from ok obtain h i hs j instrs k where
    hd: "parse_v1_header p sz 0 = Ok (h, i)"
    and hdrs: "parse_v1_instr_headers p sz (v1_acct_addr_cnt h) (v1_instr_cnt h) i [] = Ok (hs, j)"
    and pay: "parse_v1_instr_payloads p sz (v1_acct_addr_cnt h) hs j [] = Ok (instrs, k)"
    and fin: "CHECK_LEFT 191 sz k (64 * v1_signature_cnt h) (CHECK 213 (want \<or> k + 64 * v1_signature_cnt h = length p)
      (Ok (fd_txn_footprint (v1_instr_cnt h) 0,
        \<lparr>transaction_version = FD_TXN_V1,
             signature_cnt = of_nat (v1_signature_cnt h),
             signature_off = of_nat k,
             message_off = 0,
             readonly_signed_cnt = of_nat (v1_ro_signed_cnt h),
             readonly_unsigned_cnt = of_nat (v1_ro_unsigned_cnt h),
             acct_addr_cnt = of_nat (v1_acct_addr_cnt h),
             acct_addr_off = of_nat (v1_acct_addr_off h),
             recent_blockhash_off = of_nat (v1_recent_blockhash_off h),
             addr_table_lookup_cnt = 0,
             addr_table_adtl_writable_cnt = 0,
             addr_table_adtl_cnt = 0,
             v1_txn_config_values_off = of_nat (v1_config_values_off h),
             instr_cnt = of_nat (v1_instr_cnt h),
             instr = instrs,
             address_tables = []\<rparr>, k + 64 * v1_signature_cnt h))) = Ok (fp, t, n)"
    by (auto simp: parse_v1_def rbind_Ok Let_def FD_TXN_SIGNATURE_SZ_def)
  from parse_v1_header_sound [OF sz'(1,2) msb hd] obtain m0 ni where
    m0: "v1_head_ok m0 ni" "bytes_at p 0 (enc_v1_hd m0 ni)" "i = length (enc_v1_hd m0 ni)" "i \<le> sz" "h = lay_v1_hd m0 ni"
    by auto
  have c: "v1_acct_addr_cnt h = length (a_addrs m0)" "v1_instr_cnt h = ni" "v1_signature_cnt h = length (a_sigs m0)"
      "length ([] :: fd_txn_instr list) + v1_instr_cnt h \<le> 64"
    using m0 by (simp_all add: lay_v1_hd_def v1_head_ok_def)
  from hdrs [unfolded parse_v1_instr_headers_Ok [OF m0(4) sz'(1,2) c(4)]] have
    hs: "length hs = ni" "bytes_at p i (concat (map enc_v1_hdr hs))" "j = i + 4 * ni" "j \<le> sz"
      "\<forall>h \<in> set hs. v1_hdr_ok (length (a_addrs m0)) h"
    by (auto simp: c)
  have off: "\<forall>h \<in> set hs. acct_off h = 0 \<and> data_off h = 0" "length ([] :: fd_txn_instr list) + length hs \<le> 64"
    using hs(1,5) c(2,4) by (simp_all add: v1_hdr_ok_def)
  from pay [unfolded parse_v1_instr_payloads_Ok [OF hs(4) sz'(1,2) off]] obtain as where
    as: "map hdr_of as = hs" "bytes_at p j (concat (map enc_instr_payload as))"
      "k = j + length (concat (map enc_instr_payload as))" "k \<le> sz" "\<forall>a \<in> set as. payload_ok (length (a_addrs m0)) a"
      "instrs = lay_v1_instrs j as"
    by (auto simp: c)
  have le: "k + 64 * length (a_sigs m0) \<le> sz" and w: "want \<or> n = length p" and n: "n = k + 64 * length (a_sigs m0)"
    and fp: "fp = fd_txn_footprint ni 0"
    using fin as(4) sz' by (auto simp: CHECK_LEFT_Ok CHECK_Ok c)
  obtain sigs where s: "length sigs = length (a_sigs m0)" "bytes_at p k (concat sigs)"
      "length (concat sigs) = 64 * length (a_sigs m0)" "\<forall>c \<in> set sigs. length c = 64"
    using chunks_ex [of k 64 "length (a_sigs m0)" p] le sz' by auto
  let ?m = "m0\<lparr>a_sigs := sigs, a_instrs := as\<rparr>"
  have lens: "length as = ni"
    using as(1) hs(1) by auto
  have "map enc_instr_header as = map enc_v1_hdr hs"
    using as(1,5) by (auto simp: payload_ok_def enc_v1_hdr_of)
  then have enc: "encode ?m = enc_v1_hd m0 ni @ concat (map enc_v1_hdr hs) @ concat (map enc_instr_payload as) @ concat sigs"
    and l4: "length (concat (map enc_v1_hdr hs)) = 4 * ni"
    using m0(1) s(1) lens length_headers [of as]
    by (simp_all add: encode_def v1_head_ok_def enc_v1_headers_def enc_v1_payloads_def)
  have at: "bytes_at p 0 (encode ?m)" "n = length (encode ?m)"
    using m0(2,3) hs(2,3) as(2,3) s(2,3) n l4 by (simp_all add: enc)
  have "\<forall>a \<in> set as. instr_ok (length (a_addrs m0)) a"
    using as(1,5) hs(5) by (auto simp: payload_ok_def hdr_of_ok)
  then have "v1_parts ?m"
    using m0(1) s(1,4) as(5) lens by (simp add: v1_parts_def payload_ok_def)
  then have wf: "atxn_wf ?m" "a_version ?m = FD_TXN_V1"
    using atxn_wf_v1 [of ?m] at(2) n le sz' by auto
  have luts: "a_luts m0 = []"
    using m0(1) by (simp add: v1_head_ok_def)
  have "t = layout ?m"
    using fin as(3,4,6) hs(3) m0(3,5) s(1,3) sz' wf(2) luts lens
    by (auto simp: CHECK_LEFT_Ok CHECK_Ok layout_def Let_def enc_v1_headers_def enc_v1_payloads_def
        lay_v1_hd_def adtl_def adtl_writable_def length_headers)
  then show ?thesis
    using wf at w fp lens n le sz' luts by (intro exI [of _ ?m]) auto
qed

lemma parse_v1_complete:
  assumes sz: "sz = min (length p) 4096" and m: "atxn_wf m" "a_version m = FD_TXN_V1"
    and at: "bytes_at p 0 (encode m)" and want: "want \<or> length (encode m) = length p"
  shows "parse_v1 p sz want =
    Ok (fd_txn_footprint (length (a_instrs m)) (length (a_luts m)), layout m, length (encode m))"
proof -
  let ?hd = "enc_v1_hd m (length (a_instrs m))" and ?hdrs = "enc_v1_headers m" and ?pay = "enc_v1_payloads m"
    and ?c = "length (a_addrs m)" and ?s = "length (a_sigs m)"
  have parts: "v1_parts m" "length (encode m) \<le> 4096"
    using m atxn_wf_v1 by auto
  then have hok: "v1_head_ok m (length (a_instrs m))" and luts: "a_luts m = []" and ni: "length (a_instrs m) \<le> 64"
    by (simp_all add: v1_parts_def v1_head_ok_def)
  have enc: "encode m = ?hd @ ?hdrs @ ?pay @ concat (a_sigs m)"
    using m(2) by (simp add: encode_def)
  moreover have "encode m \<noteq> []"
    by (simp add: enc enc_v1_hd_def)
  ultimately have sz': "sz \<le> length p" "sz \<le> 4096" "length (encode m) \<le> sz" "sz < 2 ^ 64"
    using sz bytes_at_length [OF at] parts(2) by auto
  have sigs: "length (concat (a_sigs m)) = 64 * ?s"
    using parts(1) by (intro length_concat_const) (simp add: v1_parts_def)
  have small: "payload_ok ?c a" "length (a_accts a) < 65536" "length (a_data a) < 65536" if "a \<in> set (a_instrs m)" for a
    using length_mem_payloads [OF that] that parts enc
    by (auto simp: payload_ok_def v1_parts_def enc_v1_payloads_def enc_instr_payload_def)
  have hd: "parse_v1_header p sz 0 = Ok (lay_v1_hd m (length (a_instrs m)), length ?hd)"
    using parse_v1_header_complete [OF sz'(1,2) hok] at enc sz'(3) by simp
  have hdrs_eq: "concat (map enc_v1_hdr (map hdr_of (a_instrs m))) = ?hdrs"
    using small by (simp add: enc_v1_headers_def enc_v1_hdr_of cong: map_cong)
  have hdrs: "parse_v1_instr_headers p sz ?c (length (a_instrs m)) (length ?hd) [] =
      Ok (map hdr_of (a_instrs m), length (?hd @ ?hdrs))"
  proof (subst parse_v1_instr_headers_Ok)
    have "\<forall>h \<in> set (map hdr_of (a_instrs m)). v1_hdr_ok ?c h"
      using small parts(1) by (auto simp: hdr_of_ok v1_parts_def)
    moreover have "length ?hdrs = 4 * length (a_instrs m)"
      by (simp add: enc_v1_headers_def length_headers)
    ultimately show "\<exists>hs. length hs = length (a_instrs m) \<and> bytes_at p (length ?hd) (concat (map enc_v1_hdr hs)) \<and>
        length (?hd @ ?hdrs) = length ?hd + 4 * length (a_instrs m) \<and> length (?hd @ ?hdrs) \<le> sz \<and>
        (\<forall>h \<in> set hs. v1_hdr_ok ?c h) \<and> map hdr_of (a_instrs m) = [] @ hs"
      using hdrs_eq at enc sz'(3) by (intro exI [of _ "map hdr_of (a_instrs m)"]) simp
  qed (use enc sz' ni in simp_all)
  have pay: "parse_v1_instr_payloads p sz ?c (map hdr_of (a_instrs m)) (length (?hd @ ?hdrs)) [] =
      Ok (lay_v1_instrs (length (?hd @ ?hdrs)) (a_instrs m), length (?hd @ ?hdrs @ ?pay))"
  proof (subst parse_v1_instr_payloads_Ok)
    show "\<exists>as. map hdr_of as = map hdr_of (a_instrs m) \<and>
        bytes_at p (length (?hd @ ?hdrs)) (concat (map enc_instr_payload as)) \<and>
        length (?hd @ ?hdrs @ ?pay) = length (?hd @ ?hdrs) + length (concat (map enc_instr_payload as)) \<and>
        length (?hd @ ?hdrs @ ?pay) \<le> sz \<and> (\<forall>a \<in> set as. payload_ok ?c a) \<and>
        lay_v1_instrs (length (?hd @ ?hdrs)) (a_instrs m) = [] @ lay_v1_instrs (length (?hd @ ?hdrs)) as"
      using at enc sz'(3) small(1) by (intro exI [of _ "a_instrs m"]) (simp add: enc_v1_payloads_def)
  qed (use enc sz' ni in \<open>simp_all add: hdr_of_def\<close>)
  have "v1_acct_addr_cnt (lay_v1_hd m k) = ?c" "v1_instr_cnt (lay_v1_hd m k) = k" "v1_signature_cnt (lay_v1_hd m k) = ?s" for k
    by (simp_all add: lay_v1_hd_def)
  then show ?thesis
    using want m(2) luts hd hdrs pay enc sigs sz'
    by (simp add: parse_v1_def CHECK_LEFT_run layout_def Let_def FD_TXN_SIGNATURE_SZ_def)
      (simp add: lay_v1_hd_def adtl_def adtl_writable_def add.assoc)
qed

end
