(* ===== verification/Txn_Accounts.thy ===== *)
theory Txn_Accounts
  imports Txn
begin

text \<open>
  The accounts of a transaction (\<open>src/src/ballet/txn/fd_txn.h\<close>): the six account categories, counting
  and iterating over the accounts of a set of categories, \<open>fd_txn_is_writable\<close> and
  \<open>fd_txn_is_signer\<close>.  The reference is \<open>acct_cat\<close>, the category of the account at an index; the
  iterator packs up to three index ranges into one 64-bit control word and is shown to enumerate
  exactly the indices whose category was asked for, in order.
\<close>

definition FD_TXN_ACCT_CAT_WRITABLE_SIGNER :: nat where "FD_TXN_ACCT_CAT_WRITABLE_SIGNER = 0x01"
definition FD_TXN_ACCT_CAT_READONLY_SIGNER :: nat where "FD_TXN_ACCT_CAT_READONLY_SIGNER = 0x02"
definition FD_TXN_ACCT_CAT_WRITABLE_NONSIGNER_IMM :: nat where "FD_TXN_ACCT_CAT_WRITABLE_NONSIGNER_IMM = 0x04"
definition FD_TXN_ACCT_CAT_READONLY_NONSIGNER_IMM :: nat where "FD_TXN_ACCT_CAT_READONLY_NONSIGNER_IMM = 0x08"
definition FD_TXN_ACCT_CAT_WRITABLE_ALT :: nat where "FD_TXN_ACCT_CAT_WRITABLE_ALT = 0x10"
definition FD_TXN_ACCT_CAT_READONLY_ALT :: nat where "FD_TXN_ACCT_CAT_READONLY_ALT = 0x20"
definition FD_TXN_ACCT_CAT_WRITABLE :: nat where "FD_TXN_ACCT_CAT_WRITABLE = 0x15"
definition FD_TXN_ACCT_CAT_SIGNER :: nat where "FD_TXN_ACCT_CAT_SIGNER = 0x03"
definition FD_TXN_ACCT_CAT_IMM :: nat where "FD_TXN_ACCT_CAT_IMM = 0x0F"
definition FD_TXN_ACCT_CAT_ALL :: nat where "FD_TXN_ACCT_CAT_ALL = 0x3F"

lemmas acct_cats =
  FD_TXN_ACCT_CAT_WRITABLE_SIGNER_def FD_TXN_ACCT_CAT_READONLY_SIGNER_def
  FD_TXN_ACCT_CAT_WRITABLE_NONSIGNER_IMM_def FD_TXN_ACCT_CAT_READONLY_NONSIGNER_IMM_def
  FD_TXN_ACCT_CAT_WRITABLE_ALT_def FD_TXN_ACCT_CAT_READONLY_ALT_def
  FD_TXN_ACCT_CAT_WRITABLE_def FD_TXN_ACCT_CAT_SIGNER_def FD_TXN_ACCT_CAT_IMM_def FD_TXN_ACCT_CAT_ALL_def

definition fd_txn_account_cnt :: "fd_txn \<Rightarrow> nat \<Rightarrow> nat" where
  "fd_txn_account_cnt txn include_cat =
     (let cnt = 0;
          cnt = (if include_cat AND FD_TXN_ACCT_CAT_WRITABLE_SIGNER \<noteq> 0
                 then ulong_add cnt (ulong_sub (unat (signature_cnt txn)) (unat (readonly_signed_cnt txn))) else cnt);
          cnt = (if include_cat AND FD_TXN_ACCT_CAT_READONLY_SIGNER \<noteq> 0
                 then ulong_add cnt (unat (readonly_signed_cnt txn)) else cnt);
          cnt = (if include_cat AND FD_TXN_ACCT_CAT_READONLY_NONSIGNER_IMM \<noteq> 0
                 then ulong_add cnt (unat (readonly_unsigned_cnt txn)) else cnt);
          cnt = (if include_cat AND FD_TXN_ACCT_CAT_WRITABLE_ALT \<noteq> 0
                 then ulong_add cnt (unat (addr_table_adtl_writable_cnt txn)) else cnt);
          cnt = (if include_cat AND FD_TXN_ACCT_CAT_WRITABLE_NONSIGNER_IMM \<noteq> 0
                 then ulong_add cnt (ulong_sub (ulong_sub (unat (acct_addr_cnt txn)) (unat (signature_cnt txn)))
                                               (unat (readonly_unsigned_cnt txn))) else cnt);
          cnt = (if include_cat AND FD_TXN_ACCT_CAT_READONLY_ALT \<noteq> 0
                 then ulong_add cnt (ulong_sub (unat (addr_table_adtl_cnt txn))
                                               (unat (addr_table_adtl_writable_cnt txn))) else cnt)
      in cnt)"

text \<open>
  \<open>INCLUDE_RANGE\<close> on the array \<open>control\<close> and the index \<open>i\<close>, which starts at \<open>ULONG_MAX\<close>; a write
  outside the array is \<open>Ub\<close>.
\<close>

definition INCLUDE_RANGE ::
    "nat \<Rightarrow> nat \<Rightarrow> nat \<Rightarrow> nat \<Rightarrow> nat list \<times> nat \<Rightarrow> (nat list \<times> nat) res" where
  "INCLUDE_RANGE include_cat f start cnt st =
     (case st of (control, i) \<Rightarrow>
        if include_cat AND f \<noteq> 0 then
          rbind (if include_cat AND drop_bit 1 f = 0
                 then (let i = ulong_add i 1
                       in if i < length control then Ok (control[i := start], i) else Ub)
                 else Ok (control, i))
            (\<lambda>(control, i).
              if i < length control
              then Ok (control[i := ulong_add (control ! i) (push_bit 8 cnt)], i) else Ub)
        else Ok (control, i))"

definition acct_iter_compact :: "nat \<Rightarrow> nat \<Rightarrow> nat \<Rightarrow> nat" where
  "acct_iter_compact control0 control1 control2 =
     (let control2_empty = control2 AND 0xFF00 = 0;
          control2 = (if control2_empty then 0 else control2);
          control1_empty = control1 AND 0xFF00 = 0;
          control1' = (if control1_empty then control2 else control1);
          control2' = (if control1_empty then 0 else control2);
          control0_empty = control0 AND 0xFF00 = 0;
          control0'' = (if control0_empty then control1' else control0);
          control1'' = (if control0_empty then control2' else control1');
          control2'' = (if control0_empty then 0 else control2')
      in control0'' OR (push_bit 16 control1'' mod 2 ^ 64) OR (push_bit 32 control2'' mod 2 ^ 64))"

definition fd_txn_acct_iter_init :: "fd_txn \<Rightarrow> nat \<Rightarrow> nat res" where
  "fd_txn_acct_iter_init txn include_cat =
     (let s = unat (signature_cnt txn);
          q = unat (readonly_signed_cnt txn);
          r = unat (readonly_unsigned_cnt txn);
          a = unat (acct_addr_cnt txn);
          t = unat (addr_table_adtl_cnt txn);
          u = unat (addr_table_adtl_writable_cnt txn)
      in rbind (INCLUDE_RANGE include_cat FD_TXN_ACCT_CAT_WRITABLE_SIGNER 0 (ulong_sub s q) ([0, 0, 0], ULONG_MAX)) (\<lambda>st.
         rbind (INCLUDE_RANGE include_cat FD_TXN_ACCT_CAT_READONLY_SIGNER (ulong_sub s q) q st) (\<lambda>st.
         rbind (INCLUDE_RANGE include_cat FD_TXN_ACCT_CAT_WRITABLE_NONSIGNER_IMM s (ulong_sub (ulong_sub a r) s) st) (\<lambda>st.
         rbind (INCLUDE_RANGE include_cat FD_TXN_ACCT_CAT_READONLY_NONSIGNER_IMM (ulong_sub a r) r st) (\<lambda>st.
         rbind (INCLUDE_RANGE include_cat FD_TXN_ACCT_CAT_WRITABLE_ALT a u st) (\<lambda>st.
         rbind (INCLUDE_RANGE include_cat FD_TXN_ACCT_CAT_READONLY_ALT (ulong_add a u) (ulong_sub t u) st) (\<lambda>(control, i).
         Ok (acct_iter_compact (control ! 0) (control ! 1) (control ! 2)))))))))"

definition fd_txn_acct_iter_next :: "nat \<Rightarrow> nat" where
  "fd_txn_acct_iter_next cur =
     (let cur = ulong_sub (ulong_add cur 0x0001) 0x0100
      in if cur AND 0xFF00 \<noteq> 0 then cur else drop_bit 16 cur)"

definition fd_txn_acct_iter_end :: nat where
  "fd_txn_acct_iter_end = 0"

definition fd_txn_acct_iter_idx :: "nat \<Rightarrow> nat" where
  "fd_txn_acct_iter_idx cur = cur AND 0xFF"

text \<open>The documented loop over an iterator, with fuel: \<open>None\<close> when the fuel is used up.\<close>

fun acct_iter_loop :: "nat \<Rightarrow> nat \<Rightarrow> nat list option" where
  "acct_iter_loop fuel cur =
     (if cur = fd_txn_acct_iter_end then Some []
      else case fuel of 0 \<Rightarrow> None
        | Suc fuel \<Rightarrow> map_option ((#) (fd_txn_acct_iter_idx cur)) (acct_iter_loop fuel (fd_txn_acct_iter_next cur)))"

declare acct_iter_loop.simps [simp del]

definition fd_txn_is_writable :: "fd_txn \<Rightarrow> u16 \<Rightarrow> bool" where
  "fd_txn_is_writable txn idx =
     (if transaction_version txn = FD_TXN_V0 \<and> unat (acct_addr_cnt txn) \<le> unat idx
      then unat idx < unat (acct_addr_cnt txn) + unat (addr_table_adtl_writable_cnt txn)
      else if int (unat idx) < int (unat (signature_cnt txn)) - int (unat (readonly_signed_cnt txn)) then True
      else unat (signature_cnt txn) \<le> unat idx \<and>
           int (unat idx) < int (unat (acct_addr_cnt txn)) - int (unat (readonly_unsigned_cnt txn)))"

definition fd_txn_is_signer :: "fd_txn \<Rightarrow> int \<Rightarrow> bool" where
  "fd_txn_is_signer txn idx = (idx < int (unat (signature_cnt txn)))"

definition fd_txn_msg_sz :: "fd_txn \<Rightarrow> nat \<Rightarrow> nat" where
  "fd_txn_msg_sz txn payload_sz =
     (let msg_end = (if transaction_version txn = FD_TXN_V1 then unat (signature_off txn) else payload_sz)
      in ulong_sub msg_end (unat (message_off txn)))"

subsection \<open>The category of an account\<close>

definition acct_total :: "fd_txn \<Rightarrow> nat" where
  "acct_total txn = unat (acct_addr_cnt txn) + unat (addr_table_adtl_cnt txn)"

definition acct_cat :: "fd_txn \<Rightarrow> nat \<Rightarrow> nat" where
  "acct_cat txn i =
     (if i < unat (signature_cnt txn) - unat (readonly_signed_cnt txn) then FD_TXN_ACCT_CAT_WRITABLE_SIGNER
      else if i < unat (signature_cnt txn) then FD_TXN_ACCT_CAT_READONLY_SIGNER
      else if i < unat (acct_addr_cnt txn) - unat (readonly_unsigned_cnt txn) then FD_TXN_ACCT_CAT_WRITABLE_NONSIGNER_IMM
      else if i < unat (acct_addr_cnt txn) then FD_TXN_ACCT_CAT_READONLY_NONSIGNER_IMM
      else if i < unat (acct_addr_cnt txn) + unat (addr_table_adtl_writable_cnt txn) then FD_TXN_ACCT_CAT_WRITABLE_ALT
      else FD_TXN_ACCT_CAT_READONLY_ALT)"

definition accts_in :: "fd_txn \<Rightarrow> nat \<Rightarrow> nat list" where
  "accts_in txn include_cat = filter (\<lambda>i. include_cat AND acct_cat txn i \<noteq> 0) [0..<acct_total txn]"

text \<open>The count relations a parsed transaction satisfies.\<close>

definition acct_counts_ok :: "fd_txn \<Rightarrow> bool" where
  "acct_counts_ok txn \<longleftrightarrow>
     unat (readonly_signed_cnt txn) < unat (signature_cnt txn) \<and>
     unat (signature_cnt txn) + unat (readonly_unsigned_cnt txn) \<le> unat (acct_addr_cnt txn) \<and>
     unat (addr_table_adtl_writable_cnt txn) \<le> unat (addr_table_adtl_cnt txn) \<and>
     acct_total txn \<le> FD_TXN_ACCT_ADDR_MAX \<and>
     (transaction_version txn \<noteq> FD_TXN_V0 \<longrightarrow> addr_table_adtl_cnt txn = 0)"

subsection \<open>Control words as lists of ranges\<close>

lemma nat_or_push:
  assumes "(x :: nat) < 2 ^ k"
  shows "x OR push_bit k y = x + 2 ^ k * y"
proof -
  have high: "\<not> bit x n" if "k \<le> n" for n
  proof -
    have "x < 2 ^ n"
      using assms by (rule order_less_le_trans) (rule power_increasing [OF that], simp)
    then show ?thesis
      by (simp add: bit_iff_odd)
  qed
  have "x AND push_bit k y = 0"
  proof (rule bit_eqI)
    fix n
    show "bit (x AND push_bit k y) n = bit 0 n"
      using high [of n] by (auto simp: bit_and_iff bit_push_bit_iff)
  qed
  then show ?thesis
    using disjunctive_add_eq_or [of x "push_bit k y"] by (simp add: push_bit_eq_mult mult.commute)
qed

lemma nat_and_ff: "(n :: nat) AND 0xFF = n mod 256"
  using take_bit_eq_mask [of 8 n] by (simp add: mask_eq_exp_minus_1 take_bit_eq_mod)

lemma nat_and_ff00: "((n :: nat) AND 0xFF00 = 0) = (n div 256 mod 256 = 0)"
proof -
  have and_push: "n AND push_bit 8 m = push_bit 8 (drop_bit 8 n AND m)" for m
    by (rule bit_eqI) (auto simp: bit_and_iff bit_push_bit_iff bit_drop_bit_eq)
  have "(0xFF00 :: nat) = push_bit 8 0xFF"
    by simp
  then have "n AND 0xFF00 = push_bit 8 (drop_bit 8 n AND 0xFF)"
    using and_push by presburger
  also have "\<dots> = 256 * (n div 256 mod 256)"
    by (simp add: nat_and_ff push_bit_eq_mult drop_bit_eq_div)
  finally show ?thesis
    by simp
qed

fun enc_ranges :: "(nat \<times> nat) list \<Rightarrow> nat" where
  "enc_ranges [] = 0"
| "enc_ranges ((s, c) # rs) = s + 256 * c + 65536 * enc_ranges rs"

definition ranges_ok :: "(nat \<times> nat) list \<Rightarrow> bool" where
  "ranges_ok rs \<longleftrightarrow> length rs \<le> 3 \<and> (\<forall>(s, c) \<in> set rs. 0 < c \<and> s + c \<le> 128)"

definition range_idxs :: "(nat \<times> nat) list \<Rightarrow> nat list" where
  "range_idxs rs = concat (map (\<lambda>(s, c). [s..<s + c]) rs)"

lemma enc_ranges_less: "\<forall>(s, c) \<in> set rs. s + c \<le> 128 \<Longrightarrow> enc_ranges rs < 65536 ^ length rs"
proof (induction rs)
  case (Cons r rs)
  obtain s c where r: "r = (s, c)"
    by (cases r)
  have "s + 256 * c < 65536" and "enc_ranges rs + 1 \<le> 65536 ^ length rs"
    using Cons by (auto simp: r)
  then show ?case
    by (simp add: r)
qed simp

lemma enc_ranges_less_64: "ranges_ok rs \<Longrightarrow> enc_ranges rs < 2 ^ 48"
proof -
  assume "ranges_ok rs"
  then have "enc_ranges rs < 65536 ^ length rs" and "length rs \<le> 3"
    by (auto simp: ranges_ok_def intro!: enc_ranges_less)
  from this(2) have "(65536 :: nat) ^ length rs \<le> 65536 ^ 3"
    by (rule power_increasing) simp
  with \<open>enc_ranges rs < 65536 ^ length rs\<close> show ?thesis
    by simp
qed

lemma enc_ranges_digits:
  assumes "s < 256" "c < 256"
  shows "(s + 256 * c + 65536 * x) mod 256 = (s :: nat)" "(s + 256 * c + 65536 * x) div 256 mod 256 = c"
    "(s + 256 * c + 65536 * x) div 65536 = x"
proof -
  have v: "s + 256 * c + 65536 * x = s + 256 * (c + 256 * x)"
    by simp
  show "(s + 256 * c + 65536 * x) mod 256 = s" "(s + 256 * c + 65536 * x) div 256 mod 256 = c"
    unfolding v using assms by (simp_all del: distrib_left_numeral)
  have "s + 256 * c < 65536"
    using assms by simp
  then show "(s + 256 * c + 65536 * x) div 65536 = x"
    by simp
qed

lemma iter_idx: "ranges_ok ((s, c) # rs) \<Longrightarrow> fd_txn_acct_iter_idx (enc_ranges ((s, c) # rs)) = s"
  using enc_ranges_digits(1) [of s c "enc_ranges rs"]
  by (auto simp: fd_txn_acct_iter_idx_def nat_and_ff ranges_ok_def)

lemma iter_next:
  assumes ok: "ranges_ok ((s, c) # rs)"
  shows "fd_txn_acct_iter_next (enc_ranges ((s, c) # rs)) =
    enc_ranges (if c = 1 then rs else (s + 1, c - 1) # rs)"
proof -
  let ?e = "enc_ranges rs" and ?x = "enc_ranges ((s, c) # rs)"
  have c: "0 < c" "s + c \<le> 128"
    using ok by (auto simp: ranges_ok_def)
  have big: "?x < 2 ^ 48"
    using enc_ranges_less_64 [OF ok] .
  have "ulong_sub (ulong_add ?x 1) 256 = ?x + 1 - 256"
    using big c by (simp add: ulong_add_small ulong_sub_le)
  also have "\<dots> = (s + 1) + 256 * (c - 1) + 65536 * ?e"
    using c by (cases c) simp_all
  finally have "ulong_sub (ulong_add ?x 1) 256 = (s + 1) + 256 * (c - 1) + 65536 * ?e" .
  moreover have "s + 1 < 256" "c - 1 < 256"
    using c by simp_all
  ultimately show ?thesis
    using enc_ranges_digits [of "s + 1" "c - 1" ?e] c
    by (auto simp: fd_txn_acct_iter_next_def Let_def nat_and_ff00 drop_bit_eq_div simp del: add_Suc_right One_nat_def)
qed

lemma enc_ranges_0: "ranges_ok rs \<Longrightarrow> (enc_ranges rs = 0) = (rs = [])"
  by (cases rs) (auto simp: ranges_ok_def)

lemma iter_loop_ranges:
  "ranges_ok rs \<Longrightarrow> length (range_idxs rs) \<le> fuel \<Longrightarrow> acct_iter_loop fuel (enc_ranges rs) = Some (range_idxs rs)"
proof (induction fuel arbitrary: rs)
  case 0
  then have "rs = []"
    by (cases rs) (auto simp: range_idxs_def ranges_ok_def)
  then show ?case
    by (simp add: acct_iter_loop.simps fd_txn_acct_iter_end_def range_idxs_def)
next
  case (Suc fuel)
  show ?case
  proof (cases rs)
    case Nil
    then show ?thesis
      by (simp add: acct_iter_loop.simps fd_txn_acct_iter_end_def range_idxs_def)
  next
    case (Cons r rs')
    obtain s c where r: "r = (s, c)"
      by (cases r)
    let ?next = "if c = 1 then rs' else (s + 1, c - 1) # rs'"
    obtain c' where c: "c = Suc c'"
      using Suc.prems(1) Cons r by (cases c) (auto simp: ranges_ok_def)
    have idxs: "range_idxs rs = s # range_idxs ?next"
      using upt_conv_Cons [of s "s + c"] by (auto simp: Cons r c range_idxs_def simp del: upt_Suc)
    have "ranges_ok ?next"
      using Suc.prems(1) Cons r by (auto simp: ranges_ok_def)
    moreover have "length (range_idxs ?next) \<le> fuel"
      using Suc.prems(2) idxs by simp
    moreover have "enc_ranges rs \<noteq> 0"
      using enc_ranges_0 [OF Suc.prems(1)] Cons by simp
    ultimately show ?thesis
      using Suc.IH [of ?next] Suc.prems(1) iter_idx iter_next idxs
      by (subst acct_iter_loop.simps) (simp add: fd_txn_acct_iter_end_def Cons r del: enc_ranges.simps)
  qed
qed

subsection \<open>The iterator enumerates the accounts of the categories\<close>

lemma acct_iter_compact_ranges:
  assumes "s0 + c0 \<le> 128" "s1 + c1 \<le> 128" "s2 + c2 \<le> 128"
  shows "acct_iter_compact (s0 + 256 * c0) (s1 + 256 * c1) (s2 + 256 * c2) =
    enc_ranges (filter (\<lambda>(s, c). 0 < c) [(s0, c0), (s1, c1), (s2, c2)])"
proof -
  have d: "(s + 256 * c) div 256 mod 256 = c" if "s + c \<le> 128" for s c :: nat
    using enc_ranges_digits(2) [of s c 0] that by simp
  have lt: "s + 256 * c < 65536" if "s + c \<le> 128" for s c :: nat
    using that by simp
  have or: "x OR (push_bit 16 y mod 2 ^ 64) OR (push_bit 32 z mod 2 ^ 64) = x + 65536 * (y + 65536 * z)"
    if "x < 65536" "y < 65536" "z < 65536" for x y z :: nat
  proof -
    have "push_bit 16 y mod 2 ^ 64 = push_bit 16 y" "push_bit 32 z mod 2 ^ 64 = push_bit 32 z"
      using that by (simp_all add: push_bit_eq_mult)
    moreover have "x + 2 ^ 16 * y < 2 ^ 32"
      using that by simp
    ultimately show ?thesis
      using that nat_or_push [of x 16 y] nat_or_push [of "x + 2 ^ 16 * y" 32 z] by (simp flip: or.assoc)
  qed
  show ?thesis
    using assms or lt
    by (auto simp: acct_iter_compact_def Let_def nat_and_ff00 d)
qed

lemma range_idxs_filter: "range_idxs (filter (\<lambda>(s, c). 0 < c) rs) = range_idxs rs"
  by (induction rs) (auto simp: range_idxs_def)

lemma upt_split: "i \<le> j \<Longrightarrow> j \<le> k \<Longrightarrow> [i..<j] @ [j..<k] = [i..<k]"
  using upt_add_eq_append [of i j "k - j"] by simp

lemma upt_split_append: "i \<le> j \<Longrightarrow> j \<le> k \<Longrightarrow> [i..<j] @ [j..<k] @ xs = [i..<k] @ xs"
  using upt_split [of i j k] by (metis append_assoc)

lemma accts_in_runs:
  assumes "acct_counts_ok txn"
  shows "accts_in txn cat =
    (let s = unat (signature_cnt txn); q = unat (readonly_signed_cnt txn); r = unat (readonly_unsigned_cnt txn);
         a = unat (acct_addr_cnt txn); t = unat (addr_table_adtl_cnt txn); u = unat (addr_table_adtl_writable_cnt txn)
     in (if cat AND 1 \<noteq> 0 then [0..<s - q] else []) @ (if cat AND 2 \<noteq> 0 then [s - q..<s] else []) @
        (if cat AND 4 \<noteq> 0 then [s..<a - r] else []) @ (if cat AND 8 \<noteq> 0 then [a - r..<a] else []) @
        (if cat AND 16 \<noteq> 0 then [a..<a + u] else []) @ (if cat AND 32 \<noteq> 0 then [a + u..<a + t] else []))"
proof -
  let ?s = "unat (signature_cnt txn)" and ?q = "unat (readonly_signed_cnt txn)" and ?r = "unat (readonly_unsigned_cnt txn)"
    and ?a = "unat (acct_addr_cnt txn)" and ?t = "unat (addr_table_adtl_cnt txn)" and ?u = "unat (addr_table_adtl_writable_cnt txn)"
  have le: "?s \<le> ?a - ?r" "?a - ?r \<le> ?a" "?u \<le> ?t"
    using assms by (auto simp: acct_counts_ok_def)
  then have runs: "[0..<acct_total txn] = [0..<?s - ?q] @ [?s - ?q..<?s] @ [?s..<?a - ?r] @ [?a - ?r..<?a] @ [?a..<?a + ?u] @ [?a + ?u..<?a + ?t]"
    by (simp add: acct_total_def upt_split upt_split_append)
  have filter_run: "filter (\<lambda>i. cat AND acct_cat txn i \<noteq> 0) [i..<j] = (if cat AND c \<noteq> 0 then [i..<j] else [])"
    if "\<And>k. i \<le> k \<Longrightarrow> k < j \<Longrightarrow> acct_cat txn k = c" for i j c
    using that by (auto simp: filter_empty_conv filter_id_conv)
  show ?thesis
    unfolding accts_in_def runs filter_append Let_def
    using le by (intro arg_cong2 [where f = append] filter_run) (auto simp: acct_cat_def acct_cats)
qed

text \<open>
  The state of the \<open>INCLUDE_RANGE\<close> sequence after \<open>k\<close> categories, the last of which ends at index
  \<open>pos\<close> and was included iff \<open>b\<close>: the array holds the ranges \<open>rs\<close>, which cover \<open>xs\<close>.
\<close>

definition range_word :: "nat \<times> nat \<Rightarrow> nat" where
  "range_word r = fst r + 256 * snd r"

definition iter_inv :: "nat \<Rightarrow> bool \<Rightarrow> nat \<Rightarrow> nat list \<times> nat \<Rightarrow> nat list \<Rightarrow> (nat \<times> nat) list \<Rightarrow> bool" where
  "iter_inv k b pos st xs rs \<longleftrightarrow>
     fst st = map range_word rs @ replicate (3 - length rs) 0 \<and>
     snd st = (if rs = [] then ULONG_MAX else length rs - 1) \<and>
     2 * length rs \<le> k + (if b then 1 else 0) \<and>
     (b \<longrightarrow> rs \<noteq> [] \<and> fst (last rs) + snd (last rs) = pos) \<and>
     (\<forall>(s, c) \<in> set rs. s + c \<le> pos) \<and> range_idxs rs = xs"

lemma INCLUDE_RANGE_step:
  assumes inv: "iter_inv k (cat AND drop_bit 1 f \<noteq> 0) pos st xs rs" and k: "k \<le> 5" and pos: "pos + cnt \<le> 128"
  shows "\<exists>st' rs'. INCLUDE_RANGE cat f pos cnt st = Ok st' \<and>
    iter_inv (k + 1) (cat AND f \<noteq> 0) (pos + cnt) st' (xs @ (if cat AND f \<noteq> 0 then [pos..<pos + cnt] else [])) rs'"
proof (cases "cat AND f = 0")
  case True
  then have "INCLUDE_RANGE cat f pos cnt st = Ok st"
    by (cases st) (simp add: INCLUDE_RANGE_def)
  moreover have "iter_inv (k + 1) False (pos + cnt) st xs rs"
    using inv by (auto simp: iter_inv_def split: if_splits)
  ultimately show ?thesis
    using True by auto
next
  case f: False
  obtain control i where st: "st = (control, i)"
    by (cases st)
  note I = inv [unfolded iter_inv_def st fst_conv snd_conv]
  show ?thesis
  proof (cases "cat AND drop_bit 1 f = 0")
    case True
    then have len: "length rs \<le> 2"
      using I k by simp
    then have i: "ulong_add i 1 = length rs"
      using I by (auto simp: ulong_add_def ULONG_MAX_def)
    have rep: "3 - length rs = Suc (2 - length rs)"
      using len by simp
    let ?rs = "rs @ [(pos, cnt)]"
    have ctl: "control[length rs := pos, length rs := ulong_add pos (push_bit 8 cnt)] =
        map range_word ?rs @ replicate (3 - length ?rs) 0"
      using I rep pos
      by (simp add: list_update_append range_word_def ulong_add_small push_bit_eq_mult)
    have "INCLUDE_RANGE cat f pos cnt st = Ok (map range_word ?rs @ replicate (3 - length ?rs) 0, length rs)"
      using f True I len i ctl by (simp add: INCLUDE_RANGE_def st Let_def)
    moreover have "iter_inv (k + 1) True (pos + cnt) (map range_word ?rs @ replicate (3 - length ?rs) 0, length rs)
        (xs @ [pos..<pos + cnt]) ?rs"
      using I True by (auto simp: iter_inv_def range_idxs_def)
    ultimately show ?thesis
      using f by auto
  next
    case False
    then obtain rs0 s c where rs: "rs = rs0 @ [(s, c)]" and p: "s + c = pos"
      using I by (metis append_butlast_last_id prod.collapse fst_conv snd_conv)
    have len: "length rs0 \<le> 2"
      using I k False by (simp add: rs)
    let ?rs = "rs0 @ [(s, c + cnt)]"
    have ctl: "control[length rs0 := ulong_add (control ! length rs0) (push_bit 8 cnt)] =
        map range_word ?rs @ replicate (3 - length ?rs) 0"
      using I len pos p
      by (auto simp: rs list_update_append range_word_def ulong_add_small push_bit_eq_mult nth_append)
    have "INCLUDE_RANGE cat f pos cnt st = Ok (map range_word ?rs @ replicate (3 - length ?rs) 0, length rs0)"
      using f False I len ctl by (simp add: INCLUDE_RANGE_def st rs)
    moreover have "iter_inv (k + 1) True (pos + cnt) (map range_word ?rs @ replicate (3 - length ?rs) 0, length rs0)
        (xs @ [pos..<pos + cnt]) ?rs"
      using I False upt_split [of s "s + c" "s + (c + cnt)"] by (auto simp: iter_inv_def range_idxs_def rs add.assoc p [symmetric])
    ultimately show ?thesis
      using f by auto
  qed
qed

lemma INCLUDE_RANGE_next:
  assumes "iter_inv k b pos st xs rs" "b = (cat AND drop_bit 1 f \<noteq> 0)" "k \<le> 5" "pos + cnt \<le> 128" "pos' = pos + cnt"
  obtains st' rs' where "INCLUDE_RANGE cat f pos cnt st = Ok st'"
    "iter_inv (k + 1) (cat AND f \<noteq> 0) pos' st' (xs @ (if cat AND f \<noteq> 0 then [pos..<pos'] else [])) rs'"
  using INCLUDE_RANGE_step [OF assms(1) [unfolded assms(2)] assms(3,4)] unfolding assms(5) by blast

lemma fd_txn_acct_iter_init_ranges:
  assumes ok: "acct_counts_ok txn"
  shows "\<exists>rs. fd_txn_acct_iter_init txn cat = Ok (enc_ranges rs) \<and> ranges_ok rs \<and> range_idxs rs = accts_in txn cat"
proof -
  let ?s = "unat (signature_cnt txn)" and ?q = "unat (readonly_signed_cnt txn)" and ?r = "unat (readonly_unsigned_cnt txn)"
    and ?a = "unat (acct_addr_cnt txn)" and ?t = "unat (addr_table_adtl_cnt txn)" and ?u = "unat (addr_table_adtl_writable_cnt txn)"
  let ?run = "\<lambda>f i j. if cat AND f \<noteq> 0 then [i..<j] else []"
  have le: "?q < ?s" "?s + ?r \<le> ?a" "?u \<le> ?t" "?a + ?t \<le> 64"
    using ok by (simp_all add: acct_counts_ok_def acct_total_def FD_TXN_ACCT_ADDR_MAX_def)
  let ?x1 = "[] @ ?run 1 0 (?s - ?q)"
  let ?x2 = "?x1 @ ?run 2 (?s - ?q) ?s"
  let ?x3 = "?x2 @ ?run 4 ?s (?a - ?r)"
  let ?x4 = "?x3 @ ?run 8 (?a - ?r) ?a"
  let ?x5 = "?x4 @ ?run 16 ?a (?a + ?u)"
  let ?x6 = "?x5 @ ?run 32 (?a + ?u) (?a + ?t)"
  have 0: "iter_inv 0 False 0 ([0, 0, 0], ULONG_MAX) [] []"
    by (simp add: iter_inv_def range_idxs_def numeral_3_eq_3)
  obtain st1 rs1 where 1: "INCLUDE_RANGE cat 1 0 (?s - ?q) ([0, 0, 0], ULONG_MAX) = Ok st1"
      "iter_inv (0 + 1) (cat AND 1 \<noteq> 0) (?s - ?q) st1 ?x1 rs1"
    by (rule INCLUDE_RANGE_next [OF 0, of cat 1 "?s - ?q" "?s - ?q"], simp, simp, use le in simp, use le in simp, rule that)
  obtain st2 rs2 where 2: "INCLUDE_RANGE cat 2 (?s - ?q) ?q st1 = Ok st2"
      "iter_inv (0 + 1 + 1) (cat AND 2 \<noteq> 0) ?s st2 ?x2 rs2"
    by (rule INCLUDE_RANGE_next [OF 1(2), of cat 2 "?q" "?s"], simp, simp, use le in simp, use le in simp, rule that)
  obtain st3 rs3 where 3: "INCLUDE_RANGE cat 4 ?s (?a - ?r - ?s) st2 = Ok st3"
      "iter_inv (0 + 1 + 1 + 1) (cat AND 4 \<noteq> 0) (?a - ?r) st3 ?x3 rs3"
    by (rule INCLUDE_RANGE_next [OF 2(2), of cat 4 "?a - ?r - ?s" "?a - ?r"], simp, simp, use le in simp, use le in simp, rule that)
  obtain st4 rs4 where 4: "INCLUDE_RANGE cat 8 (?a - ?r) ?r st3 = Ok st4"
      "iter_inv (0 + 1 + 1 + 1 + 1) (cat AND 8 \<noteq> 0) ?a st4 ?x4 rs4"
    by (rule INCLUDE_RANGE_next [OF 3(2), of cat 8 "?r" "?a"], simp, simp, use le in simp, use le in simp, rule that)
  obtain st5 rs5 where 5: "INCLUDE_RANGE cat 16 ?a ?u st4 = Ok st5"
      "iter_inv (0 + 1 + 1 + 1 + 1 + 1) (cat AND 16 \<noteq> 0) (?a + ?u) st5 ?x5 rs5"
    by (rule INCLUDE_RANGE_next [OF 4(2), of cat 16 "?u" "?a + ?u"], simp, simp, use le in simp, use le in simp, rule that)
  obtain st6 rs where 6: "INCLUDE_RANGE cat 32 (?a + ?u) (?t - ?u) st5 = Ok st6"
      "iter_inv (0 + 1 + 1 + 1 + 1 + 1 + 1) (cat AND 32 \<noteq> 0) (?a + ?t) st6 ?x6 rs"
    by (rule INCLUDE_RANGE_next [OF 5(2), of cat 32 "?t - ?u" "?a + ?t"], simp, simp, use le in simp, use le in simp, rule that)
  have x6: "?x6 = accts_in txn cat"
    by (simp add: accts_in_runs [OF ok] Let_def)
  obtain control i where st6: "st6 = (control, i)"
    by (cases st6)
  have len: "length rs \<le> 3" and ctl: "control = map range_word rs @ replicate (3 - length rs) 0"
    and rs: "\<forall>(s, c) \<in> set rs. s + c \<le> 128" "range_idxs rs = accts_in txn cat"
    using 6(2) [unfolded x6] le by (auto simp: iter_inv_def st6 split: if_splits)
  have "fd_txn_acct_iter_init txn cat = Ok (acct_iter_compact (control ! 0) (control ! 1) (control ! 2))"
    using 1(1) 2(1) 3(1) 4(1) 5(1) 6(1) le
    by (simp add: fd_txn_acct_iter_init_def Let_def acct_cats ulong_sub_le ulong_add_small st6)
  moreover have "acct_iter_compact (control ! 0) (control ! 1) (control ! 2) = enc_ranges (filter (\<lambda>(s, c). 0 < c) rs)"
  proof -
    obtain r0 r1 r2 where r: "rs @ replicate (3 - length rs) (0, 0) = [r0, r1, r2]"
      using len by (auto simp: numeral_3_eq_3 le_Suc_eq length_Suc_conv)
    have f: "filter (\<lambda>(s, c). 0 < c) rs = filter (\<lambda>(s, c). 0 < (c :: nat)) [r0, r1, r2]"
      unfolding r [symmetric] by (simp add: filter_replicate)
    have "control = map range_word (rs @ replicate (3 - length rs) (0, 0))"
      unfolding ctl by (simp add: range_word_def)
    then have "control = map range_word [r0, r1, r2]"
      unfolding r .
    moreover have "\<forall>(s, c) \<in> set (rs @ replicate (3 - length rs) (0, 0)). s + c \<le> 128"
      using rs(1) by auto
    ultimately show ?thesis
      unfolding f r using acct_iter_compact_ranges [of "fst r0" "snd r0" "fst r1" "snd r1" "fst r2" "snd r2"]
      by (auto simp: range_word_def split_beta)
  qed
  moreover have "ranges_ok (filter (\<lambda>(s, c). 0 < c) rs)"
    using rs(1) order_trans [OF length_filter_le len] by (auto simp: ranges_ok_def)
  ultimately show ?thesis
    using rs(2) range_idxs_filter by auto
qed

lemma length_accts_in_le: "length (accts_in txn cat) \<le> acct_total txn"
  unfolding accts_in_def by (rule order_trans [OF length_filter_le]) simp

text \<open>
  C6. The account iterator, packed into one 64-bit word of control ranges, visits exactly the
  account indices whose category is in the requested category set, each once and in increasing
  order, and ends within 64 steps.
\<close>

theorem fd_txn_acct_iter_enumerates:
  assumes "acct_counts_ok txn" and "64 \<le> fuel"
  shows "\<exists>it. fd_txn_acct_iter_init txn include_cat = Ok it \<and>
    acct_iter_loop fuel it = Some (filter (\<lambda>i. include_cat AND acct_cat txn i \<noteq> 0) [0..<acct_total txn])"
proof -
  obtain rs where rs: "fd_txn_acct_iter_init txn include_cat = Ok (enc_ranges rs)" "ranges_ok rs"
      "range_idxs rs = accts_in txn include_cat"
    using fd_txn_acct_iter_init_ranges [OF assms(1)] by blast
  have "length (range_idxs rs) \<le> fuel"
    using length_accts_in_le [of txn include_cat] assms rs(3)
    by (simp add: acct_counts_ok_def FD_TXN_ACCT_ADDR_MAX_def)
  then show ?thesis
    using rs iter_loop_ranges by (auto simp: accts_in_def)
qed

definition sample_counts :: fd_txn where
  "sample_counts = \<lparr>transaction_version = FD_TXN_V0, signature_cnt = 3, signature_off = 1, message_off = 193,
     readonly_signed_cnt = 1, readonly_unsigned_cnt = 2, acct_addr_cnt = 7, acct_addr_off = 198,
     recent_blockhash_off = 422, addr_table_lookup_cnt = 1, addr_table_adtl_writable_cnt = 0,
     addr_table_adtl_cnt = 2, v1_txn_config_values_off = 0, instr_cnt = 0, instr = [],
     address_tables = [\<lparr>addr_off = 456, writable_cnt = 0, readonly_cnt = 2, writable_off = 489, readonly_off = 490\<rparr>]\<rparr>"

lemma sample_counts_ok: "acct_counts_ok sample_counts" "acct_total sample_counts = 9"
  by (simp_all add: acct_counts_ok_def sample_counts_def acct_total_def txn_consts)

lemma sample_cat: "acct_cat sample_counts i =
    (if i < 2 then 1 else if i < 3 then 2 else if i < 5 then 4 else if i < 7 then 8 else if i < 7 then 16 else 32)"
  by (simp add: acct_cat_def sample_counts_def acct_cats)

lemma upt_9: "[0..<9] = [0, 1, 2, 3, 4, 5, 6, 7, 8]"
  by (simp add: upt_rec)

theorem fd_txn_acct_iter_enumerates_witness:
  "acct_counts_ok sample_counts \<and>
   (\<exists>it. fd_txn_acct_iter_init sample_counts 0x2A = Ok it \<and> acct_iter_loop 64 it = Some [2, 5, 6, 7, 8])"
proof -
  have "filter (\<lambda>i. 0x2A AND acct_cat sample_counts i \<noteq> 0) [0..<acct_total sample_counts] = [2, 5, 6, 7, 8]"
    by (simp add: sample_counts_ok(2) sample_cat upt_9)
  then show ?thesis
    using fd_txn_acct_iter_enumerates [OF sample_counts_ok(1), of 64 "0x2A"] sample_counts_ok(1) by simp
qed

lemma length_accts_in:
  assumes "acct_counts_ok txn"
  shows "fd_txn_account_cnt txn cat = length (accts_in txn cat)"
proof -
  have "unat (readonly_signed_cnt txn) < unat (signature_cnt txn)"
    "unat (signature_cnt txn) + unat (readonly_unsigned_cnt txn) \<le> unat (acct_addr_cnt txn)"
    "unat (addr_table_adtl_writable_cnt txn) \<le> unat (addr_table_adtl_cnt txn)"
    "unat (acct_addr_cnt txn) + unat (addr_table_adtl_cnt txn) \<le> 64"
    using assms by (simp_all add: acct_counts_ok_def acct_total_def FD_TXN_ACCT_ADDR_MAX_def)
  then show ?thesis
    unfolding accts_in_runs [OF assms] fd_txn_account_cnt_def Let_def acct_cats
    by (cases "cat AND 1 = 0"; cases "cat AND 2 = 0"; cases "cat AND 4 = 0"; cases "cat AND 8 = 0";
        cases "cat AND 16 = 0"; cases "cat AND 32 = 0"; simp add: ulong_sub_le ulong_add_small)
qed

lemma fd_txn_is_writable_cat:
  assumes ok: "acct_counts_ok txn" and i: "i < acct_total txn"
  shows "fd_txn_is_writable txn (of_nat i) \<longleftrightarrow> acct_cat txn i AND FD_TXN_ACCT_CAT_WRITABLE \<noteq> 0"
proof -
  have u: "unat (of_nat i :: u16) = i"
    using assms by (intro unat_of_nat_u16) (simp add: acct_counts_ok_def FD_TXN_ACCT_ADDR_MAX_def)
  have d: "(int i < int (unat (x :: 'a :: len word)) - int (unat (y :: 'b :: len word))) = (i < unat x - unat y)" for x y
    by linarith
  have "i < unat (acct_addr_cnt txn)" if "transaction_version txn \<noteq> FD_TXN_V0"
    using that assms by (simp add: acct_counts_ok_def acct_total_def)
  with ok i show ?thesis
    unfolding fd_txn_is_writable_def u d by (auto simp: acct_cat_def acct_cats acct_counts_ok_def acct_total_def)
qed

lemma fd_txn_is_signer_cat:
  "fd_txn_is_signer txn (int i) \<longleftrightarrow> acct_cat txn i AND FD_TXN_ACCT_CAT_SIGNER \<noteq> 0"
proof -
  have "fd_txn_is_signer txn (int i) \<longleftrightarrow> i < unat (signature_cnt txn)"
    by (simp add: fd_txn_is_signer_def del: of_nat_unat)
  then show ?thesis
    by (auto simp: acct_cat_def acct_cats)
qed

text \<open>
  C7. The closed-form account queries agree with the categories the iterator enumerates:
  fd_txn_account_cnt is the number of indices of the category set, fd_txn_is_writable holds exactly
  of the writable categories and fd_txn_is_signer exactly of the signer categories.
\<close>

theorem fd_txn_account_predicates:
  assumes "acct_counts_ok txn" and "i < acct_total txn"
  shows "fd_txn_account_cnt txn include_cat =
      length (filter (\<lambda>i. include_cat AND acct_cat txn i \<noteq> 0) [0..<acct_total txn]) \<and>
    (fd_txn_is_writable txn (of_nat i) \<longleftrightarrow> acct_cat txn i AND FD_TXN_ACCT_CAT_WRITABLE \<noteq> 0) \<and>
    (fd_txn_is_signer txn (int i) \<longleftrightarrow> acct_cat txn i AND FD_TXN_ACCT_CAT_SIGNER \<noteq> 0)"
  using length_accts_in fd_txn_is_writable_cat fd_txn_is_signer_cat assms by (simp add: accts_in_def)

theorem fd_txn_account_predicates_witness:
  "acct_counts_ok sample_counts \<and> fd_txn_account_cnt sample_counts FD_TXN_ACCT_CAT_WRITABLE = 4 \<and>
   fd_txn_is_writable sample_counts 4 \<and> \<not> fd_txn_is_signer sample_counts 4"
proof -
  have f: "filter (\<lambda>i. 0x15 AND acct_cat sample_counts i \<noteq> 0) [0..<9] = [0, 1, 3, 4]"
    by (simp add: sample_cat upt_9)
  have c: "acct_cat sample_counts 4 = 4"
    by (simp add: sample_cat)
  show ?thesis
    using fd_txn_account_predicates [OF sample_counts_ok(1), of 4 "FD_TXN_ACCT_CAT_WRITABLE"] f c sample_counts_ok
    by (simp add: acct_cats)
qed

end
