(* ===== verification/Txn_Correct.thy ===== *)
theory Txn_Correct
  imports Txn_Exact Txn_Accounts
begin

text \<open>
  What \<open>fd_txn_parse_core\<close> guarantees: it reads only inside the payload and stores only inside
  \<open>out_buf\<close>, it accepts exactly the encodings of well-formed transactions, and the descriptor it
  returns can be used without further bounds checks.
\<close>

lemma encode_head:
  assumes "atxn_wf m"
  shows "encode m \<noteq> []" and "(hd (encode m) AND 0x80 \<noteq> 0) = (a_version m = FD_TXN_V1)"
proof -
  show "encode m \<noteq> []"
    by (simp add: encode_def enc_v1_hd_def enc_hd_def)
  show "(hd (encode m) AND 0x80 \<noteq> 0) = (a_version m = FD_TXN_V1)"
  proof (cases "a_version m = FD_TXN_V1")
    case False
    then have "length (a_sigs m) \<le> 12"
      using assms by (simp add: atxn_wf_def atxn_common_def)
    then show ?thesis
      using False u8_high_bit [of "byte (length (a_sigs m))"] by (simp add: encode_def enc_hd_def unat_byte)
  qed (simp add: encode_def enc_v1_hd_def)
qed

lemma parse_payload_eq:
  "p \<noteq> [] \<Longrightarrow> fd_txn_parse_payload p want =
     (if p ! 0 AND 0x80 \<noteq> 0 then parse_v1 p (min (length p) 4096) want
      else parse_v0 p (min (length p) 1232) want)"
  by (simp add: fd_txn_parse_payload_def txn_consts)

lemma parse_payload_msg:
  assumes ok: "fd_txn_parse_payload p want_sz = Ok (footprint, t, n)"
  shows "\<exists>m. atxn_wf m \<and> bytes_at p 0 (encode m) \<and> n = length (encode m) \<and> n \<le> length p \<and>
    (want_sz \<or> n = length p) \<and> t = layout m \<and> footprint = fd_txn_footprint (length (a_instrs m)) (length (a_luts m))"
proof -
  have "p \<noteq> []"
    using ok by (auto simp: fd_txn_parse_payload_def res_ok)
  then show ?thesis
    using ok parse_v1_sound [OF refl, of p want_sz footprint t n] parse_v0_sound [OF refl, of p want_sz footprint t n]
    by (auto simp: parse_payload_eq split: if_splits)
qed

lemma parse_payload_complete:
  assumes "atxn_wf m" "bytes_at p 0 (encode m)" "want_sz \<or> length (encode m) = length p"
  shows "fd_txn_parse_payload p want_sz =
    Ok (fd_txn_footprint (length (a_instrs m)) (length (a_luts m)), layout m, length (encode m))"
proof -
  have "p \<noteq> []" "hd (encode m) = p ! 0"
    using assms encode_head(1) [of m] by (auto simp: bytes_at_0 hd_conv_nth nth_append)
  then show ?thesis
    using assms encode_head(2) [of m] parse_v1_complete [OF refl, of m p want_sz] parse_v0_complete [OF refl, of m p want_sz]
    by (auto simp: parse_payload_eq)
qed

text \<open>
  C2. The transaction parser accepts exactly the serialisations of the abstract message format, for
  legacy, V0 and V1 messages alike: it returns a descriptor t of the first n bytes if and only if
  these bytes are the encoding of a well-formed message m, t is the layout of m, the reported
  footprint is that of m, and (unless the caller asked for the size) n is the whole payload.
\<close>

theorem fd_txn_parse_payload_iff:
  "fd_txn_parse_payload p want_sz = Ok (footprint, t, n) \<longleftrightarrow>
     (\<exists>m. atxn_wf m \<and> n \<le> length p \<and> take n p = encode m \<and> (want_sz \<or> n = length p) \<and>
          t = layout m \<and> footprint = fd_txn_footprint (length (a_instrs m)) (length (a_luts m)))"
  (is "?L \<longleftrightarrow> (\<exists>m. ?R m)")
proof
  assume ?L
  from parse_payload_msg [OF this] show "\<exists>m. ?R m"
    by (auto simp: bytes_at_def)
next
  assume "\<exists>m. ?R m"
  then obtain m where m: "?R m" ..
  then have n: "n = length (encode m)"
    by (metis length_take min.absorb2)
  with m have at: "bytes_at p 0 (encode m)"
    by (simp add: bytes_at_def)
  then show ?L
    using m n parse_payload_complete [of m p want_sz] by auto
qed

subsection \<open>Memory safety\<close>

lemma cu16_readD: "cu16_read p sz i n v \<Longrightarrow> 1 \<le> n \<and> i + n \<le> sz"
  using cu16_read_sz by blast

lemma wp_parse_v1_instr_headers:
  "i \<le> sz \<Longrightarrow> sz \<le> length p \<Longrightarrow> sz < 2 ^ 64 \<Longrightarrow> length acc + n \<le> 64 \<Longrightarrow>
     wp (parse_v1_instr_headers p sz c n i acc) (\<lambda>(hs, j). j \<le> sz \<and> length hs = length acc + n)"
proof (induction n arbitrary: i acc)
  case (Suc n)
  show ?case
    using Suc.prems by (auto simp: wp intro!: wp_mono [OF Suc.IH])
qed simp

lemma wp_parse_v1_instr_payloads:
  "i \<le> sz \<Longrightarrow> sz \<le> length p \<Longrightarrow> sz < 2 ^ 64 \<Longrightarrow> length acc + length hs \<le> 64 \<Longrightarrow>
     wp (parse_v1_instr_payloads p sz c hs i acc) (\<lambda>(is, j). j \<le> sz)"
proof (induction hs arbitrary: i acc)
  case (Cons h hs)
  then show ?case
    by (auto simp: wp intro!: wp_mono [OF wp_check_v1_accts])
qed simp

lemma wp_parse_v0_instrs:
  "i \<le> sz \<Longrightarrow> sz \<le> length p \<Longrightarrow> sz < 2 ^ 64 \<Longrightarrow> length acc + n \<le> 64 \<Longrightarrow>
     wp (parse_v0_instrs p sz c n i mx acc) (\<lambda>(is, mx, j). j \<le> sz \<and> i + 3 * n \<le> j)"
proof (induction n arbitrary: i mx acc)
  case (Suc n)
  show ?case
    using Suc.prems
    by (auto simp: wp txn_consts scan_max_acct_eq dest!: cu16_readD intro!: wp_mono [OF Suc.IH])
qed simp

text \<open>
  The lookup-table entries are stored behind the instructions.  What keeps them inside \<open>out_buf\<close> is
  the payload: each entry is stored only after at least 35 bytes of it have been consumed.
\<close>

lemma wp_parse_v0_luts:
  "i \<le> sz \<Longrightarrow> sz \<le> length p \<Longrightarrow> sz < 2 ^ 64 \<Longrightarrow>
     (\<And>k. i + 35 * k \<le> sz \<Longrightarrow> tb + 8 * (length acc + k) \<le> 854) \<Longrightarrow>
     wp (parse_v0_luts p sz tb c n i aw at acc) (\<lambda>(ls, aw, at, j). j \<le> sz)"
proof (induction n arbitrary: i aw at acc)
  case (Suc n)
  have room: "tb + (8 * length acc + 8 * k) \<le> 846" if "i + 35 + 35 * k \<le> sz" for k
    using Suc.prems(4) [of "Suc k"] that by simp
  have room0: "tb + length acc * 8 \<le> 846" if "i + 35 \<le> sz"
    using room [of 0] that by simp
  show ?case
    using Suc.prems(1-3) by (auto simp: wp txn_consts dest!: cu16_readD intro!: Suc.IH room0 room)
qed simp

text \<open>
  The bound on \<open>out_buf\<close> of a legacy or V0 transaction: \<open>n\<close> instructions of at least 3 bytes and
  \<open>k\<close> lookup tables of at least 35 bytes, behind a header with \<open>c\<close> account addresses.
\<close>

lemma v0_out_fits:
  fixes n k c :: nat
  assumes "104 + 32 * c + 3 * n + 35 * k \<le> 1232" "n \<le> 64" "(if n = 0 then 0 else 1) < c"
  shows "22 + n * 10 + 8 * k \<le> 854"
  using assms by (cases "n = 0"; cases "n = 64"; simp)

lemma wp_parse_v0_tables:
  assumes "i \<le> sz" "sz \<le> length p" "sz < 2 ^ 64"
    and "\<And>k. ver = FD_TXN_V0 \<Longrightarrow> i + 1 + 35 * k \<le> sz \<Longrightarrow> tb + 8 * k \<le> 854"
  shows "wp (parse_v0_tables p sz ver tb c i) (\<lambda>_. True)"
  using assms
  by (auto simp: parse_v0_tables_def wp dest!: cu16_readD intro!: wp_mono [OF wp_parse_v0_luts])

lemma wp_parse_v0_header:
  assumes "sz \<le> length p" "sz \<le> 4096"
  shows "wp (parse_v0_header p sz 0) (\<lambda>(h, i). i \<le> sz \<and> v0_instr_cnt h \<le> 64 \<and>
    (if v0_instr_cnt h = 0 then 0 else 1) < v0_acct_addr_cnt h \<and>
    (v0_transaction_version h = FD_TXN_V0 \<longrightarrow> 103 + 32 * v0_acct_addr_cnt h \<le> i))"
proof (rule wp_mono)
  show "wp (parse_v0_header p sz 0) (\<lambda>(h, i). i \<le> sz)"
    using assms by (auto simp: parse_v0_header_def parse_v0_version_def wp txn_consts cu16_read_def)
  fix x
  assume "parse_v0_header p sz 0 = Ok x"
  then obtain m n where m: "head_ok m n" "snd x = length (enc_hd m n)" "snd x \<le> sz" "fst x = lay_hd m n"
    using parse_v0_header_sound [OF assms, of "fst x" "snd x"] by auto
  have "length (concat (a_sigs m)) = 64 * length (a_sigs m)" "length (concat (a_addrs m)) = 32 * length (a_addrs m)"
    using m(1) by (auto simp: head_ok_def intro: length_concat_const)
  then show "case x of (h, i) \<Rightarrow> i \<le> sz \<and> v0_instr_cnt h \<le> 64 \<and>
      (if v0_instr_cnt h = 0 then 0 else 1) < v0_acct_addr_cnt h \<and>
      (v0_transaction_version h = FD_TXN_V0 \<longrightarrow> 103 + 32 * v0_acct_addr_cnt h \<le> i)"
    using m cu16_length(1) [of n] cu16_length(1) [of "length (a_addrs m)"]
    by (cases x) (auto simp: head_ok_def lay_hd_def Let_def enc_hd_def enc_version_def)
qed

lemma ulong_popcnt: "bit x 4 \<Longrightarrow> fd_uint_popcnt x = ulong_sub (fd_uint_popcnt x) (Suc 0) + 1"
  using popcnt_pos [of x 4] popcnt_config [of x] by (simp add: ulong_sub_le)

lemma wp_parse_v1_header:
  "sz \<le> length p \<Longrightarrow> sz < 2 ^ 64 \<Longrightarrow> wp (parse_v1_header p sz 0) (\<lambda>(h, i). i \<le> sz \<and> v1_instr_cnt h \<le> 64)"
  by (simp add: parse_v1_header_def wp txn_consts drop_bit_and_1)
    (intro impI conjI; (linarith | drule ulong_popcnt, linarith | auto))

lemma wp_parse_v0:
  assumes "sz \<le> length p" "sz \<le> 1232"
  shows "wp (parse_v0 p sz want) (\<lambda>_. True)"
proof -
  have tab: "wp (parse_v0_tables p sz (v0_transaction_version h) (fd_txn_get_address_tables (v0_instr_cnt h))
      (v0_acct_addr_cnt h) j) (\<lambda>_. True)"
    if "v0_instr_cnt h \<le> 64" "(if v0_instr_cnt h = 0 then 0 else 1) < v0_acct_addr_cnt h"
      "v0_transaction_version h = FD_TXN_V0 \<longrightarrow> 103 + 32 * v0_acct_addr_cnt h + 3 * v0_instr_cnt h \<le> j" "j \<le> sz"
    for h j
    using that assms v0_out_fits [of "v0_acct_addr_cnt h" "v0_instr_cnt h"]
    by (intro wp_parse_v0_tables) (auto simp: fd_txn_get_address_tables_def)
  show ?thesis
    using assms
    by (auto simp: parse_v0_def wp split_beta intro!: wp_mono [OF wp_parse_v0_header] wp_mono [OF wp_parse_v0_instrs] tab)
qed

lemma wp_parse_payload: "wp (fd_txn_parse_payload p want) (\<lambda>_. True)"
proof (cases "p = []")
  case False
  have "wp (parse_v1 p (min (length p) 4096) want) (\<lambda>_. True)"
    by (auto simp: parse_v1_def wp split_beta intro!: wp_mono [OF wp_parse_v1_header]
        wp_mono [OF wp_parse_v1_instr_headers] wp_mono [OF wp_parse_v1_instr_payloads])
  moreover have "wp (parse_v0 p (min (length p) 1232) want) (\<lambda>_. True)"
    by (rule wp_parse_v0) simp_all
  ultimately show ?thesis
    using False by (simp add: parse_payload_eq)
qed (simp add: fd_txn_parse_payload_def)

text \<open>
  C3. For every byte string, with or without counters, whether it accepts or rejects, the
  transaction parser reads nothing outside the payload and stores nothing behind the first
  FD_TXN_MAX_SZ bytes of out_buf: neither an instruction nor a lookup-table entry, not even of a
  payload it later rejects.
\<close>

theorem fd_txn_parse_core_safe: "fd_txn_parse_core p counters_opt want_sz \<noteq> Ub"
  using wp_not_Ub [OF wp_parse_payload [of p want_sz]]
  by (auto simp: fd_txn_parse_core_def split: res.split prod.split)

subsection \<open>A parsed transaction stays inside its payload\<close>

definition instr_at :: "bytes \<Rightarrow> nat \<Rightarrow> fd_txn_instr \<Rightarrow> ainstr \<Rightarrow> bool" where
  "instr_at p n ins a \<longleftrightarrow> program_id ins = a_prog a \<and>
     unat (acct_cnt ins) = length (a_accts a) \<and> unat (data_sz ins) = length (a_data a) \<and>
     unat (acct_off ins) + length (a_accts a) \<le> n \<and> unat (data_off ins) + length (a_data a) \<le> n \<and>
     bytes_at p (unat (acct_off ins)) (a_accts a) \<and> bytes_at p (unat (data_off ins)) (a_data a)"

lemma lay_instr_at:
  assumes "bytes_at p i (enc_instr a)" "i + length (enc_instr a) \<le> n" "n < 65536"
  shows "instr_at p n (lay_instr i a) a"
proof -
  let ?o = "i + 1 + length (cu16 (length (a_accts a)))"
  let ?d = "?o + length (a_accts a) + length (cu16 (length (a_data a)))"
  have "unat (of_nat ?o :: u16) = ?o" "unat (of_nat ?d :: u16) = ?d"
    using assms by (simp_all only: enc_instr_def unat_of_nat_u16 length_append length_Cons)
  then show ?thesis
    using assms by (simp add: instr_at_def lay_instr_def Let_def enc_instr_def unat_of_nat_u16 del: of_nat_add of_nat_Suc)
qed

lemma lay_instrs_at:
  "bytes_at p i (concat (map enc_instr as)) \<Longrightarrow> i + length (concat (map enc_instr as)) \<le> n \<Longrightarrow> n < 65536 \<Longrightarrow>
     list_all2 (instr_at p n) (lay_instrs i as) as"
  by (induction as arbitrary: i) (simp_all add: lay_instr_at)

lemma lay_v1_instrs_at:
  "bytes_at p i (concat (map enc_instr_payload as)) \<Longrightarrow> i + length (concat (map enc_instr_payload as)) \<le> n \<Longrightarrow>
     n < 65536 \<Longrightarrow> list_all2 (instr_at p n) (lay_v1_instrs i as) as"
  by (induction as arbitrary: i)
    (simp_all add: enc_instr_payload_def instr_at_def unat_of_nat_u16 add.assoc flip: of_nat_add)

definition lut_at :: "bytes \<Rightarrow> nat \<Rightarrow> fd_txn_acct_addr_lut \<Rightarrow> alut \<Rightarrow> bool" where
  "lut_at p n lut l \<longleftrightarrow>
     unat (writable_cnt lut) = length (l_writable l) \<and> unat (readonly_cnt lut) = length (l_readonly l) \<and>
     unat (addr_off lut) + 32 \<le> n \<and> unat (writable_off lut) + length (l_writable l) \<le> n \<and>
     unat (readonly_off lut) + length (l_readonly l) \<le> n \<and> bytes_at p (unat (addr_off lut)) (l_addr l) \<and>
     bytes_at p (unat (writable_off lut)) (l_writable l) \<and> bytes_at p (unat (readonly_off lut)) (l_readonly l)"

lemma lay_lut_at:
  assumes "bytes_at p i (enc_lut l)" "i + length (enc_lut l) \<le> n" "n < 65536"
    and "length (l_addr l) = 32" "length (l_writable l) < 256" "length (l_readonly l) < 256"
  shows "lut_at p n (lay_lut i l) l"
proof -
  let ?w = "i + 32 + length (cu16 (length (l_writable l)))"
  let ?r = "?w + length (l_writable l) + length (cu16 (length (l_readonly l)))"
  have "unat (of_nat i :: u16) = i" "unat (of_nat ?w :: u16) = ?w" "unat (of_nat ?r :: u16) = ?r"
    using assms by (simp_all only: enc_lut_def unat_of_nat_u16 length_append)
  then show ?thesis
    using assms by (simp add: lut_at_def lay_lut_def Let_def enc_lut_def unat_of_nat_u8 del: of_nat_add)
qed

lemma lay_luts_at:
  "bytes_at p i (concat (map enc_lut ls)) \<Longrightarrow> i + length (concat (map enc_lut ls)) \<le> n \<Longrightarrow> n < 65536 \<Longrightarrow>
     (\<forall>l \<in> set ls. length (l_addr l) = 32 \<and> length (l_writable l) < 256 \<and> length (l_readonly l) < 256) \<Longrightarrow>
     list_all2 (lut_at p n) (lay_luts i ls) ls"
  by (induction ls arbitrary: i) (simp_all add: lay_lut_at)

text \<open>
  What the rest of the system relies on when it reads the payload through a descriptor: every
  field's bytes lie inside the first \<open>n\<close> bytes of the payload, the counts agree, every index that an
  instruction names is an account of the transaction.
\<close>

definition txn_instr_in_bounds :: "bytes \<Rightarrow> nat \<Rightarrow> nat \<Rightarrow> nat \<Rightarrow> fd_txn_instr \<Rightarrow> bool" where
  "txn_instr_in_bounds p n static naccts ins \<longleftrightarrow>
     0 < unat (program_id ins) \<and> unat (program_id ins) < static \<and> unat (acct_cnt ins) \<le> 255 \<and>
     unat (acct_off ins) + unat (acct_cnt ins) \<le> n \<and> unat (data_off ins) + unat (data_sz ins) \<le> n \<and>
     (\<forall>b \<in> set (take (unat (acct_cnt ins)) (drop (unat (acct_off ins)) p)). unat b < naccts)"

definition txn_lut_in_bounds :: "nat \<Rightarrow> fd_txn_acct_addr_lut \<Rightarrow> bool" where
  "txn_lut_in_bounds n lut \<longleftrightarrow>
     unat (addr_off lut) + 32 \<le> n \<and> unat (writable_off lut) + unat (writable_cnt lut) \<le> n \<and>
     unat (readonly_off lut) + unat (readonly_cnt lut) \<le> n \<and>
     1 \<le> unat (writable_cnt lut) + unat (readonly_cnt lut)"

definition txn_in_bounds :: "bytes \<Rightarrow> nat \<Rightarrow> fd_txn \<Rightarrow> bool" where
  "txn_in_bounds p n t \<longleftrightarrow>
     (let static = unat (acct_addr_cnt t); naccts = static + unat (addr_table_adtl_cnt t) in
      n \<le> length p \<and> 1 \<le> unat (signature_cnt t) \<and> unat (signature_cnt t) \<le> 12 \<and>
      unat (signature_off t) + 64 * unat (signature_cnt t) \<le> n \<and> unat (message_off t) < n \<and>
      unat (readonly_signed_cnt t) < unat (signature_cnt t) \<and>
      unat (signature_cnt t) + unat (readonly_unsigned_cnt t) \<le> static \<and> naccts \<le> 64 \<and>
      unat (acct_addr_off t) + 32 * static \<le> n \<and> unat (recent_blockhash_off t) + 32 \<le> n \<and>
      unat (v1_txn_config_values_off t) \<le> n \<and>
      length (instr t) = unat (instr_cnt t) \<and> unat (instr_cnt t) \<le> 64 \<and>
      list_all (txn_instr_in_bounds p n static naccts) (instr t) \<and>
      length (address_tables t) = unat (addr_table_lookup_cnt t) \<and>
      list_all (txn_lut_in_bounds n) (address_tables t) \<and>
      sum_list (map (unat \<circ> writable_cnt) (address_tables t)) = unat (addr_table_adtl_writable_cnt t) \<and>
      sum_list (map (\<lambda>l. unat (writable_cnt l) + unat (readonly_cnt l)) (address_tables t)) =
        unat (addr_table_adtl_cnt t))"

lemma adtl_writable_le: "adtl_writable ls \<le> adtl ls"
  by (induction ls) (auto simp: adtl_writable_def adtl_def)

lemma in_bounds_instrs:
  assumes "list_all2 (instr_at p n) is as"
    and "\<forall>a \<in> set as. 0 < unat (a_prog a) \<and> unat (a_prog a) < c \<and> length (a_accts a) \<le> 255 \<and>
           (\<forall>b \<in> set (a_accts a). unat b < k)"
  shows "list_all (txn_instr_in_bounds p n c k) is" and "length is = length as"
  using assms
  by (induction rule: list_all2_induct)
    (simp_all add: txn_instr_in_bounds_def instr_at_def bytes_at_eq)

lemma in_bounds_luts:
  assumes "list_all2 (lut_at p n) luts ls" "\<forall>l \<in> set ls. 1 \<le> length (l_writable l) + length (l_readonly l)"
  shows "list_all (txn_lut_in_bounds n) luts" and "length luts = length ls"
    and "sum_list (map (unat \<circ> writable_cnt) luts) = adtl_writable ls"
    and "sum_list (map (\<lambda>l. unat (writable_cnt l) + unat (readonly_cnt l)) luts) = adtl ls"
  using assms
  by (induction rule: list_all2_induct)
    (simp_all add: txn_lut_in_bounds_def lut_at_def adtl_def adtl_writable_def)

lemma layout_instrs_in_bounds:
  assumes m: "atxn_wf m" and p: "bytes_at p 0 (encode m)"
  shows "list_all2 (instr_at p (length (encode m))) (instr (layout m)) (a_instrs m)"
    and "list_all2 (lut_at p (length (encode m))) (address_tables (layout m)) (a_luts m)"
proof -
  have n: "length (encode m) < 65536"
    using m by (auto simp: atxn_wf_def split: if_splits)
  show "list_all2 (instr_at p (length (encode m))) (instr (layout m)) (a_instrs m)"
  proof (cases "a_version m = FD_TXN_V1")
    case True
    with p n show ?thesis
      by (auto simp: layout_def Let_def encode_def enc_v1_payloads_def intro!: lay_v1_instrs_at)
  next
    case False
    with p n show ?thesis
      by (auto simp: layout_def Let_def encode_def intro!: lay_instrs_at)
  qed
  have "length (l_writable l) < 256 \<and> length (l_readonly l) < 256" if "l \<in> set (a_luts m)" for l
    using lut_le_adtl [OF that] m by (auto simp: atxn_wf_def atxn_common_def)
  moreover have "length (l_addr l) = 32" if "l \<in> set (a_luts m)" for l
    using m that by (auto simp: atxn_wf_def atxn_luts_wf_def split: if_splits)
  moreover have "a_luts m = []" if "a_version m \<noteq> FD_TXN_V0"
    using m that by (auto simp: atxn_wf_def split: if_splits)
  ultimately show "list_all2 (lut_at p (length (encode m))) (address_tables (layout m)) (a_luts m)"
    using p n m
    by (cases "a_version m = FD_TXN_V0")
      (auto simp: layout_def Let_def encode_def enc_luts_def txn_consts intro!: lay_luts_at)
qed

lemma layout_offsets:
  assumes m: "atxn_wf m"
  shows "unat (signature_off (layout m)) + 64 * length (a_sigs m) \<le> length (encode m)"
    and "unat (message_off (layout m)) < length (encode m)"
    and "unat (acct_addr_off (layout m)) + 32 * length (a_addrs m) \<le> length (encode m)"
    and "unat (recent_blockhash_off (layout m)) + 32 \<le> length (encode m)"
    and "unat (v1_txn_config_values_off (layout m)) \<le> length (encode m)"
proof -
  have n: "length (encode m) \<le> 4096" "1 \<le> length (a_sigs m)"
    using m by (auto simp: atxn_wf_def atxn_common_def split: if_splits)
  have le: "unat (of_nat x :: u16) \<le> x" for x
    by (simp add: unat_of_nat)
  note len = length_encode_v0 [OF m] length_encode_v1 [OF m]
  show "unat (signature_off (layout m)) + 64 * length (a_sigs m) \<le> length (encode m)"
    using le [of "length (enc_v1_hd m (length (a_instrs m)) @ enc_v1_headers m) + length (enc_v1_payloads m)"] le [of "Suc 0"] len
    by (cases "a_version m = FD_TXN_V1") (simp_all add: layout_def Let_def del: of_nat_add of_nat_mult of_nat_Suc length_append)
  show "unat (message_off (layout m)) < length (encode m)"
    using le [of "1 + 64 * length (a_sigs m)"] len
    by (cases "a_version m = FD_TXN_V1") (simp_all add: layout_def Let_def del: of_nat_add of_nat_mult of_nat_Suc length_append)
  let ?a = "1 + 64 * length (a_sigs m) + length (enc_version (a_version m)) + 3 + length (cu16 (length (a_addrs m)))"
  show "unat (acct_addr_off (layout m)) + 32 * length (a_addrs m) \<le> length (encode m)"
    using le [of ?a] len by (cases "a_version m = FD_TXN_V1") (simp_all add: layout_def Let_def del: of_nat_add of_nat_mult of_nat_Suc length_append)
  show "unat (recent_blockhash_off (layout m)) + 32 \<le> length (encode m)"
    using le [of "?a + 32 * length (a_addrs m)"] len
    by (cases "a_version m = FD_TXN_V1") (simp_all add: layout_def Let_def del: of_nat_add of_nat_mult of_nat_Suc length_append)
  show "unat (v1_txn_config_values_off (layout m)) \<le> length (encode m)"
    using le [of "42 + 32 * length (a_addrs m)"] len
    by (cases "a_version m = FD_TXN_V1") (simp_all add: layout_def Let_def del: of_nat_add of_nat_mult of_nat_Suc length_append)
qed

lemma layout_counts:
  assumes m: "atxn_wf m"
  shows "unat (signature_cnt (layout m)) = length (a_sigs m)"
    and "unat (acct_addr_cnt (layout m)) = length (a_addrs m)"
    and "unat (instr_cnt (layout m)) = length (a_instrs m)"
    and "unat (addr_table_lookup_cnt (layout m)) = length (a_luts m)"
    and "unat (addr_table_adtl_writable_cnt (layout m)) = adtl_writable (a_luts m)"
    and "unat (addr_table_adtl_cnt (layout m)) = adtl (a_luts m)"
    and "readonly_signed_cnt (layout m) = a_ro_signed m" "readonly_unsigned_cnt (layout m) = a_ro_unsigned m"
    and "transaction_version (layout m) = a_version m"
proof -
  have "length (a_luts m) \<le> 127" "atxn_common m"
    using m by (auto simp: atxn_wf_def atxn_luts_wf_def split: if_splits)
  then show "unat (signature_cnt (layout m)) = length (a_sigs m)" "unat (acct_addr_cnt (layout m)) = length (a_addrs m)"
    "unat (instr_cnt (layout m)) = length (a_instrs m)" "unat (addr_table_lookup_cnt (layout m)) = length (a_luts m)"
    "unat (addr_table_adtl_writable_cnt (layout m)) = adtl_writable (a_luts m)"
    "unat (addr_table_adtl_cnt (layout m)) = adtl (a_luts m)"
    "readonly_signed_cnt (layout m) = a_ro_signed m" "readonly_unsigned_cnt (layout m) = a_ro_unsigned m"
    "transaction_version (layout m) = a_version m"
    using adtl_writable_le [of "a_luts m"]
    by (simp_all add: layout_def Let_def atxn_common_def unat_of_nat_u8 unat_of_nat_u16)
qed

lemma layout_in_bounds:
  assumes m: "atxn_wf m" and p: "bytes_at p 0 (encode m)"
  shows "txn_in_bounds p (length (encode m)) (layout m)"
proof -
  have wf: "atxn_common m" and luts: "\<forall>l \<in> set (a_luts m). 1 \<le> length (l_writable l) + length (l_readonly l)"
    using m by (auto simp: atxn_wf_def atxn_luts_wf_def split: if_splits)
  have len: "length (encode m) \<le> length p"
    using bytes_at_length [OF p encode_head(1) [OF m]] by simp
  note ins = layout_instrs_in_bounds [OF m p]
  have "list_all (txn_instr_in_bounds p (length (encode m)) (length (a_addrs m)) (length (a_addrs m) + adtl (a_luts m)))
      (instr (layout m))"
    using in_bounds_instrs(1) [OF ins(1)] wf by (simp add: atxn_common_def)
  then show ?thesis
    using wf len list_all2_lengthD [OF ins(1)] in_bounds_luts [OF ins(2) luts]
      layout_offsets [OF m] layout_counts [OF m]
    by (simp add: txn_in_bounds_def Let_def atxn_common_def)
qed

lemma layout_acct_counts:
  assumes "atxn_wf m"
  shows "acct_counts_ok (layout m)"
proof -
  have "atxn_common m" "a_version m \<noteq> FD_TXN_V0 \<Longrightarrow> a_luts m = []"
    using assms by (auto simp: atxn_wf_def split: if_splits)
  moreover have "addr_table_adtl_cnt (layout m) = 0" if "adtl (a_luts m) = 0"
    using layout_counts(6) [OF assms] that by simp
  ultimately show ?thesis
    using layout_counts [OF assms] adtl_writable_le [of "a_luts m"]
    by (auto simp: acct_counts_ok_def acct_total_def atxn_common_def FD_TXN_ACCT_ADDR_MAX_def adtl_def)
qed

definition sample_atxn :: atxn where
  "sample_atxn = \<lparr>a_version = FD_TXN_V0, a_sigs = [replicate 64 0], a_ro_signed = 0, a_ro_unsigned = 1,
     a_addrs = [replicate 32 1, replicate 32 2], a_blockhash = replicate 32 7,
     a_instrs = [\<lparr>a_prog = 1, a_accts = [0, 2], a_data = [9]\<rparr>],
     a_luts = [\<lparr>l_addr = replicate 32 3, l_writable = [5], l_readonly = []\<rparr>],
     a_config_mask = 0, a_config = []\<rparr>"

lemma sample_atxn_wf: "atxn_wf sample_atxn" "length (encode sample_atxn) = 209"
proof -
  show "length (encode sample_atxn) = 209"
    by (simp add: encode_def sample_atxn_def enc_hd_def enc_version_def enc_instr_def enc_luts_def enc_lut_def
        cu16_def fd_cu16_enc_def txn_consts)
  then show "atxn_wf sample_atxn"
    by (simp add: atxn_wf_def) (simp add: sample_atxn_def atxn_common_def atxn_luts_wf_def adtl_def txn_consts)
qed

lemma sample_parse:
  "fd_txn_parse_payload (encode sample_atxn) False = Ok (40, layout sample_atxn, 209)"
  using parse_payload_complete [OF sample_atxn_wf(1), of "encode sample_atxn" False] sample_atxn_wf(2)
  by (simp add: bytes_at_def) (simp add: sample_atxn_def fd_txn_footprint_def)

text \<open>
  C4. Every offset and count of a descriptor the parser returns stays inside the bytes it consumed:
  signatures, account addresses, block hash, instruction accounts and data, and address lookup
  tables; account indices are below the number of accounts, and the account counts satisfy the
  inequalities the account iterator relies on.
\<close>

theorem fd_txn_parse_in_bounds:
  assumes "fd_txn_parse_payload p want_sz = Ok (footprint, t, n)"
  shows "txn_in_bounds p n t \<and> acct_counts_ok t"
proof -
  obtain m where m: "atxn_wf m" "bytes_at p 0 (encode m)" "n = length (encode m)" "t = layout m"
    using parse_payload_msg [OF assms] by blast
  then show ?thesis
    using layout_in_bounds layout_acct_counts by simp
qed

theorem fd_txn_parse_in_bounds_witness:
  "fd_txn_parse_payload (encode sample_atxn) False = Ok (40, layout sample_atxn, 209) \<and>
   txn_in_bounds (encode sample_atxn) 209 (layout sample_atxn) \<and> acct_counts_ok (layout sample_atxn)"
  using fd_txn_parse_in_bounds [OF sample_parse] sample_parse by simp

text \<open>
  C5. A parsed transaction fits the size constants of the header: its footprint is at most
  FD_TXN_MAX_SZ, its serialised size lies between FD_TXN_MIN_SERIALIZED_SZ and FD_TXN_MTU, and
  legacy and V0 transactions are at most FD_TXN_MTU_V0.
\<close>

theorem fd_txn_parse_sizes:
  assumes "fd_txn_parse_payload p want_sz = Ok (footprint, t, n)"
  shows "footprint \<le> FD_TXN_MAX_SZ \<and> n \<le> FD_TXN_MTU \<and> FD_TXN_MIN_SERIALIZED_SZ \<le> n \<and>
    (transaction_version t \<noteq> FD_TXN_V1 \<longrightarrow> n \<le> FD_TXN_MTU_V0)"
proof -
  obtain m where m: "atxn_wf m" "n = length (encode m)" "t = layout m"
      "footprint = fd_txn_footprint (length (a_instrs m)) (length (a_luts m))"
    using parse_payload_msg [OF assms] by blast
  then show ?thesis
    using encode_sizes [OF m(1)] layout_counts(9) [OF m(1)]
    by (auto simp: atxn_wf_def txn_consts split: if_splits)
qed

theorem fd_txn_parse_sizes_witness:
  "fd_txn_parse_payload (encode sample_atxn) False = Ok (40, layout sample_atxn, 209) \<and>
   40 \<le> FD_TXN_MAX_SZ \<and> FD_TXN_MIN_SERIALIZED_SZ \<le> 209 \<and> 209 \<le> FD_TXN_MTU_V0"
proof -
  have "transaction_version (layout sample_atxn) \<noteq> FD_TXN_V1"
    by (simp add: layout_def sample_atxn_def Let_def txn_consts)
  then show ?thesis
    using fd_txn_parse_sizes [OF sample_parse] sample_parse by simp
qed

subsection \<open>Counters\<close>

text \<open>
  C8. Every call with counters whose failure ring has its 32 entries either succeeds, with a nonzero
  footprint, the descriptor and (if asked for) the consumed size, the success counter one higher
  modulo 2^64 and the failure counter and ring unchanged; or fails, with footprint zero, the failure
  counter one higher modulo 2^64, the success counter unchanged, and the source line of the failed
  check at the ring entry the old failure count names, the other entries unchanged.
\<close>

theorem fd_txn_parse_core_counts:
  assumes "length (failure_ring c) = FD_TXN_PARSE_COUNTERS_RING_SZ"
  shows "\<exists>footprint txn c' sz. fd_txn_parse_core p (Some c) want_sz = Ok (footprint, txn, Some c', sz) \<and>
    (case fd_txn_parse_payload p want_sz of
       Ok (fp, t, n) \<Rightarrow> footprint = fp \<and> fp \<noteq> 0 \<and> txn = Some t \<and> sz = (if want_sz then Some n else None) \<and>
         success_cnt c' = (success_cnt c + 1) mod 2 ^ 64 \<and> failure_cnt c' = failure_cnt c \<and>
         failure_ring c' = failure_ring c
     | Err line \<Rightarrow> footprint = 0 \<and> txn = None \<and> sz = None \<and>
         success_cnt c' = success_cnt c \<and> failure_cnt c' = (failure_cnt c + 1) mod 2 ^ 64 \<and>
         length (failure_ring c') = FD_TXN_PARSE_COUNTERS_RING_SZ \<and>
         (\<forall>k < FD_TXN_PARSE_COUNTERS_RING_SZ. failure_ring c' ! k =
            (if k = failure_cnt c mod FD_TXN_PARSE_COUNTERS_RING_SZ then line else failure_ring c ! k))
     | Ub \<Rightarrow> False)"
proof (cases "fd_txn_parse_payload p want_sz")
  case (Ok r)
  obtain fp t n where r: "r = (fp, t, n)"
    by (cases r)
  have "fp \<noteq> 0"
    using parse_payload_msg [of p want_sz fp t n] Ok r by (auto simp: fd_txn_footprint_def)
  then show ?thesis
    using Ok r by (simp add: fd_txn_parse_core_def count_success_def ulong_add_def)
next
  case (Err line)
  then show ?thesis
    using assms by (simp add: fd_txn_parse_core_def count_failure_def ulong_add_def nth_list_update)
next
  case Ub
  then show ?thesis
    using wp_not_Ub [OF wp_parse_payload [of p want_sz]] by simp
qed

theorem fd_txn_parse_core_counts_witness:
  "\<exists>c'. fd_txn_parse_core [] (Some \<lparr>success_cnt = 3, failure_cnt = 2 ^ 64 - 1, failure_ring = replicate 32 0\<rparr>) False =
      Ok (0, None, Some c', None) \<and> success_cnt c' = 3 \<and> failure_cnt c' = 0 \<and>
      failure_ring c' ! 31 = 94 \<and> failure_ring c' ! 1 = 0"
proof -
  let ?c = "\<lparr>success_cnt = 3, failure_cnt = 2 ^ 64 - 1, failure_ring = replicate 32 0\<rparr>"
  have err: "fd_txn_parse_payload [] False = Err 94"
    by (simp add: fd_txn_parse_payload_def)
  obtain c' where c': "fd_txn_parse_core [] (Some ?c) False = Ok (0, None, Some c', None)" "success_cnt c' = 3"
      "failure_cnt c' = 0"
      "\<forall>k < 32. failure_ring c' ! k = (if k = 31 then 94 else replicate 32 0 ! k)"
    using fd_txn_parse_core_counts [of ?c "[]" False]
    by (auto simp: err FD_TXN_PARSE_COUNTERS_RING_SZ_def)
  then show ?thesis
    by (intro exI [of _ c']) simp
qed

subsection \<open>Votes and V1 compute budget\<close>

lemma addr_at:
  assumes "bytes_at p i (concat as)" "\<forall>a \<in> set as. length a = 32" "k < length as"
  shows "bytes_at p (i + 32 * k) (as ! k)"
proof -
  have as: "as = take k as @ as ! k # drop (Suc k) as"
    using assms(3) by (rule id_take_nth_drop)
  have "length (concat (take k as)) = 32 * length (take k as)"
    using assms(2) by (intro length_concat_const) (meson in_set_takeD)
  moreover have "concat as = concat (take k as) @ as ! k @ concat (drop (Suc k) as)"
    by (subst as) simp
  ultimately show ?thesis
    using assms(1,3) by simp
qed

lemma addrs_at_layout:
  assumes m: "atxn_wf m" and p: "bytes_at p 0 (encode m)"
  shows "bytes_at p (unat (acct_addr_off (layout m))) (concat (a_addrs m))"
proof (cases "a_version m = FD_TXN_V1")
  case True
  have "unat (42 :: u16) = 42"
    by simp
  with True p m show ?thesis
    by (simp add: layout_def Let_def encode_def enc_v1_hd_def atxn_wf_def atxn_common_def)
next
  case False
  let ?o = "1 + 64 * length (a_sigs m) + length (enc_version (a_version m)) + 3 + length (cu16 (length (a_addrs m)))"
  have s: "length (concat (a_sigs m)) = 64 * length (a_sigs m)"
    using m by (intro length_concat_const) (simp add: atxn_wf_def atxn_common_def)
  have "?o < 65536"
    using length_encode_v0 [OF m False] m False by (simp add: atxn_wf_def)
  then have "unat (acct_addr_off (layout m)) = ?o"
    using False by (simp add: layout_def Let_def unat_of_nat_u16 del: of_nat_add of_nat_mult of_nat_Suc)
  then have off: "unat (acct_addr_off (layout m)) = Suc (Suc (Suc (Suc (64 * length (a_sigs m) + length (enc_version (a_version m)) +
      length (cu16 (length (a_addrs m)))))))"
    by simp
  show ?thesis
    unfolding off using False p s by (simp add: encode_def enc_hd_def)
qed

text \<open>
  C9. On a parsed payload fd_txn_is_simple_vote_transaction answers without any undefined operation,
  and answers yes exactly for a legacy message with at most two signatures and a single instruction
  whose program is the vote program.
\<close>

theorem fd_txn_is_simple_vote_transaction_spec:
  assumes "fd_txn_parse_payload p want_sz = Ok (footprint, t, n)"
  shows "\<exists>m. atxn_wf m \<and> take n p = encode m \<and> t = layout m \<and>
    fd_txn_is_simple_vote_transaction t p =
      Ok (a_version m = FD_TXN_VLEGACY \<and> length (a_sigs m) \<le> 2 \<and>
          (\<exists>a. a_instrs m = [a] \<and> a_addrs m ! unat (a_prog a) = vote_program_id))"
proof -
  obtain m where m: "atxn_wf m" "bytes_at p 0 (encode m)" "n = length (encode m)" "t = layout m"
    using parse_payload_msg [OF assms] by blast
  note cnt = layout_counts [OF m(1)]
  have "fd_txn_is_simple_vote_transaction t p = Ok (a_version m = FD_TXN_VLEGACY \<and> length (a_sigs m) \<le> 2 \<and>
          (\<exists>a. a_instrs m = [a] \<and> a_addrs m ! unat (a_prog a) = vote_program_id))"
  proof (cases "\<exists>a. a_instrs m = [a]")
    case True
    then obtain a where a: "a_instrs m = [a]" ..
    then obtain ins where ins: "instr (layout m) = [ins]" "program_id ins = a_prog a"
      using layout_instrs_in_bounds(1) [OF m(1,2)] by (auto simp: instr_at_def list_all2_Cons2)
    have pr: "unat (a_prog a) < length (a_addrs m)" "length (a_addrs m ! unat (a_prog a)) = 32"
      and ad: "\<forall>x \<in> set (a_addrs m). length x = 32"
      using m(1) a by (auto simp: atxn_wf_def atxn_common_def)
    note at = addr_at [OF addrs_at_layout [OF m(1,2)] ad pr(1)]
    have "unat (acct_addr_off (layout m)) + 32 * unat (a_prog a) + 32 \<le> length p"
      using bytes_at_length [OF at] pr(2) by (cases "a_addrs m ! unat (a_prog a)") auto
    moreover have "take 32 (drop (unat (acct_addr_off (layout m)) + 32 * unat (a_prog a)) p) = a_addrs m ! unat (a_prog a)"
      using bytes_at_eq [OF at] pr by simp
    ultimately show ?thesis
      using a ins cnt
      by (auto simp: fd_txn_is_simple_vote_transaction_def Let_def m(4) fd_txn_get_acct_addrs_def FD_TXN_ACCT_ADDR_SZ_def
          MEMEQ_def vote_program_id_def)
  next
    case False
    then have "length (a_instrs m) \<noteq> 1"
      by (auto simp: length_Suc_conv)
    with False cnt show ?thesis
      by (auto simp: fd_txn_is_simple_vote_transaction_def m(4) Let_def)
  qed
  then show ?thesis
    using m by (auto simp: bytes_at_def)
qed

text \<open>The value of the config field for bit \<open>k\<close>, \<open>w\<close> bytes wide: fields are stored in the order of their bits.\<close>

definition config_at :: "atxn \<Rightarrow> nat \<Rightarrow> nat \<Rightarrow> nat" where
  "config_at m k w =
     le_nat (take w (drop (4 * length (filter (bit (a_config_mask m)) [0..<k])) (concat (a_config m))))"

lemma mask_1f_popcnt:
  fixes x :: u32
  assumes "x AND NOT 0x1F = 0"
  shows "fd_uint_popcnt x = length (filter (bit x) [0..<5])"
proof -
  have m: "0x1F = (mask 5 :: u32)"
    by (simp add: mask_eq_exp_minus_1)
  have "\<not> bit x n" if "5 \<le> n" "n < 32" for n
  proof -
    have "\<not> bit (x AND NOT (mask 5)) n"
      using assms unfolding m by simp
    then show ?thesis
      using that by (simp add: bit_and_iff bit_not_iff bit_mask_iff)
  qed
  then have "filter (bit x) [5..<32] = []"
    by (auto simp: filter_empty_conv)
  moreover have "[0..<32] = [0..<5] @ [5..<32]"
    using upt_add_eq_append [of 0 5 27] by simp
  ultimately show ?thesis
    by (simp add: fd_uint_popcnt_def)
qed

lemma upt_bits: "[0..<2] = [0, 1]" "[0..<3] = [0, 1, 2]" "[0..<4] = [0, 1, 2, 3]" "[0..<5] = [0, 1, 2, 3, 4]"
  by (simp_all add: upt_rec)

lemma LOAD_at:
  assumes "bytes_at p i cs" "v + sz \<le> length cs" "0 < sz"
  shows "LOAD sz p (i + v) f = f (le_nat (take sz (drop v cs)))"
proof -
  have len: "i + length cs \<le> length p"
    using assms by (intro bytes_at_length) auto
  have "take sz (drop (i + v) p) = take sz (drop v (take (length cs) (drop i p)))"
    using assms(2) by (simp add: drop_take add.commute min_def)
  also have "\<dots> = take sz (drop v cs)"
    using assms(1) by (simp add: bytes_at_def)
  finally show ?thesis
    using len assms(2) by (simp add: LOAD_def)
qed

lemma config_at_layout:
  assumes m: "atxn_wf m" "a_version m = FD_TXN_V1" and p: "bytes_at p 0 (encode m)"
  shows "bytes_at p (unat (v1_txn_config_values_off (layout m))) (concat (a_config m))"
proof -
  have a: "length (concat (a_addrs m)) = 32 * length (a_addrs m)" "length (a_addrs m) \<le> 64"
    using m length_concat_const [of "a_addrs m" 32] by (simp_all add: atxn_wf_def atxn_common_def)
  have "unat (of_nat (42 + 32 * length (a_addrs m)) :: u16) = 42 + 32 * length (a_addrs m)"
    using a(2) by (intro unat_of_nat_u16) simp
  then have off: "unat (v1_txn_config_values_off (layout m)) = 42 + 32 * length (a_addrs m)"
    using m(2) by (simp add: layout_def Let_def del: of_nat_add of_nat_mult)
  show ?thesis
    unfolding off using p m a by (simp add: encode_def enc_v1_hd_def atxn_wf_def atxn_common_def)
qed

text \<open>
  C10. For a serialised V1 message, fd_txn_parse_v1_config returns exactly the four configuration
  values the message carries for the set bits of its configuration mask, with the default value for
  each absent field.
\<close>

theorem fd_txn_parse_v1_config_spec:
  assumes "atxn_wf m" "a_version m = FD_TXN_V1" "take n p = encode m"
  shows "fd_txn_parse_v1_config (a_config_mask m) p (unat (v1_txn_config_values_off (layout m))) =
      Ok (if bit (a_config_mask m) 0 then config_at m 0 8 else 0,
          if bit (a_config_mask m) 2 then config_at m 2 4 else 0,
          if bit (a_config_mask m) 3 then config_at m 3 4 else 0,
          if bit (a_config_mask m) 4 then config_at m 4 4 else FD_TXN_V1_DEFAULT_HEAP_SZ)"
proof -
  let ?x = "a_config_mask m" and ?cs = "concat (a_config m)" and ?o = "unat (v1_txn_config_values_off (layout m))"
  have "p = encode m @ drop n p"
    using assms(3) by (metis append_take_drop_id)
  then have at: "bytes_at p ?o ?cs"
    using config_at_layout [OF assms(1,2)] by (metis bytes_at_0)
  have wf: "?x AND NOT 0x1F = 0" "bit ?x 0 = bit ?x 1" and cfg: "length (a_config m) = fd_uint_popcnt ?x" "\<forall>c \<in> set (a_config m). length c = 4"
    using assms(1,2) by (simp_all add: atxn_wf_def atxn_config_wf_def)
  then have len: "length ?cs = 4 * length (filter (bit ?x) [0..<5])"
    using length_concat_const [of "a_config m" 4] mask_1f_popcnt [OF wf(1)] by simp
  have bits: "(?x AND 1 \<noteq> 0) = bit ?x 0" "(drop_bit k ?x AND 1 \<noteq> 0) = bit ?x k" for k
    using drop_bit_and_1 [of 0 ?x] drop_bit_and_1 [of k ?x] by simp_all
  note ld = LOAD_at [OF at, simplified add.commute [of ?o]] LOAD_at [OF at, of 0, simplified]
  show ?thesis
    unfolding fd_txn_parse_v1_config_def bits config_at_def V1_FIELD_def
    using len wf(2)
    by (cases "bit ?x 0"; cases "bit ?x 2"; cases "bit ?x 3"; cases "bit ?x 4")
      (simp_all add: ld upt_bits add.commute [of ?o])
qed

theorem fd_txn_is_simple_vote_transaction_spec_witness:
  "fd_txn_parse_payload (encode sample_atxn) False = Ok (40, layout sample_atxn, 209) \<and>
   (\<exists>m. atxn_wf m \<and> take 209 (encode sample_atxn) = encode m \<and> layout sample_atxn = layout m \<and>
      fd_txn_is_simple_vote_transaction (layout sample_atxn) (encode sample_atxn) =
        Ok (a_version m = FD_TXN_VLEGACY \<and> length (a_sigs m) \<le> 2 \<and>
          (\<exists>a. a_instrs m = [a] \<and> a_addrs m ! unat (a_prog a) = vote_program_id)))"
  using fd_txn_is_simple_vote_transaction_spec [OF sample_parse] sample_parse by simp

definition sample_v1_atxn :: atxn where
  "sample_v1_atxn = \<lparr>a_version = FD_TXN_V1, a_sigs = [replicate 64 0], a_ro_signed = 0, a_ro_unsigned = 1,
     a_addrs = [replicate 32 1, replicate 32 2], a_blockhash = replicate 32 7,
     a_instrs = [\<lparr>a_prog = 1, a_accts = [0], a_data = [9]\<rparr>], a_luts = [],
     a_config_mask = 0x14, a_config = [[0x40, 0x0D, 0x03, 0x00], [0x00, 0x80, 0x00, 0x00]]\<rparr>"

lemma sample_v1_atxn_wf: "atxn_wf sample_v1_atxn"
proof -
  have l: "length (encode sample_v1_atxn) \<le> 4096"
    by (simp add: encode_def sample_v1_atxn_def enc_v1_hd_def enc_v1_headers_def enc_v1_payloads_def enc_instr_payload_def)
  have bits: "\<not> bit (0x14 :: u32) 0" "\<not> bit (0x14 :: u32) 1" "bit (0x14 :: u32) 2" "\<not> bit (0x14 :: u32) 3" "bit (0x14 :: u32) 4"
    by (simp_all add: bit_iff_odd_drop_bit)
  then have "fd_uint_popcnt 0x14 = 2"
    using mask_1f_popcnt [of "0x14"] by (simp add: upt_bits)
  with bits l show ?thesis
    unfolding atxn_wf_def atxn_common_def atxn_config_wf_def Let_def
    by (simp add: sample_v1_atxn_def adtl_def txn_consts)
qed

theorem fd_txn_parse_v1_config_spec_witness:
  "atxn_wf sample_v1_atxn \<and>
   fd_txn_parse_v1_config 0x14 (encode sample_v1_atxn) (unat (v1_txn_config_values_off (layout sample_v1_atxn))) =
     Ok (0, 200000, 0, 32768)"
proof -
  have v: "a_version sample_v1_atxn = FD_TXN_V1" "a_config_mask sample_v1_atxn = 0x14"
    by (simp_all add: sample_v1_atxn_def)
  have bits: "\<not> bit (0x14 :: u32) 0" "\<not> bit (0x14 :: u32) 1" "bit (0x14 :: u32) 2" "\<not> bit (0x14 :: u32) 3" "bit (0x14 :: u32) 4"
    by (simp_all add: bit_iff_odd_drop_bit)
  have "config_at sample_v1_atxn 2 4 = 200000" "config_at sample_v1_atxn 4 4 = 32768"
    using bits by (simp_all add: config_at_def v upt_bits) (simp_all add: sample_v1_atxn_def)
  then show ?thesis
    using fd_txn_parse_v1_config_spec [OF sample_v1_atxn_wf v(1), of "length (encode sample_v1_atxn)" "encode sample_v1_atxn"]
      bits sample_v1_atxn_wf by (simp add: v)
qed

end
