(* ===== verification/Keyguard_Match.thy ===== *)
theory Keyguard_Match
  imports Txn_Correct
begin

text \<open>
  The payload fingerprinting of the keyguard, \<open>src/src/disco/keyguard/fd_keyguard_match.c\<close>: one
  predicate per payload type that may be put to the identity key for signing, and the mask of all
  types a payload matches.  A payload is a byte buffer and the size the caller states for it.  The
  predicates return an \<open>int\<close> in C, modelled as a \<open>bool\<close> inside \<open>res\<close> because they read the
  buffer.
\<close>

subsection \<open>Constants\<close>

definition FD_KEYGUARD_SIGN_TYPE_ED25519 :: int where
  "FD_KEYGUARD_SIGN_TYPE_ED25519 = 0"

definition FD_KEYGUARD_SIGN_TYPE_SHA256_ED25519 :: int where
  "FD_KEYGUARD_SIGN_TYPE_SHA256_ED25519 = 1"

definition FD_KEYGUARD_SIGN_TYPE_PUBKEY_CONCAT_ED25519 :: int where
  "FD_KEYGUARD_SIGN_TYPE_PUBKEY_CONCAT_ED25519 = 2"

definition FD_KEYGUARD_PAYLOAD_TXN :: u64 where
  "FD_KEYGUARD_PAYLOAD_TXN = push_bit 0 1"

definition FD_KEYGUARD_PAYLOAD_GOSSIP :: u64 where
  "FD_KEYGUARD_PAYLOAD_GOSSIP = push_bit 1 1"

definition FD_KEYGUARD_PAYLOAD_PRUNE :: u64 where
  "FD_KEYGUARD_PAYLOAD_PRUNE = push_bit 2 1"

definition FD_KEYGUARD_PAYLOAD_SHRED :: u64 where
  "FD_KEYGUARD_PAYLOAD_SHRED = push_bit 3 1"

definition FD_KEYGUARD_PAYLOAD_TLS_CV :: u64 where
  "FD_KEYGUARD_PAYLOAD_TLS_CV = push_bit 4 1"

definition FD_KEYGUARD_PAYLOAD_REPAIR :: u64 where
  "FD_KEYGUARD_PAYLOAD_REPAIR = push_bit 6 1"

definition FD_KEYGUARD_PAYLOAD_PING :: u64 where
  "FD_KEYGUARD_PAYLOAD_PING = push_bit 7 1"

definition FD_KEYGUARD_PAYLOAD_BUNDLE :: u64 where
  "FD_KEYGUARD_PAYLOAD_BUNDLE = push_bit 8 1"

definition FD_KEYGUARD_PAYLOAD_EVENT :: u64 where
  "FD_KEYGUARD_PAYLOAD_EVENT = push_bit 9 1"

definition FD_KEYGUARD_PAYLOAD_PONG :: u64 where
  "FD_KEYGUARD_PAYLOAD_PONG = push_bit 10 1"

definition FD_KEYGUARD_PAYLOAD_BAM_AUTH :: u64 where
  "FD_KEYGUARD_PAYLOAD_BAM_AUTH = push_bit 11 1"

lemmas sign_type_defs = FD_KEYGUARD_SIGN_TYPE_ED25519_def FD_KEYGUARD_SIGN_TYPE_SHA256_ED25519_def
  FD_KEYGUARD_SIGN_TYPE_PUBKEY_CONCAT_ED25519_def

lemmas payload_defs = FD_KEYGUARD_PAYLOAD_TXN_def FD_KEYGUARD_PAYLOAD_GOSSIP_def
  FD_KEYGUARD_PAYLOAD_PRUNE_def FD_KEYGUARD_PAYLOAD_SHRED_def FD_KEYGUARD_PAYLOAD_TLS_CV_def
  FD_KEYGUARD_PAYLOAD_REPAIR_def FD_KEYGUARD_PAYLOAD_PING_def FD_KEYGUARD_PAYLOAD_BUNDLE_def
  FD_KEYGUARD_PAYLOAD_EVENT_def FD_KEYGUARD_PAYLOAD_PONG_def FD_KEYGUARD_PAYLOAD_BAM_AUTH_def

definition FD_GOSSIP_VALUE_CNT :: nat where
  "FD_GOSSIP_VALUE_CNT = 14"

definition FD_REPAIR_KIND_SHRED :: nat where
  "FD_REPAIR_KIND_SHRED = 8"

definition FD_REPAIR_KIND_HIGHEST_SHRED :: nat where
  "FD_REPAIR_KIND_HIGHEST_SHRED = 9"

definition FD_REPAIR_KIND_ORPHAN :: nat where
  "FD_REPAIR_KIND_ORPHAN = 10"

definition AG_REPAIR_KIND_PARENT_FEC_COUNT :: nat where
  "AG_REPAIR_KIND_PARENT_FEC_COUNT = 12"

definition AG_REPAIR_KIND_FEC_ROOT :: nat where
  "AG_REPAIR_KIND_FEC_ROOT = 13"

definition AG_REPAIR_KIND_SHRED_FOR_BLOCK_ID :: nat where
  "AG_REPAIR_KIND_SHRED_FOR_BLOCK_ID = 14"

lemmas kind_defs = FD_GOSSIP_VALUE_CNT_def FD_REPAIR_KIND_SHRED_def FD_REPAIR_KIND_HIGHEST_SHRED_def
  FD_REPAIR_KIND_ORPHAN_def AG_REPAIR_KIND_PARENT_FEC_COUNT_def AG_REPAIR_KIND_FEC_ROOT_def
  AG_REPAIR_KIND_SHRED_FOR_BLOCK_ID_def

text \<open>The bytes of a C string literal, without its terminating zero.\<close>

definition cstr :: "string \<Rightarrow> bytes" where
  "cstr s = map of_char s"

definition ping_prefix :: bytes where
  "ping_prefix = cstr ''SOLANA_PING_PONG''"

definition prune_prefix :: bytes where
  "prune_prefix = 0xFF # cstr ''SOLANA_PRUNE_DATA''"

definition client_prefix :: bytes where
  "client_prefix = replicate 64 0x20 @ cstr ''TLS 1.3, client CertificateVerify'' @ [0]"

definition server_prefix :: bytes where
  "server_prefix = replicate 64 0x20 @ cstr ''TLS 1.3, server CertificateVerify'' @ [0]"

definition event_prefix :: bytes where
  "event_prefix = replicate 64 0x20 @ cstr ''Firedancer event challenge-response'' @ [0]"

definition FD_BAM_AUTH_LABEL :: bytes where
  "FD_BAM_AUTH_LABEL = cstr ''X_OFF_CHAIN_JITO_BAM_V1'' @ [0]"

definition FD_BAM_AUTH_LABEL_LEN :: nat where
  "FD_BAM_AUTH_LABEL_LEN = 24"

definition FD_BAM_MAX_AUTH_CHALLENGE_SZ :: nat where
  "FD_BAM_MAX_AUTH_CHALLENGE_SZ = 128"

subsection \<open>The fingerprints\<close>

definition txn_msg_min_sz :: nat where
  "txn_msg_min_sz = FD_TXN_MIN_SERIALIZED_SZ - 1 - 64"

text \<open>
  The branch for V1 messages, entered with the cursor behind the version byte, and the part after
  the signature count that legacy and V0 messages share.
\<close>

definition matches_txn_msg_v1 :: "bytes \<Rightarrow> nat \<Rightarrow> nat \<Rightarrow> bool res" where
  "matches_txn_msg_v1 data sz cursor =
     READ data cursor (\<lambda>sig_cnt.
     if unat sig_cnt = 0 then Ok False
     else if unat sig_cnt > FD_TXN_SIG_MAX then Ok False
     else let cursor = cursor + 1 + 1 + 1 + 4 + FD_TXN_BLOCKHASH_SZ in
     if cursor + 2 > sz then Ok False
     else READ data cursor (\<lambda>instr_cnt. READ data (cursor + 1) (\<lambda>addr_cnt.
     if unat instr_cnt > FD_TXN_INSTR_MAX then Ok False
     else if unat addr_cnt > FD_TXN_ACCT_ADDR_MAX then Ok False
     else if unat sig_cnt > unat addr_cnt then Ok False
     else Ok True)))"

definition matches_txn_msg_tail :: "bytes \<Rightarrow> nat \<Rightarrow> nat \<Rightarrow> nat \<Rightarrow> bool res" where
  "matches_txn_msg_tail data sz cursor sig_cnt =
     (if sig_cnt = 0 then Ok False
      else if sig_cnt * 64 \<ge> 2 ^ 64 then Ok False
      else if sig_cnt * 64 > FD_TXN_MTU_V0 - txn_msg_min_sz then Ok False
      else let cursor = cursor + 1 + 1 in
      if cursor + 3 > sz then Ok False
      else rbind (fd_cu16_dec_sz data cursor 3) (\<lambda>addr_cnt_sz.
      if addr_cnt_sz = 0 then Ok False
      else rbind (fd_cu16_dec_fixed data cursor addr_cnt_sz) (\<lambda>addr_cnt.
      if sig_cnt > unat addr_cnt then Ok False else Ok True)))"

definition fd_keyguard_payload_matches_txn_msg :: "bytes \<Rightarrow> nat \<Rightarrow> int \<Rightarrow> bool res" where
  "fd_keyguard_payload_matches_txn_msg data sz sign_type =
     (if sign_type \<noteq> FD_KEYGUARD_SIGN_TYPE_ED25519 then Ok False
      else if sz < txn_msg_min_sz then Ok False
      else READ data 0 (\<lambda>header_b0.
        if header_b0 AND 0x80 \<noteq> 0 then
          (let version = header_b0 AND 0x7F in
           if version \<noteq> FD_TXN_V0 \<and> version \<noteq> FD_TXN_V1 then Ok False
           else if version = FD_TXN_V1 then matches_txn_msg_v1 data sz 1
           else READ data 1 (\<lambda>sig_cnt. matches_txn_msg_tail data sz 2 (unat sig_cnt)))
        else matches_txn_msg_tail data sz 1 (unat header_b0)))"

definition fd_keyguard_payload_matches_ping_msg :: "bytes \<Rightarrow> nat \<Rightarrow> int \<Rightarrow> bool res" where
  "fd_keyguard_payload_matches_ping_msg data sz sign_type =
     (if sign_type = FD_KEYGUARD_SIGN_TYPE_ED25519 \<and> sz = 32
      then MEMEQ data 0 ping_prefix 16 Ok else Ok False)"

definition fd_keyguard_payload_matches_pong_msg :: "bytes \<Rightarrow> nat \<Rightarrow> int \<Rightarrow> bool res" where
  "fd_keyguard_payload_matches_pong_msg data sz sign_type =
     (if sign_type = FD_KEYGUARD_SIGN_TYPE_SHA256_ED25519 \<and> sz = 48
      then MEMEQ data 0 ping_prefix 16 Ok else Ok False)"

definition fd_keyguard_payload_matches_prune_data :: "bytes \<Rightarrow> nat \<Rightarrow> int \<Rightarrow> bool res" where
  "fd_keyguard_payload_matches_prune_data data sz sign_type =
     (if sign_type \<noteq> FD_KEYGUARD_SIGN_TYPE_ED25519 then Ok False
      else let static_sz = 106 in
      if sz < static_sz then Ok False
      else LOAD 8 data 0 (\<lambda>n.
      if n \<noteq> 18 then Ok False
      else MEMEQ data 8 prune_prefix 18 (\<lambda>eq.
      if \<not> eq then Ok False
      else LOAD 8 data 58 (\<lambda>prune_cnt.
      if prune_cnt * 32 \<ge> 2 ^ 64 then Ok False
      else if prune_cnt * 32 + static_sz \<ge> 2 ^ 64 then Ok False
      else if sz \<noteq> prune_cnt * 32 + static_sz then Ok False
      else Ok True))))"

definition fd_keyguard_payload_matches_gossip :: "bytes \<Rightarrow> nat \<Rightarrow> int \<Rightarrow> bool res" where
  "fd_keyguard_payload_matches_gossip data sz sign_type =
     (if sign_type \<noteq> FD_KEYGUARD_SIGN_TYPE_ED25519 then Ok False
      else if sz < 36 then Ok False
      else LOAD 4 data 0 (\<lambda>tag. Ok (tag < FD_GOSSIP_VALUE_CNT)))"

definition fd_keyguard_payload_matches_repair :: "bytes \<Rightarrow> nat \<Rightarrow> int \<Rightarrow> bool res" where
  "fd_keyguard_payload_matches_repair data sz sign_type =
     (if sign_type \<noteq> FD_KEYGUARD_SIGN_TYPE_ED25519 then Ok False
      else if sz < 36 then Ok False
      else LOAD 4 data 0 (\<lambda>kind.
        if kind = FD_REPAIR_KIND_SHRED \<or> kind = FD_REPAIR_KIND_HIGHEST_SHRED \<or>
           kind = FD_REPAIR_KIND_ORPHAN \<or> kind = AG_REPAIR_KIND_PARENT_FEC_COUNT \<or>
           kind = AG_REPAIR_KIND_FEC_ROOT \<or> kind = AG_REPAIR_KIND_SHRED_FOR_BLOCK_ID
        then Ok True else Ok False))"

definition fd_keyguard_payload_matches_shred :: "bytes \<Rightarrow> nat \<Rightarrow> int \<Rightarrow> bool res" where
  "fd_keyguard_payload_matches_shred data sz sign_type =
     (if sign_type \<noteq> FD_KEYGUARD_SIGN_TYPE_ED25519 then Ok False
      else if sz \<noteq> 32 then Ok False else Ok True)"

definition fd_keyguard_payload_matches_tls_cv :: "bytes \<Rightarrow> nat \<Rightarrow> int \<Rightarrow> bool res" where
  "fd_keyguard_payload_matches_tls_cv data sz sign_type =
     (if sign_type \<noteq> FD_KEYGUARD_SIGN_TYPE_ED25519 then Ok False
      else if sz \<noteq> 130 \<and> sz \<noteq> 146 \<and> sz \<noteq> 162 then Ok False
      else MEMEQ data 0 client_prefix 98 (\<lambda>is_client.
           MEMEQ data 0 server_prefix 98 (\<lambda>is_server. Ok (is_client \<or> is_server))))"

definition fd_keyguard_payload_matches_bundle :: "bytes \<Rightarrow> nat \<Rightarrow> int \<Rightarrow> bool res" where
  "fd_keyguard_payload_matches_bundle data sz sign_type =
     (if sign_type \<noteq> FD_KEYGUARD_SIGN_TYPE_PUBKEY_CONCAT_ED25519 then Ok False
      else if sz \<noteq> 9 then Ok False else Ok True)"

definition fd_keyguard_payload_matches_event :: "bytes \<Rightarrow> nat \<Rightarrow> int \<Rightarrow> bool res" where
  "fd_keyguard_payload_matches_event data sz sign_type =
     (if sz \<noteq> 100 + 217 then Ok False
      else if sign_type \<noteq> FD_KEYGUARD_SIGN_TYPE_ED25519 then Ok False
      else MEMEQ data 0 event_prefix 100 (\<lambda>eq. if \<not> eq then Ok False else Ok True))"

definition fd_keyguard_payload_matches_bam_auth :: "bytes \<Rightarrow> nat \<Rightarrow> int \<Rightarrow> bool res" where
  "fd_keyguard_payload_matches_bam_auth data sz sign_type =
     (if sign_type \<noteq> FD_KEYGUARD_SIGN_TYPE_ED25519 then Ok False
      else if sz \<le> FD_BAM_AUTH_LABEL_LEN then Ok False
      else if sz > FD_BAM_AUTH_LABEL_LEN + FD_BAM_MAX_AUTH_CHALLENGE_SZ then Ok False
      else MEMEQ data 0 FD_BAM_AUTH_LABEL FD_BAM_AUTH_LABEL_LEN (\<lambda>eq.
        if \<not> eq then Ok False else Ok True))"

definition fd_ulong_if :: "bool \<Rightarrow> u64 \<Rightarrow> u64 \<Rightarrow> u64" where
  "fd_ulong_if c a b = (if c then a else b)"

definition fd_keyguard_payload_match :: "bytes \<Rightarrow> nat \<Rightarrow> int \<Rightarrow> u64 res" where
  "fd_keyguard_payload_match data sz sign_type =
     rbind (fd_keyguard_payload_matches_txn_msg data sz sign_type) (\<lambda>txn.
     rbind (fd_keyguard_payload_matches_gossip data sz sign_type) (\<lambda>gossip.
     rbind (fd_keyguard_payload_matches_repair data sz sign_type) (\<lambda>repair.
     rbind (fd_keyguard_payload_matches_prune_data data sz sign_type) (\<lambda>prune.
     rbind (fd_keyguard_payload_matches_shred data sz sign_type) (\<lambda>shred.
     rbind (fd_keyguard_payload_matches_tls_cv data sz sign_type) (\<lambda>tls_cv.
     rbind (fd_keyguard_payload_matches_ping_msg data sz sign_type) (\<lambda>ping.
     rbind (fd_keyguard_payload_matches_pong_msg data sz sign_type) (\<lambda>pong.
     rbind (fd_keyguard_payload_matches_bundle data sz sign_type) (\<lambda>bundle.
     rbind (fd_keyguard_payload_matches_event data sz sign_type) (\<lambda>event.
     rbind (fd_keyguard_payload_matches_bam_auth data sz sign_type) (\<lambda>bam_auth.
     Ok (fd_ulong_if txn FD_KEYGUARD_PAYLOAD_TXN 0 OR fd_ulong_if gossip FD_KEYGUARD_PAYLOAD_GOSSIP 0 OR
         fd_ulong_if repair FD_KEYGUARD_PAYLOAD_REPAIR 0 OR fd_ulong_if prune FD_KEYGUARD_PAYLOAD_PRUNE 0 OR
         fd_ulong_if shred FD_KEYGUARD_PAYLOAD_SHRED 0 OR fd_ulong_if tls_cv FD_KEYGUARD_PAYLOAD_TLS_CV 0 OR
         fd_ulong_if ping FD_KEYGUARD_PAYLOAD_PING 0 OR fd_ulong_if pong FD_KEYGUARD_PAYLOAD_PONG 0 OR
         fd_ulong_if bundle FD_KEYGUARD_PAYLOAD_BUNDLE 0 OR fd_ulong_if event FD_KEYGUARD_PAYLOAD_EVENT 0 OR
         fd_ulong_if bam_auth FD_KEYGUARD_PAYLOAD_BAM_AUTH 0))))))))))))"

subsection \<open>What each fingerprint accepts\<close>

lemma prefix_lengths [simp]:
  "length ping_prefix = 16" "length prune_prefix = 18" "length client_prefix = 98"
  "length server_prefix = 98" "length event_prefix = 100" "length FD_BAM_AUTH_LABEL = 24"
  by (simp_all add: ping_prefix_def prune_prefix_def client_prefix_def server_prefix_def
      event_prefix_def FD_BAM_AUTH_LABEL_def cstr_def)

lemma prefix_hds:
  "ping_prefix ! 0 = 0x53" "client_prefix ! 0 = 0x20" "server_prefix ! 0 = 0x20"
  "event_prefix ! 0 = 0x20" "FD_BAM_AUTH_LABEL ! 0 = 0x58"
  by (simp_all add: ping_prefix_def client_prefix_def server_prefix_def
      event_prefix_def FD_BAM_AUTH_LABEL_def cstr_def nth_append nth_Cons')

lemma take_eq_nth0: "take n xs = ys \<Longrightarrow> 0 < n \<Longrightarrow> n \<le> length xs \<Longrightarrow> xs ! 0 = ys ! 0"
  by (metis nth_take)

definition tail_like :: "bytes \<Rightarrow> nat \<Rightarrow> nat \<Rightarrow> bool" where
  "tail_like data cursor sig_cnt \<longleftrightarrow> 1 \<le> sig_cnt \<and> sig_cnt \<le> 18 \<and> cursor + 5 \<le> length data \<and>
     (case cu16_at data (cursor + 2) 3 of None \<Rightarrow> False | Some (_, v) \<Rightarrow> sig_cnt \<le> v)"

lemma tail_eq:
  "matches_txn_msg_tail data (length data) cursor sig_cnt = Ok (tail_like data cursor sig_cnt)"
proof (cases "1 \<le> sig_cnt \<and> sig_cnt \<le> 18 \<and> cursor + 5 \<le> length data")
  case True
  then have len: "cursor + 2 + 3 \<le> length data" and sz: "sig_cnt * 64 < 2 ^ 64"
    by simp_all
  show ?thesis
  proof (cases "cu16_at data (cursor + 2) 3")
    case None
    then show ?thesis
      using True sz fd_cu16_dec_sz_eq [OF len]
      by (simp add: matches_txn_msg_tail_def tail_like_def txn_msg_min_sz_def txn_consts)
  next
    case (Some a)
    then obtain n v where nv: "cu16_at data (cursor + 2) 3 = Some (n, v)"
      by (cases a) simp
    then have "1 \<le> n" "v < 65536"
      using cu16_spec_sound [OF nv u8_less_256 u8_less_256] by simp_all
    then show ?thesis
      using True sz nv fd_cu16_dec_sz_eq [OF len] fd_cu16_dec_fixed_eq [OF len nv]
      by (simp add: matches_txn_msg_tail_def tail_like_def txn_msg_min_sz_def txn_consts unat_of_nat_u16)
  qed
next
  case False
  then show ?thesis
    by (auto simp: matches_txn_msg_tail_def tail_like_def txn_msg_min_sz_def txn_consts)
qed

definition txn_like :: "bytes \<Rightarrow> bool" where
  "txn_like data \<longleftrightarrow> 69 \<le> length data \<and>
     (let b0 = data ! 0; b1 = data ! 1 in
      if unat b0 < 128 then tail_like data 1 (unat b0)
      else if b0 = 0x80 then tail_like data 2 (unat b1)
      else b0 = 0x81 \<and> b1 \<noteq> 0 \<and> unat b1 \<le> 12 \<and> unat (data ! 40) \<le> 64 \<and>
           unat (data ! 41) \<le> 64 \<and> unat b1 \<le> unat (data ! 41))"

lemma matches_txn_msg:
  "fd_keyguard_payload_matches_txn_msg data (length data) st = Ok (st = 0 \<and> txn_like data)"
proof (cases "st = 0 \<and> 69 \<le> length data")
  case True
  moreover have "matches_txn_msg_v1 data (length data) 1 =
    Ok (data ! 1 \<noteq> 0 \<and> unat (data ! 1) \<le> 12 \<and> unat (data ! 40) \<le> 64 \<and>
           unat (data ! 41) \<le> 64 \<and> unat (data ! 1) \<le> unat (data ! 41))"
    using True by (auto simp: matches_txn_msg_v1_def txn_consts Let_def)
  moreover have "1 < length data" "0 < length data"
    using True by linarith+
  moreover have "(0x80 :: u8) AND 0x7F = 0" "(0x81 :: u8) AND 0x7F = 1" "\<not> unat (0x80 :: u8) < 128"
    by simp_all
  moreover have "data ! 0 AND 0x80 \<noteq> 0 \<Longrightarrow> data ! 0 \<noteq> 0x80 \<Longrightarrow> data ! 0 AND 0x7F \<noteq> 0"
    "data ! 0 AND 0x80 \<noteq> 0 \<Longrightarrow> data ! 0 \<noteq> 0x81 \<Longrightarrow> data ! 0 AND 0x7F \<noteq> 1"
    using u8_high_80 [of "data ! 0"] u8_high_81 [of "data ! 0"] by simp_all
  ultimately show ?thesis
    by (simp add: fd_keyguard_payload_matches_txn_msg_def txn_like_def txn_msg_min_sz_def
        sign_type_defs tail_eq Let_def txn_consts flip: u8_high_bit) (auto simp: u8_high_bit)
next
  case False
  then show ?thesis
    by (auto simp: fd_keyguard_payload_matches_txn_msg_def txn_like_def txn_msg_min_sz_def
        sign_type_defs txn_consts)
qed

definition ping_like :: "bytes \<Rightarrow> bool" where
  "ping_like data \<longleftrightarrow> length data = 32 \<and> take 16 data = ping_prefix"

definition pong_like :: "bytes \<Rightarrow> bool" where
  "pong_like data \<longleftrightarrow> length data = 48 \<and> take 16 data = ping_prefix"

definition gossip_like :: "bytes \<Rightarrow> bool" where
  "gossip_like data \<longleftrightarrow> 36 \<le> length data \<and> le_nat (take 4 data) < 14"

definition repair_like :: "bytes \<Rightarrow> bool" where
  "repair_like data \<longleftrightarrow> 36 \<le> length data \<and> le_nat (take 4 data) \<in> {8, 9, 10, 12, 13, 14}"

definition tls_cv_like :: "bytes \<Rightarrow> bool" where
  "tls_cv_like data \<longleftrightarrow> length data \<in> {130, 146, 162} \<and>
     (take 98 data = client_prefix \<or> take 98 data = server_prefix)"

definition event_like :: "bytes \<Rightarrow> bool" where
  "event_like data \<longleftrightarrow> length data = 317 \<and> take 100 data = event_prefix"

definition bam_auth_like :: "bytes \<Rightarrow> bool" where
  "bam_auth_like data \<longleftrightarrow> 24 < length data \<and> length data \<le> 152 \<and> take 24 data = FD_BAM_AUTH_LABEL"

lemma matches_others:
  "fd_keyguard_payload_matches_ping_msg data (length data) st = Ok (st = 0 \<and> ping_like data)"
  "fd_keyguard_payload_matches_pong_msg data (length data) st = Ok (st = 1 \<and> pong_like data)"
  "fd_keyguard_payload_matches_gossip data (length data) st = Ok (st = 0 \<and> gossip_like data)"
  "fd_keyguard_payload_matches_repair data (length data) st = Ok (st = 0 \<and> repair_like data)"
  "fd_keyguard_payload_matches_shred data (length data) st = Ok (st = 0 \<and> length data = 32)"
  "fd_keyguard_payload_matches_tls_cv data (length data) st = Ok (st = 0 \<and> tls_cv_like data)"
  "fd_keyguard_payload_matches_bundle data (length data) st = Ok (st = 2 \<and> length data = 9)"
  "fd_keyguard_payload_matches_event data (length data) st = Ok (st = 0 \<and> event_like data)"
  "fd_keyguard_payload_matches_bam_auth data (length data) st = Ok (st = 0 \<and> bam_auth_like data)"
  by (simp_all add: fd_keyguard_payload_matches_ping_msg_def fd_keyguard_payload_matches_pong_msg_def
      fd_keyguard_payload_matches_gossip_def fd_keyguard_payload_matches_repair_def
      fd_keyguard_payload_matches_shred_def fd_keyguard_payload_matches_tls_cv_def
      fd_keyguard_payload_matches_bundle_def fd_keyguard_payload_matches_event_def
      fd_keyguard_payload_matches_bam_auth_def FD_BAM_AUTH_LABEL_LEN_def FD_BAM_MAX_AUTH_CHALLENGE_SZ_def
      ping_like_def pong_like_def gossip_like_def repair_like_def tls_cv_like_def event_like_def
      bam_auth_like_def sign_type_defs kind_defs) auto

definition prune_like :: "bytes \<Rightarrow> bool" where
  "prune_like data \<longleftrightarrow> 106 \<le> length data \<and> le_nat (take 8 data) = 18 \<and>
     take 18 (drop 8 data) = prune_prefix \<and> length data = 106 + 32 * le_nat (take 8 (drop 58 data))"

lemma prune_size:
  assumes "len < (2 :: nat) ^ 64"
  shows "(if n * 32 \<ge> 2 ^ 64 then Ok False else if n * 32 + 106 \<ge> 2 ^ 64 then Ok False
     else if len \<noteq> n * 32 + 106 then Ok False else Ok True) = Ok (len = 106 + 32 * n)"
proof -
  have "n * 32 + 106 = 106 + 32 * n"
    by simp
  with assms show ?thesis
    by (cases "len = 106 + 32 * n") simp_all
qed

lemma matches_prune:
  assumes "length data < 2 ^ 64"
  shows "fd_keyguard_payload_matches_prune_data data (length data) st = Ok (st = 0 \<and> prune_like data)"
  unfolding fd_keyguard_payload_matches_prune_data_def prune_like_def Let_def prune_size [OF assms]
  by (simp add: sign_type_defs)

text \<open>The mask, bit by bit.\<close>

definition payload_mask :: "bytes \<Rightarrow> int \<Rightarrow> u64" where
  "payload_mask data st =
     (if st = 0 then
        (if txn_like data then FD_KEYGUARD_PAYLOAD_TXN else 0) OR
        (if gossip_like data then FD_KEYGUARD_PAYLOAD_GOSSIP else 0) OR
        (if repair_like data then FD_KEYGUARD_PAYLOAD_REPAIR else 0) OR
        (if prune_like data then FD_KEYGUARD_PAYLOAD_PRUNE else 0) OR
        (if length data = 32 then FD_KEYGUARD_PAYLOAD_SHRED else 0) OR
        (if tls_cv_like data then FD_KEYGUARD_PAYLOAD_TLS_CV else 0) OR
        (if ping_like data then FD_KEYGUARD_PAYLOAD_PING else 0) OR
        (if event_like data then FD_KEYGUARD_PAYLOAD_EVENT else 0) OR
        (if bam_auth_like data then FD_KEYGUARD_PAYLOAD_BAM_AUTH else 0)
      else if st = 1 then (if pong_like data then FD_KEYGUARD_PAYLOAD_PONG else 0)
      else if st = 2 then (if length data = 9 then FD_KEYGUARD_PAYLOAD_BUNDLE else 0)
      else 0)"

lemma match_eq:
  assumes "length data < 2 ^ 64"
  shows "fd_keyguard_payload_match data (length data) st = Ok (payload_mask data st)"
  by (simp add: fd_keyguard_payload_match_def matches_txn_msg matches_others matches_prune [OF assms]
      payload_mask_def fd_ulong_if_def)

subsection \<open>Which types a payload can have at once\<close>

lemma take_4: "4 \<le> length data \<Longrightarrow> take 4 data = [data ! 0, data ! 1, data ! 2, data ! 3]"
  by (cases data rule: list.exhaust; cases "tl data" rule: list.exhaust; cases "tl (tl data)" rule: list.exhaust;
      cases "tl (tl (tl data))" rule: list.exhaust) (auto simp: numeral_eq_Suc)

lemma tag_bytes:
  assumes "4 \<le> length data" "le_nat (take 4 data) < 128"
  shows "unat (data ! 0) < 128 \<and> data ! 3 = 0"
  using assms by (simp add: take_4 flip: unat_zero_iff)

lemma le_nat_append: "le_nat (xs @ ys) = le_nat xs + 256 ^ length xs * le_nat ys"
  by (induction xs) (simp_all add: algebra_simps)

lemma le_nat_take_4_8:
  assumes "le_nat (take 8 data) < 128" "8 \<le> length data"
  shows "le_nat (take 4 data) = le_nat (take 8 data)"
proof -
  have "take 8 data = take 4 data @ take 4 (drop 4 data)"
    using take_add [of 4 4 data] by simp
  then have "le_nat (take 8 data) = le_nat (take 4 data) + 2 ^ 32 * le_nat (take 4 (drop 4 data))"
    using assms(2) by (simp add: le_nat_append)
  with assms(1) show ?thesis
    by (cases "le_nat (take 4 (drop 4 data))") simp_all
qed

lemma not_tail_like: "data ! 3 = 0 \<Longrightarrow> \<not> tail_like data 1 n"
  by (auto simp: tail_like_def cu16_spec_def numeral_3_eq_3)

lemma label_byte0:
  "take 98 data = client_prefix \<Longrightarrow> 130 \<le> length data \<Longrightarrow> data ! 0 = 0x20"
  "take 98 data = server_prefix \<Longrightarrow> 130 \<le> length data \<Longrightarrow> data ! 0 = 0x20"
  "take 100 data = event_prefix \<Longrightarrow> 130 \<le> length data \<Longrightarrow> data ! 0 = 0x20"
  "take 24 data = FD_BAM_AUTH_LABEL \<Longrightarrow> 24 \<le> length data \<Longrightarrow> data ! 0 = 0x58"
  "take 16 data = ping_prefix \<Longrightarrow> 32 \<le> length data \<Longrightarrow> data ! 0 = 0x53"
  using take_eq_nth0 [of 98 data client_prefix] take_eq_nth0 [of 98 data server_prefix]
    take_eq_nth0 [of 100 data event_prefix] take_eq_nth0 [of 24 data FD_BAM_AUTH_LABEL]
    take_eq_nth0 [of 16 data ping_prefix] by (simp_all add: prefix_hds)

text \<open>The size and the first bytes of a payload of each type.\<close>

lemma txn_like_key:
  assumes "txn_like data"
  shows "69 \<le> length data \<and> \<not> (unat (data ! 0) < 128 \<and> 18 < unat (data ! 0)) \<and> \<not> le_nat (take 4 data) < 128"
proof -
  have len: "69 \<le> length data"
    using assms by (simp only: txn_like_def)
  moreover have "\<not> le_nat (take 4 data) < 128"
    using tag_bytes [of data] not_tail_like assms len by (auto simp: txn_like_def Let_def)
  moreover have "\<not> (unat (data ! 0) < 128 \<and> 18 < unat (data ! 0))"
    using assms by (auto simp: txn_like_def tail_like_def Let_def)
  ultimately show ?thesis
    by simp
qed

lemma tag_key: "4 \<le> length data \<Longrightarrow> le_nat (take 4 data) < 20 \<Longrightarrow> unat (data ! 0) < 20"
  by (simp add: take_4)

lemma gossip_like_key:
  "gossip_like data \<Longrightarrow> 36 \<le> length data \<and> le_nat (take 4 data) < 15 \<and> unat (data ! 0) < 20"
  "repair_like data \<Longrightarrow> 36 \<le> length data \<and> le_nat (take 4 data) < 15 \<and> unat (data ! 0) < 20"
  using tag_key [of data] by (auto simp: gossip_like_def repair_like_def)

lemma prune_like_key:
  "prune_like data \<Longrightarrow> 106 \<le> length data \<and> le_nat (take 4 data) = 18 \<and> unat (data ! 0) < 20"
proof -
  assume "prune_like data"
  then have "106 \<le> length data" "le_nat (take 8 data) = 18"
    by (simp_all only: prune_like_def)
  then show ?thesis
    using le_nat_take_4_8 [of data] tag_key [of data] by linarith
qed

lemma label_key:
  "tls_cv_like data \<Longrightarrow> 130 \<le> length data \<and> length data \<le> 162 \<and> unat (data ! 0) = 32"
  "ping_like data \<Longrightarrow> length data = 32 \<and> unat (data ! 0) = 83"
  "event_like data \<Longrightarrow> length data = 317 \<and> unat (data ! 0) = 32"
  "bam_auth_like data \<Longrightarrow> 24 < length data \<and> length data \<le> 152 \<and> unat (data ! 0) = 88"
  using label_byte0 [of data] by (auto simp: tls_cv_like_def ping_like_def event_like_def bam_auth_like_def)

text \<open>
  The types of the payloads for raw signing exclude one another, except that a gossip value and a
  repair request may carry the same tag and that a 32-byte payload with a label is also a shred.
\<close>

lemma types_exclusive:
  "txn_like d \<Longrightarrow> \<not> gossip_like d \<and> \<not> repair_like d \<and> \<not> prune_like d \<and> length d \<noteq> 32 \<and>
     \<not> tls_cv_like d \<and> \<not> ping_like d \<and> \<not> event_like d \<and> \<not> bam_auth_like d"
  "gossip_like d \<or> repair_like d \<Longrightarrow> \<not> prune_like d \<and> length d \<noteq> 32 \<and> \<not> tls_cv_like d \<and> \<not> ping_like d \<and>
     \<not> event_like d \<and> \<not> bam_auth_like d"
  "prune_like d \<Longrightarrow> length d \<noteq> 32 \<and> \<not> tls_cv_like d \<and> \<not> ping_like d \<and> \<not> event_like d \<and> \<not> bam_auth_like d"
  "tls_cv_like d \<Longrightarrow> length d \<noteq> 32 \<and> \<not> ping_like d \<and> \<not> event_like d \<and> \<not> bam_auth_like d"
  "event_like d \<Longrightarrow> length d \<noteq> 32 \<and> \<not> ping_like d \<and> \<not> bam_auth_like d"
  "ping_like d \<Longrightarrow> length d = 32 \<and> \<not> bam_auth_like d"
  by (auto dest!: txn_like_key gossip_like_key prune_like_key label_key)

lemma payload_mask_0:
  "payload_mask data 0 \<in>
     {0, FD_KEYGUARD_PAYLOAD_TXN, FD_KEYGUARD_PAYLOAD_GOSSIP, FD_KEYGUARD_PAYLOAD_REPAIR,
      FD_KEYGUARD_PAYLOAD_GOSSIP OR FD_KEYGUARD_PAYLOAD_REPAIR, FD_KEYGUARD_PAYLOAD_PRUNE,
      FD_KEYGUARD_PAYLOAD_SHRED, FD_KEYGUARD_PAYLOAD_SHRED OR FD_KEYGUARD_PAYLOAD_PING,
      FD_KEYGUARD_PAYLOAD_SHRED OR FD_KEYGUARD_PAYLOAD_BAM_AUTH, FD_KEYGUARD_PAYLOAD_TLS_CV,
      FD_KEYGUARD_PAYLOAD_EVENT, FD_KEYGUARD_PAYLOAD_BAM_AUTH}"
proof -
  consider "txn_like data" | "gossip_like data \<or> repair_like data" | "prune_like data" | "tls_cv_like data"
    | "event_like data" | "ping_like data"
    | "\<not> txn_like data" "\<not> gossip_like data" "\<not> repair_like data" "\<not> prune_like data" "\<not> tls_cv_like data"
      "\<not> event_like data" "\<not> ping_like data"
    by blast
  then show ?thesis
  proof cases
    case 1
    then show ?thesis
      using types_exclusive(1) by (simp add: payload_mask_def)
  next
    case 2
    then show ?thesis
      using types_exclusive(1,2) by (auto simp: payload_mask_def)
  next
    case 3
    then show ?thesis
      using types_exclusive(1-3) by (auto simp: payload_mask_def)
  next
    case 4
    then show ?thesis
      using types_exclusive(1-4) by (auto simp: payload_mask_def)
  next
    case 5
    then show ?thesis
      using types_exclusive(1-5) by (auto simp: payload_mask_def)
  next
    case 6
    then show ?thesis
      using types_exclusive by (auto simp: payload_mask_def)
  next
    case 7
    then show ?thesis
      by (simp add: payload_mask_def)
  qed
qed

end
