(* ===== verification/Keyguard_Authorize.thy ===== *)
theory Keyguard_Authorize
  imports Keyguard_Match Bundle_Crank_Constants
begin

text \<open>
  The authorisation of signing requests, \<open>src/src/disco/keyguard/fd_keyguard_authorize.c\<close>: what each
  role may have signed with the identity key.  The log messages of the C code are not modelled.
\<close>

subsection \<open>Constants and the authority\<close>

definition FD_KEYGUARD_SIGN_REQ_MTU :: nat where
  "FD_KEYGUARD_SIGN_REQ_MTU = 2048"

definition FD_KEYGUARD_ROLE_TXSEND :: int where
  "FD_KEYGUARD_ROLE_TXSEND = 0"

definition FD_KEYGUARD_ROLE_GOSSIP :: int where
  "FD_KEYGUARD_ROLE_GOSSIP = 1"

definition FD_KEYGUARD_ROLE_LEADER :: int where
  "FD_KEYGUARD_ROLE_LEADER = 2"

definition FD_KEYGUARD_ROLE_REPAIR :: int where
  "FD_KEYGUARD_ROLE_REPAIR = 4"

definition FD_KEYGUARD_ROLE_BUNDLE :: int where
  "FD_KEYGUARD_ROLE_BUNDLE = 5"

definition FD_KEYGUARD_ROLE_EVENT :: int where
  "FD_KEYGUARD_ROLE_EVENT = 6"

definition FD_KEYGUARD_ROLE_BUNDLE_CRANK :: int where
  "FD_KEYGUARD_ROLE_BUNDLE_CRANK = 7"

definition FD_KEYGUARD_ROLE_RSERVE :: int where
  "FD_KEYGUARD_ROLE_RSERVE = 8"

definition FD_KEYGUARD_ROLE_BAM :: int where
  "FD_KEYGUARD_ROLE_BAM = 9"

lemmas role_defs = FD_KEYGUARD_ROLE_TXSEND_def FD_KEYGUARD_ROLE_GOSSIP_def FD_KEYGUARD_ROLE_LEADER_def
  FD_KEYGUARD_ROLE_REPAIR_def FD_KEYGUARD_ROLE_BUNDLE_def FD_KEYGUARD_ROLE_EVENT_def
  FD_KEYGUARD_ROLE_BUNDLE_CRANK_def FD_KEYGUARD_ROLE_RSERVE_def FD_KEYGUARD_ROLE_BAM_def

definition FD_GOSSIP_VALUE_VOTE :: nat where
  "FD_GOSSIP_VALUE_VOTE = 1"

definition FD_GOSSIP_VALUE_DUPLICATE_SHRED :: nat where
  "FD_GOSSIP_VALUE_DUPLICATE_SHRED = 9"

definition FD_GOSSIP_VALUE_CONTACT_INFO :: nat where
  "FD_GOSSIP_VALUE_CONTACT_INFO = 11"

definition FD_FEATURE_SET_ID :: nat where
  "FD_FEATURE_SET_ID = 241118519"

definition FD_KEYGUARD_CONTACT_INFO_CLIENT_FIREDANCER :: nat where
  "FD_KEYGUARD_CONTACT_INFO_CLIENT_FIREDANCER = 5"

definition FD_KEYGUARD_CONTACT_INFO_CLIENT_BAM :: nat where
  "FD_KEYGUARD_CONTACT_INFO_CLIENT_BAM = 12"

lemmas gossip_defs = FD_GOSSIP_VALUE_VOTE_def FD_GOSSIP_VALUE_DUPLICATE_SHRED_def
  FD_GOSSIP_VALUE_CONTACT_INFO_def FD_FEATURE_SET_ID_def
  FD_KEYGUARD_CONTACT_INFO_CLIENT_FIREDANCER_def FD_KEYGUARD_CONTACT_INFO_CLIENT_BAM_def

definition fd_solana_vote_program_id :: bytes where
  "fd_solana_vote_program_id =
     [0x07, 0x61, 0x48, 0x1D, 0x35, 0x74, 0x74, 0xBB, 0x7C, 0x4D, 0x76, 0x24, 0xEB, 0xD3, 0xBD, 0xB3,
      0xD8, 0x35, 0x5E, 0x73, 0xD1, 0x10, 0x43, 0xFC, 0x0D, 0xA3, 0x53, 0x80, 0x00, 0x00, 0x00, 0x00]"

definition fd_tls13_cli_sign_prefix :: bytes where
  "fd_tls13_cli_sign_prefix = replicate 64 0x20 @ cstr ''TLS 1.3, client CertificateVerify'' @ [0]"

record fd_keyguard_authority =
  identity_pubkey :: bytes
  tip_payment_program :: bytes
  tip_distribution_program :: bytes

subsection \<open>The checks of the payload types\<close>

text \<open>
  The vote transaction check.  \<open>fd_keyguard_authorize_gossip\<close> also calls it on a part of its
  payload, so the pointer \<open>data\<close> is a buffer \<open>p\<close> and an offset \<open>d\<close> into it.
\<close>

definition authorize_vote_instr ::
  "bytes \<Rightarrow> nat \<Rightarrow> nat \<Rightarrow> nat \<Rightarrow> bool res" where
  "authorize_vote_instr p d off acc_cnt =
     rbind (fd_cu16_dec_sz p (d + off) 3) (\<lambda>bytes.
     READ p (d + off) (\<lambda>instr_cnt.
     if bytes \<noteq> 1 then Ok False
     else if unat instr_cnt \<noteq> 1 then Ok False
     else let off = off + 1 in
     READ p (d + off) (\<lambda>program_id.
     if unat program_id \<noteq> acc_cnt - 1 then Ok False
     else let program_acct_off = 4 + unat program_id * 32 in
     MEMEQ p (d + program_acct_off) fd_solana_vote_program_id 32 (\<lambda>eq.
     if \<not> eq then Ok False
     else let off = off + 1 in
     rbind (fd_cu16_dec_sz p (d + off) 3) (\<lambda>bytes.
     if bytes \<noteq> 1 then Ok False
     else READ p (d + off) (\<lambda>acct_cnt.
     if unat acct_cnt \<noteq> 2 then Ok False
     else let off = off + 3 in
     rbind (fd_cu16_dec_sz p (d + off) 3) (\<lambda>bytes.
     let off = off + bytes in
     READ p (d + off) (\<lambda>disc.
     if unat disc \<noteq> 14 then Ok False
     else Ok True))))))))"

definition fd_keyguard_authorize_vote_txn ::
  "fd_keyguard_authority \<Rightarrow> bytes \<Rightarrow> nat \<Rightarrow> nat \<Rightarrow> int \<Rightarrow> bool res" where
  "fd_keyguard_authorize_vote_txn authority p d sz sign_type =
     (if sign_type \<noteq> FD_KEYGUARD_SIGN_TYPE_ED25519 then Ok False
      else if sz > FD_TXN_MTU_V0 then Ok False
      else let off = 0 in
      READ p (d + off) (\<lambda>b. let signer_cnt = unat b in
      if signer_cnt \<noteq> 1 \<and> signer_cnt \<noteq> 2 then Ok False
      else if signer_cnt = 1 \<and> sz \<le> 140 then Ok False
      else if signer_cnt = 2 \<and> sz \<le> 172 then Ok False
      else let off = off + 1 in
      READ p (d + off) (\<lambda>ro_signed.
      if unat ro_signed \<noteq> signer_cnt - 1 then Ok False
      else let off = off + 1 in
      READ p (d + off) (\<lambda>ro_unsigned.
      if unat ro_unsigned \<noteq> 1 then Ok False
      else let off = off + 1 in
      rbind (fd_cu16_dec_sz p (d + off) 3) (\<lambda>bytes.
      if bytes \<noteq> 1 then Ok False
      else let acc_cnt = 2 + signer_cnt in
      READ p (d + off) (\<lambda>n.
      if unat n \<noteq> acc_cnt then Ok False
      else let off = off + 1; acct_off = off in
      MEMEQ p (d + acct_off) (identity_pubkey authority) 32 (\<lambda>eq.
      if \<not> eq then Ok False
      else let off = off + (acc_cnt + 1) * 32 in
      authorize_vote_instr p d off acc_cnt)))))))"

text \<open>\<open>for( i=0; i<n; i++ ) if( !(data[ off++ ]&0x80) ) break;\<close> as the offset it ends with.\<close>

fun skip_varint :: "bytes \<Rightarrow> nat \<Rightarrow> nat \<Rightarrow> nat res" where
  "skip_varint data off 0 = Ok off"
| "skip_varint data off (Suc n) =
     READ data off (\<lambda>b. if b AND 0x80 = 0 then Ok (off + 1) else skip_varint data (off + 1) n)"

text \<open>
  The three message types of \<open>fd_keyguard_authorize_gossip\<close> that may be signed, as the offset of the
  origin they set, or \<open>None\<close> for \<open>return 0\<close>.
\<close>

definition authorize_gossip_vote :: "fd_keyguard_authority \<Rightarrow> bytes \<Rightarrow> nat \<Rightarrow> nat option res" where
  "authorize_gossip_vote authority data sz =
     (if sz < 4 + 1 + 32 + FD_TXN_MIN_SERIALIZED_SZ + 8 then Ok None
      else READ data (4 + 1 + 32) (\<lambda>b. let sig_cnt = unat b in
      if sig_cnt = 0 \<or> sig_cnt > 2 then Ok None
      else let vote_off = 4 + 1 + 32 + 1 + 64 * sig_cnt in
      rbind (fd_keyguard_authorize_vote_txn authority data vote_off (ulong_sub sz (vote_off + 8))
               FD_KEYGUARD_SIGN_TYPE_ED25519) (\<lambda>ok.
      if \<not> ok then Ok None else Ok (Some 1))))"

definition authorize_gossip_contact_info :: "bytes \<Rightarrow> nat \<Rightarrow> nat option res" where
  "authorize_gossip_contact_info data sz =
     (if sz < 62 then Ok None
      else rbind (skip_varint data (4 + 32) 10) (\<lambda>off. let off = off + 8 + 2 in
      if sz < off + 15 then Ok None
      else rbind (skip_varint data off 3) (\<lambda>off.
      rbind (skip_varint data off 3) (\<lambda>off.
      rbind (skip_varint data off 3) (\<lambda>off.
      if sz < off + 12 then Ok None
      else LOAD 4 data off (\<lambda>commit. let off = off + 4 in
      LOAD 4 data off (\<lambda>feature_set. let off = off + 4 in
      READ data off (\<lambda>client_id.
      if feature_set \<noteq> FD_FEATURE_SET_ID then Ok None
      else if unat client_id \<noteq> FD_KEYGUARD_CONTACT_INFO_CLIENT_FIREDANCER \<and>
              unat client_id \<noteq> FD_KEYGUARD_CONTACT_INFO_CLIENT_BAM then Ok None
      else Ok (Some 0)))))))))"

definition authorize_gossip_duplicate_shred :: "bytes \<Rightarrow> nat \<Rightarrow> nat option res" where
  "authorize_gossip_duplicate_shred data sz =
     (if sz < 4 + 65 then Ok None
      else LOAD 8 data (4 + 57) (\<lambda>chunk_len.
      if sz \<noteq> ulong_add (4 + 65) chunk_len then Ok None else Ok (Some 2)))"

definition fd_keyguard_authorize_gossip ::
  "fd_keyguard_authority \<Rightarrow> bytes \<Rightarrow> nat \<Rightarrow> int \<Rightarrow> bool res" where
  "fd_keyguard_authorize_gossip authority data sz sign_type =
     (if sign_type \<noteq> FD_KEYGUARD_SIGN_TYPE_ED25519 then Ok False
      else if sz < 36 then Ok False
      else if sz > 1188 - 64 then Ok False
      else LOAD 4 data 0 (\<lambda>tag.
      rbind (if tag = FD_GOSSIP_VALUE_VOTE then authorize_gossip_vote authority data sz
             else if tag = FD_GOSSIP_VALUE_CONTACT_INFO then authorize_gossip_contact_info data sz
             else if tag = FD_GOSSIP_VALUE_DUPLICATE_SHRED then authorize_gossip_duplicate_shred data sz
             else Ok None) (\<lambda>origin.
      case origin of None \<Rightarrow> Ok False
      | Some origin_off \<Rightarrow>
          if sz < 4 + origin_off + 32 then Ok False
          else MEMEQ data (4 + origin_off) (identity_pubkey authority) 32 Ok)))"

text \<open>The loop over the fixed bytes of a crank transaction; \<open>m\<close> is \<open>matches_mask\<close>.\<close>

function crank_mask_loop :: "bytes \<Rightarrow> bytes \<Rightarrow> bytes \<Rightarrow> nat \<Rightarrow> nat \<Rightarrow> bool \<Rightarrow> bool res" where
  "crank_mask_loop data crank_mask crank_vals n i m =
     (if i < n then
        READ crank_mask (i + 65) (\<lambda>k.
          if k \<noteq> 0
          then READ data i (\<lambda>b. READ crank_vals (i + 65) (\<lambda>v.
                 crank_mask_loop data crank_mask crank_vals n (i + 1) (m \<and> b = v)))
          else crank_mask_loop data crank_mask crank_vals n (i + 1) m)
      else Ok m)"
  by pat_completeness auto
termination
  by (relation "measure (\<lambda>(_, _, _, n, i, _). n - i)") auto

declare crank_mask_loop.simps [simp del]

definition fd_keyguard_authorize_bundle_crank_txn ::
  "fd_keyguard_authority \<Rightarrow> bytes \<Rightarrow> nat \<Rightarrow> int \<Rightarrow> bool res" where
  "fd_keyguard_authorize_bundle_crank_txn authority data sz sign_type =
     (if sign_type \<noteq> FD_KEYGUARD_SIGN_TYPE_ED25519 then Ok False
      else rbind
        (if sz = FD_BUNDLE_CRANK_2_SZ - 65 then
           rbind (crank_mask_loop data FD_BUNDLE_CRANK_2_MASK FD_BUNDLE_CRANK_2_VALS (FD_BUNDLE_CRANK_2_SZ - 65) 0 True) (\<lambda>m.
           Ok (Some m))
         else if sz = FD_BUNDLE_CRANK_3_SZ - 65 then
           rbind (crank_mask_loop data FD_BUNDLE_CRANK_3_MASK FD_BUNDLE_CRANK_3_VALS (FD_BUNDLE_CRANK_3_SZ - 65) 0 True) (\<lambda>m.
           MEMEQ data (FD_BUNDLE_CRANK_TIP_DISTRIBUTION_OFFSET - 65) (tip_distribution_program authority) 32 (\<lambda>eq.
           if \<not> eq then Ok None else Ok (Some m)))
         else Ok None) (\<lambda>r.
        case r of None \<Rightarrow> Ok False
        | Some matches_mask \<Rightarrow>
            if \<not> matches_mask then Ok False
            else MEMEQ data (FD_BUNDLE_CRANK_SIGNER_OFFSET - 65) (identity_pubkey authority) 32 (\<lambda>eq.
            if \<not> eq then Ok False
            else MEMEQ data (FD_BUNDLE_CRANK_TIP_PAYMENT_OFFSET - 65) (tip_payment_program authority) 32 (\<lambda>eq.
            if \<not> eq then Ok False else Ok True))))"

definition fd_keyguard_authorize_ping :: "bytes \<Rightarrow> nat \<Rightarrow> int \<Rightarrow> bool res" where
  "fd_keyguard_authorize_ping data sz sign_type =
     (if sign_type \<noteq> FD_KEYGUARD_SIGN_TYPE_ED25519 then Ok False
      else if sz \<noteq> 32 then Ok False
      else MEMEQ data 0 ping_prefix 16 (\<lambda>eq. if \<not> eq then Ok False else Ok True))"

definition fd_keyguard_authorize_pong :: "bytes \<Rightarrow> nat \<Rightarrow> int \<Rightarrow> bool res" where
  "fd_keyguard_authorize_pong data sz sign_type =
     (if sign_type \<noteq> FD_KEYGUARD_SIGN_TYPE_SHA256_ED25519 then Ok False
      else if sz \<noteq> 48 then Ok False
      else MEMEQ data 0 ping_prefix 16 (\<lambda>eq. if \<not> eq then Ok False else Ok True))"

definition fd_keyguard_authorize_gossip_prune ::
  "fd_keyguard_authority \<Rightarrow> bytes \<Rightarrow> nat \<Rightarrow> int \<Rightarrow> bool res" where
  "fd_keyguard_authorize_gossip_prune authority data sz sign_type =
     (if sign_type \<noteq> FD_KEYGUARD_SIGN_TYPE_ED25519 then Ok False
      else if sz < 66 then Ok False
      else LOAD 8 data 0 (\<lambda>n.
      if n \<noteq> 18 then Ok False
      else MEMEQ data 8 prune_prefix 18 (\<lambda>eq.
      if \<not> eq then Ok False
      else MEMEQ data 26 (identity_pubkey authority) 32 (\<lambda>eq.
      if \<not> eq then Ok False else Ok True))))"

definition fd_keyguard_authorize_repair ::
  "fd_keyguard_authority \<Rightarrow> bytes \<Rightarrow> nat \<Rightarrow> int \<Rightarrow> bool res" where
  "fd_keyguard_authorize_repair authority data sz sign_type =
     (if sign_type \<noteq> FD_KEYGUARD_SIGN_TYPE_ED25519 then Ok False
      else if sz < 80 then Ok False
      else LOAD 4 data 0 (\<lambda>discriminant.
      if discriminant < 8 then Ok False
      else if discriminant > 14 then Ok False
      else MEMEQ data 4 (identity_pubkey authority) 32 (\<lambda>eq.
      if \<not> eq then Ok False else Ok True)))"

definition fd_keyguard_authorize_tls_cv :: "bytes \<Rightarrow> nat \<Rightarrow> int \<Rightarrow> bool res" where
  "fd_keyguard_authorize_tls_cv data sz sign_type =
     (if sign_type \<noteq> FD_KEYGUARD_SIGN_TYPE_ED25519 then Ok False
      else if sz \<noteq> 130 then Ok False
      else MEMEQ data 0 fd_tls13_cli_sign_prefix 98 Ok)"

subsection \<open>Authorisation by role\<close>

text \<open>\<open>(!!( payload_mask & bit )) && check\<close>\<close>

definition mask_and :: "u64 \<Rightarrow> u64 \<Rightarrow> bool res \<Rightarrow> bool res" where
  "mask_and mask_bits payload_bit check = (if mask_bits AND payload_bit \<noteq> 0 then check else Ok False)"

definition fd_keyguard_payload_authorize ::
  "fd_keyguard_authority \<Rightarrow> bytes \<Rightarrow> nat \<Rightarrow> int \<Rightarrow> int \<Rightarrow> bool res" where
  "fd_keyguard_payload_authorize authority data sz role sign_type =
     (if sz > FD_KEYGUARD_SIGN_REQ_MTU then Ok False
      else rbind (fd_keyguard_payload_match data sz sign_type) (\<lambda>payload_mask.
      if role = FD_KEYGUARD_ROLE_TXSEND then
        rbind (mask_and payload_mask FD_KEYGUARD_PAYLOAD_TXN
                 (fd_keyguard_authorize_vote_txn authority data 0 sz sign_type)) (\<lambda>txn_ok.
        rbind (mask_and payload_mask FD_KEYGUARD_PAYLOAD_TLS_CV
                 (fd_keyguard_authorize_tls_cv data sz sign_type)) (\<lambda>tls_ok.
        if \<not> txn_ok \<and> \<not> tls_ok then Ok False else Ok True))
      else if role = FD_KEYGUARD_ROLE_GOSSIP then
        rbind (mask_and payload_mask FD_KEYGUARD_PAYLOAD_PING
                 (fd_keyguard_authorize_ping data sz sign_type)) (\<lambda>ping_ok.
        rbind (mask_and payload_mask FD_KEYGUARD_PAYLOAD_PONG
                 (fd_keyguard_authorize_pong data sz sign_type)) (\<lambda>pong_ok.
        rbind (mask_and payload_mask FD_KEYGUARD_PAYLOAD_PRUNE
                 (fd_keyguard_authorize_gossip_prune authority data sz sign_type)) (\<lambda>prune_ok.
        rbind (mask_and payload_mask FD_KEYGUARD_PAYLOAD_GOSSIP
                 (fd_keyguard_authorize_gossip authority data sz sign_type)) (\<lambda>gossip_ok.
        if \<not> ping_ok \<and> \<not> pong_ok \<and> \<not> prune_ok \<and> \<not> gossip_ok then Ok False else Ok True))))
      else if role = FD_KEYGUARD_ROLE_REPAIR then
        rbind (mask_and payload_mask FD_KEYGUARD_PAYLOAD_PONG
                 (fd_keyguard_authorize_pong data sz sign_type)) (\<lambda>pong_ok.
        rbind (mask_and payload_mask FD_KEYGUARD_PAYLOAD_REPAIR
                 (fd_keyguard_authorize_repair authority data sz sign_type)) (\<lambda>repair_ok.
        if \<not> pong_ok \<and> \<not> repair_ok then Ok False else Ok True))
      else if role = FD_KEYGUARD_ROLE_LEADER then
        (if payload_mask \<noteq> FD_KEYGUARD_PAYLOAD_SHRED then Ok False else Ok True)
      else if role = FD_KEYGUARD_ROLE_BUNDLE then
        (if payload_mask \<noteq> FD_KEYGUARD_PAYLOAD_BUNDLE then Ok False else Ok True)
      else if role = FD_KEYGUARD_ROLE_EVENT then
        (if payload_mask \<noteq> FD_KEYGUARD_PAYLOAD_EVENT then Ok False else Ok True)
      else if role = FD_KEYGUARD_ROLE_BUNDLE_CRANK then
        (if payload_mask \<noteq> FD_KEYGUARD_PAYLOAD_TXN then Ok False
         else fd_keyguard_authorize_bundle_crank_txn authority data sz sign_type)
      else if role = FD_KEYGUARD_ROLE_RSERVE then
        rbind (mask_and payload_mask FD_KEYGUARD_PAYLOAD_PING
                 (fd_keyguard_authorize_ping data sz sign_type)) (\<lambda>rserve_ok.
        if \<not> rserve_ok then Ok False else Ok True)
      else if role = FD_KEYGUARD_ROLE_BAM then
        (if payload_mask \<noteq> FD_KEYGUARD_PAYLOAD_BAM_AUTH then Ok False else Ok True)
      else Ok False))"

end
