(* ===== verification/Keyguard_Txn.thy ===== *)
theory Keyguard_Txn
  imports Keyguard_Authorize
begin

text \<open>
  The keyguard on transactions: every check of \<open>fd_keyguard_authorize.c\<close> returns without reading out of
  bounds, the fingerprint of transactions has no false negatives, and a transaction message that
  passes the vote check is a vote of this validator.
\<close>

subsection \<open>Every request is answered\<close>

definition authority_ok :: "fd_keyguard_authority \<Rightarrow> bool" where
  "authority_ok a \<longleftrightarrow> length (identity_pubkey a) = 32 \<and> length (tip_payment_program a) = 32 \<and>
     length (tip_distribution_program a) = 32"

lemma twp_cu16_dec_sz:
  assumes "off + 3 \<le> length p" "\<And>n. n \<le> 3 \<Longrightarrow> Q n"
  shows "twp (fd_cu16_dec_sz p off 3) Q"
proof -
  have "(case cu16_at p off 3 of None \<Rightarrow> 0 | Some (sz, v) \<Rightarrow> sz) \<le> 3"
    by (auto simp: cu16_spec_def split: if_splits)
  then show ?thesis
    using assms fd_cu16_dec_sz_eq [OF assms(1)] by simp
qed

lemma length_vote_id [simp]: "length fd_solana_vote_program_id = 32"
  by (simp add: fd_solana_vote_program_id_def)

lemma length_tls_prefix [simp]: "length fd_tls13_cli_sign_prefix = 98"
  by (simp add: fd_tls13_cli_sign_prefix_def cstr_def)

lemma twp_authorize_vote_instr:
  assumes "off = 4 + (acc_cnt + 1) * 32" "d + off + 9 \<le> length p"
  shows "twp (authorize_vote_instr p d off acc_cnt) (\<lambda>_. True)"
  using assms by (auto simp: authorize_vote_instr_def twp Let_def intro!: twp_cu16_dec_sz)

lemma twp_authorize_vote_txn:
  assumes "authority_ok a" "d + sz \<le> length p" "1 \<le> sz"
  shows "twp (fd_keyguard_authorize_vote_txn a p d sz st) (\<lambda>_. True)"
  using assms
  by (auto simp: fd_keyguard_authorize_vote_txn_def twp Let_def authority_ok_def
      intro!: twp_cu16_dec_sz twp_authorize_vote_instr)

lemma twp_skip_varint:
  assumes "off + n \<le> length p" "\<And>o'. o' \<le> off + n \<Longrightarrow> Q o'"
  shows "twp (skip_varint p off n) Q"
  using assms by (induction p off n rule: skip_varint.induct) (auto simp: twp)

lemma twp_authorize_gossip_vote:
  assumes "authority_ok a" "length p \<le> 2048"
  shows "twp (authorize_gossip_vote a p (length p)) (\<lambda>_. True)"
proof (cases "179 \<le> length p \<and> p ! 37 \<noteq> 0 \<and> unat (p ! 37) \<le> 2")
  case True
  let ?v = "38 + 64 * unat (p ! 37)"
  have "ulong_sub (length p) (?v + 8) = length p - (?v + 8)"
    using True assms(2) by (auto intro: ulong_sub_le)
  then have "twp (fd_keyguard_authorize_vote_txn a p ?v (ulong_sub (length p) (?v + 8)) FD_KEYGUARD_SIGN_TYPE_ED25519)
      (\<lambda>ok. twp (if \<not> ok then Ok None else Ok (Some 1)) (\<lambda>_. True))"
    using True assms(1) by (intro twp_mono [OF twp_authorize_vote_txn]) (auto simp: twp)
  then show ?thesis
    using True by (auto simp: authorize_gossip_vote_def twp Let_def txn_consts)
next
  case False
  then show ?thesis
    by (auto simp: authorize_gossip_vote_def twp Let_def txn_consts)
qed

lemma twp_authorize_gossip_contact_info: "twp (authorize_gossip_contact_info p (length p)) (\<lambda>_. True)"
  by (auto simp: authorize_gossip_contact_info_def twp Let_def intro!: twp_skip_varint)

lemma twp_authorize_gossip_duplicate_shred: "twp (authorize_gossip_duplicate_shred p (length p)) (\<lambda>_. True)"
  by (auto simp: authorize_gossip_duplicate_shred_def twp)

lemma twp_authorize_gossip:
  assumes "authority_ok a" "length p \<le> 2048"
  shows "twp (fd_keyguard_authorize_gossip a p (length p) st) (\<lambda>_. True)"
proof -
  have "twp m (\<lambda>_. True) \<Longrightarrow> twp m (\<lambda>r. twp (case r of None \<Rightarrow> Ok False
      | Some origin_off \<Rightarrow> if length p < 4 + origin_off + 32 then Ok False
          else MEMEQ p (4 + origin_off) (identity_pubkey a) 32 Ok) (\<lambda>_. True))" for m
    using assms(1) by (elim twp_mono) (auto simp: twp authority_ok_def split: option.split)
  then show ?thesis
    using twp_authorize_gossip_vote [OF assms] twp_authorize_gossip_contact_info twp_authorize_gossip_duplicate_shred
    by (simp add: fd_keyguard_authorize_gossip_def twp Let_def)
qed

lemma crank_mask_loop_eq:
  assumes "n \<le> length data" "n + 65 \<le> length ma" "n + 65 \<le> length vals" "i \<le> n"
  shows "crank_mask_loop data ma vals n i m =
    Ok (m \<and> (\<forall>j. i \<le> j \<longrightarrow> j < n \<longrightarrow> ma ! (j + 65) \<noteq> 0 \<longrightarrow> data ! j = vals ! (j + 65)))"
  using assms
proof (induction "n - i" arbitrary: i m)
  case 0
  then show ?case
    by (simp add: crank_mask_loop.simps)
next
  case (Suc k)
  then have "i < n"
    by simp
  then have all: "(\<forall>j. i \<le> j \<longrightarrow> P j) \<longleftrightarrow> P i \<and> (\<forall>j. i + 1 \<le> j \<longrightarrow> P j)" for P
    by (metis Suc_eq_plus1 le_eq_less_or_eq less_eq_Suc_le)
  show ?case
    using Suc.hyps(1) [of "i + 1"] Suc.hyps(2) Suc.prems \<open>i < n\<close>
    by (subst crank_mask_loop.simps) (auto simp: all [of "\<lambda>j. j < n \<longrightarrow> _ j"])
qed

lemma twp_crank:
  assumes "authority_ok a"
  shows "twp (fd_keyguard_authorize_bundle_crank_txn a p (length p) st) (\<lambda>_. True)"
  using assms
  by (simp add: fd_keyguard_authorize_bundle_crank_txn_def twp crank_mask_loop_eq crank_consts authority_ok_def)

lemma twp_authorize_small:
  assumes "authority_ok a"
  shows "twp (fd_keyguard_authorize_ping p (length p) st) (\<lambda>_. True)"
    "twp (fd_keyguard_authorize_pong p (length p) st) (\<lambda>_. True)"
    "twp (fd_keyguard_authorize_gossip_prune a p (length p) st) (\<lambda>_. True)"
    "twp (fd_keyguard_authorize_repair a p (length p) st) (\<lambda>_. True)"
    "twp (fd_keyguard_authorize_tls_cv p (length p) st) (\<lambda>_. True)"
  using assms
  by (simp_all add: fd_keyguard_authorize_ping_def fd_keyguard_authorize_pong_def fd_keyguard_authorize_gossip_prune_def
      fd_keyguard_authorize_repair_def fd_keyguard_authorize_tls_cv_def twp authority_ok_def)

lemma twp_rbind_True: "twp m (\<lambda>_. True) \<Longrightarrow> (\<And>x. twp (f x) (\<lambda>_. True)) \<Longrightarrow> twp (rbind m f) (\<lambda>_. True)"
  by (cases m) simp_all

lemma twp_mask_and: "(ma AND b \<noteq> 0 \<Longrightarrow> twp c Q) \<Longrightarrow> Q False \<Longrightarrow> twp (mask_and ma b c) Q"
  by (simp add: mask_and_def)

lemma and_push_bit_1: "((m :: u64) AND push_bit k 1 = 0) = (\<not> bit m k)"
  by (simp add: push_bit_eq_mult and_exp_eq_0_iff_not_bit)

lemma bit_if: "bit (if c then push_bit j (1 :: u64) else 0) k = (c \<and> j = k \<and> k < 64)"
  by (auto simp: bit_simps)

lemma payload_mask_bits:
  "(payload_mask d st AND FD_KEYGUARD_PAYLOAD_TXN = 0) = (\<not> (st = 0 \<and> txn_like d))"
  "(payload_mask d st AND FD_KEYGUARD_PAYLOAD_GOSSIP = 0) = (\<not> (st = 0 \<and> gossip_like d))"
  "(payload_mask d st AND FD_KEYGUARD_PAYLOAD_REPAIR = 0) = (\<not> (st = 0 \<and> repair_like d))"
  "(payload_mask d st AND FD_KEYGUARD_PAYLOAD_PRUNE = 0) = (\<not> (st = 0 \<and> prune_like d))"
  "(payload_mask d st AND FD_KEYGUARD_PAYLOAD_TLS_CV = 0) = (\<not> (st = 0 \<and> tls_cv_like d))"
  "(payload_mask d st AND FD_KEYGUARD_PAYLOAD_PING = 0) = (\<not> (st = 0 \<and> ping_like d))"
  "(payload_mask d st AND FD_KEYGUARD_PAYLOAD_PONG = 0) = (\<not> (st = 1 \<and> pong_like d))"
  "(payload_mask d st AND FD_KEYGUARD_PAYLOAD_SHRED = 0) = (\<not> (st = 0 \<and> length d = 32))"
  "(payload_mask d st AND FD_KEYGUARD_PAYLOAD_BUNDLE = 0) = (\<not> (st = 2 \<and> length d = 9))"
  "(payload_mask d st AND FD_KEYGUARD_PAYLOAD_EVENT = 0) = (\<not> (st = 0 \<and> event_like d))"
  "(payload_mask d st AND FD_KEYGUARD_PAYLOAD_BAM_AUTH = 0) = (\<not> (st = 0 \<and> bam_auth_like d))"
  unfolding payload_defs and_push_bit_1 payload_mask_def
  by (simp_all only: if_distrib [where f = "\<lambda>x. bit x _"] bit_or_iff bit_if)
    (simp_all add: bit_simps)

lemma txn_bit: "payload_mask data st AND FD_KEYGUARD_PAYLOAD_TXN \<noteq> 0 \<Longrightarrow> data \<noteq> []"
  by (auto simp: payload_mask_bits txn_like_def)

lemma twp_authorize:
  assumes "authority_ok a"
  shows "twp (fd_keyguard_payload_authorize a data (length data) role st) (\<lambda>_. True)"
proof (cases "length data \<le> 2048")
  case True
  then have m: "fd_keyguard_payload_match data (length data) st = Ok (payload_mask data st)"
    by (intro match_eq) simp
  have v: "payload_mask data st AND FD_KEYGUARD_PAYLOAD_TXN \<noteq> 0 \<Longrightarrow>
      twp (fd_keyguard_authorize_vote_txn a data 0 (length data) st) (\<lambda>_. True)"
    using txn_bit by (intro twp_authorize_vote_txn assms) (auto simp: Suc_le_eq)
  note checks = twp_authorize_small [OF assms] twp_authorize_gossip [OF assms True] twp_crank [OF assms]
  show ?thesis
    unfolding fd_keyguard_payload_authorize_def m
    by (simp add: twp_if) (intro conjI impI twp_rbind_True twp_mask_and v checks, simp_all)
next
  case False
  then show ?thesis
    by (simp add: fd_keyguard_payload_authorize_def FD_KEYGUARD_SIGN_REQ_MTU_def)
qed

subsection \<open>The signed message of a transaction\<close>

definition atxn_message :: "atxn \<Rightarrow> bytes" where
  "atxn_message m =
     (if a_version m = FD_TXN_V1 then enc_v1_head m @ enc_v1_headers m @ enc_v1_payloads m
      else enc_version (a_version m) @ [byte (length (a_sigs m)), a_ro_signed m, a_ro_unsigned m] @
        cu16 (length (a_addrs m)) @ concat (a_addrs m) @ a_blockhash m @ cu16 (length (a_instrs m)) @
        concat (map enc_instr (a_instrs m)) @ enc_luts (a_version m) (a_luts m))"

definition txn_msg :: "fd_txn \<Rightarrow> bytes \<Rightarrow> nat \<Rightarrow> bytes" where
  "txn_msg t p n = take (fd_txn_msg_sz t n) (drop (unat (message_off t)) p)"

lemma encode_message:
  "encode m = (if a_version m = FD_TXN_V1 then atxn_message m @ concat (a_sigs m)
     else (byte (length (a_sigs m)) # concat (a_sigs m)) @ atxn_message m)"
  by (simp add: encode_def atxn_message_def enc_hd_def)

lemma txn_msg_layout:
  assumes m: "atxn_wf m" and p: "bytes_at p 0 (encode m)"
  shows "txn_msg (layout m) p (length (encode m)) = atxn_message m"
proof -
  have sig: "length (concat (a_sigs m)) = 64 * length (a_sigs m)"
    using m by (intro length_concat_const) (simp add: atxn_wf_def atxn_common_def)
  have len: "length (encode m) \<le> 4096"
    using m by (auto simp: atxn_wf_def split: if_splits)
  obtain r where r: "p = encode m @ r"
    using p by (auto simp: bytes_at_0)
  show ?thesis
  proof (cases "a_version m = FD_TXN_V1")
    case True
    let ?n = "length (atxn_message m)"
    have n: "length (enc_v1_head m @ enc_v1_headers m) + length (enc_v1_payloads m) = ?n" "?n \<le> 4096"
      using True len by (simp_all add: encode_message, simp_all add: atxn_message_def)
    then have "unat (signature_off (layout m)) = ?n" "message_off (layout m) = 0" "transaction_version (layout m) = FD_TXN_V1"
      using True by (simp_all add: layout_def Let_def unat_of_nat_u16 del: of_nat_add length_append)
    then show ?thesis
      using True n(2) by (simp add: txn_msg_def fd_txn_msg_sz_def ulong_sub_le r encode_message)
  next
    case False
    let ?o = "1 + 64 * length (a_sigs m)"
    have o: "?o \<le> length (encode m)"
      using False sig by (simp add: encode_message)
    then have "unat (message_off (layout m)) = ?o" "transaction_version (layout m) \<noteq> FD_TXN_V1"
      using False len by (simp_all add: layout_def Let_def unat_of_nat_u16 del: of_nat_add of_nat_mult of_nat_Suc)
    then have "txn_msg (layout m) p (length (encode m)) = take (length (encode m) - ?o) (drop ?o p)"
      using o len by (simp add: txn_msg_def fd_txn_msg_sz_def ulong_sub_le)
    also have "\<dots> = atxn_message m"
      using False sig by (simp add: r encode_message)
    finally show ?thesis .
  qed
qed

lemma cu16_at_cu16:
  assumes "bytes_at p i (cu16 n)" "n < 65536" "i + 3 \<le> length p"
  shows "cu16_at p i 3 = Some (length (cu16 n), n)"
proof -
  have c: "map unat (cu16 n) = cu16_bytes n" "length (cu16 n) = length (cu16_bytes n)"
    using map_unat_fd_cu16_enc [of "of_nat n"] assms(2) by (simp_all add: cu16_def unat_of_nat_u16 flip: length_map [of unat])
  have l: "length (cu16_bytes n) \<le> 3"
    using cu16_length(2) [of n] c by simp
  then have "take (length (cu16_bytes n)) [unat (p ! i), unat (p ! (i + 1)), unat (p ! (i + 2))] = cu16_bytes n"
    using take_3_nth [of "length (cu16 n)" i p] assms(1,3) c by (simp add: bytes_at_def)
  then show ?thesis
    using cu16_spec_complete [of n] l assms(2) c(2) by simp
qed

lemma message_lengths:
  assumes "atxn_wf m"
  shows "1 \<le> length (a_sigs m)" "length (a_sigs m) \<le> 12" "length (a_sigs m) \<le> length (a_addrs m)"
    "length (a_addrs m) \<le> 64" "length (concat (a_addrs m)) = 32 * length (a_addrs m)"
    "length (a_blockhash m) = 32" "length (a_instrs m) \<le> 64"
  using assms by (auto simp: atxn_wf_def atxn_common_def intro: length_concat_const)

lemma bytes_at_self: "bytes_at (xs @ ys) 0 xs"
  by (simp add: bytes_at_def)

lemma txn_like_message:
  assumes "atxn_wf m"
  shows "txn_like (atxn_message m)"
proof (cases "a_version m = FD_TXN_V1")
  case True
  note l = message_lengths [OF assms]
  let ?d = "atxn_message m"
  have at: "bytes_at ?d 0 (enc_v1_head m)"
    using True bytes_at_self by (simp add: atxn_message_def)
  have "69 \<le> length ?d"
    using True l by (simp add: atxn_message_def enc_v1_hd_def)
  moreover have "?d ! 0 = 0x81" "?d ! 1 = byte (length (a_sigs m))" "?d ! 40 = byte (length (a_instrs m))"
      "?d ! 41 = byte (length (a_addrs m))"
    using at l(6) by (simp_all add: enc_v1_hd_def)
  moreover have "byte (length (a_sigs m)) \<noteq> 0"
    using l by (auto simp: unat_byte simp flip: unat_zero_iff)
  ultimately show ?thesis
    using l by (simp add: txn_like_def unat_byte Let_def)
next
  case False
  note l = message_lengths [OF assms]
  let ?d = "atxn_message m" and ?v = "length (enc_version (a_version m))"
  have at: "bytes_at ?d 0 (enc_version (a_version m) @ [byte (length (a_sigs m)), a_ro_signed m, a_ro_unsigned m] @
        cu16 (length (a_addrs m)))"
    using False by (simp add: atxn_message_def bytes_at_0 del: bytes_at_append)
  have len: "68 + ?v + length (cu16 (length (a_instrs m))) \<le> length ?d"
    using False l cu16_length(1) [of "length (a_addrs m)"] by (simp add: atxn_message_def)
  have cu: "cu16_at ?d (?v + 1 + 2) 3 = Some (length (cu16 (length (a_addrs m))), length (a_addrs m))"
    using at l len by (intro cu16_at_cu16) simp_all
  have tail: "tail_like ?d (?v + 1) (length (a_sigs m))"
    unfolding tail_like_def cu using l len by simp
  have s: "unat (byte (length (a_sigs m))) = length (a_sigs m)"
    using l by (intro unat_byte) simp
  have len': "69 \<le> length ?d"
    using len cu16_length(1) [of "length (a_instrs m)"] by simp
  show ?thesis
  proof (cases "a_version m = FD_TXN_V0")
    case True
    then have "tail_like ?d 2 (length (a_sigs m))"
      using tail by (simp add: enc_version_def numeral_2_eq_2)
    then show ?thesis
      using True at s len' by (simp add: txn_like_def enc_version_def Let_def)
  next
    case no: False
    then show ?thesis
      using at tail s l len' by (simp add: txn_like_def enc_version_def Let_def)
  qed
qed

lemma cu16_small:
  assumes "bytes_at p i (cu16 n)" "n < 65536" "i + 3 \<le> length p" "unat (p ! i) < 128"
  shows "n = unat (p ! i) \<and> length (cu16 n) = 1"
  using cu16_at_cu16 [OF assms(1-3)] assms(4) by (simp add: cu16_spec_def)

lemma vote_instr_bytes:
  assumes "authorize_vote_instr d 0 off c = Ok True"
  shows "\<exists>n. unat (d ! off) = 1 \<and> unat (d ! (off + 1)) = c - 1 \<and>
    take 32 (drop (4 + (c - 1) * 32) d) = fd_solana_vote_program_id \<and> unat (d ! (off + 2)) = 2 \<and>
    fd_cu16_dec_sz d (off + 5) 3 = Ok n \<and> unat (d ! (off + 5 + n)) = 14"
proof -
  have "off + 1 + 1 = off + 2" "off + 2 + 3 = off + 5"
    by simp_all
  then show ?thesis
    using assms unfolding authorize_vote_instr_def Let_def
    by (simp only: res_ok add_0 res.inject) (auto simp del: One_nat_def)
qed

lemma vote_txn_bytes:
  assumes "fd_keyguard_authorize_vote_txn a d 0 sz st = Ok True" "authority_ok a"
  obtains s where "s = 1 \<or> s = 2" "unat (d ! 0) = s" "unat (d ! 2) = 1" "unat (d ! 3) = 2 + s" "st = 0"
    "take 32 (drop 4 d) = identity_pubkey a" "4 + (s + 3) * 32 + 9 \<le> sz"
    "authorize_vote_instr d 0 (4 + (s + 3) * 32) (2 + s) = Ok True"
proof (rule that [OF _ refl])
  let ?s = "unat (d ! 0)"
  have four: "(4 :: nat) = Suc (Suc (Suc (Suc 0)))"
    by simp
  show "?s = 1 \<or> ?s = 2" "unat (d ! 2) = 1" "unat (d ! 3) = 2 + ?s" "st = 0" "take 32 (drop 4 d) = identity_pubkey a"
    "authorize_vote_instr d 0 (4 + (?s + 3) * 32) (2 + ?s) = Ok True" "4 + (?s + 3) * 32 + 9 \<le> sz"
    using assms
    by (auto simp: fd_keyguard_authorize_vote_txn_def res_ok Let_def sign_type_defs authority_ok_def
        algebra_simps numeral_2_eq_2 numeral_3_eq_3 four)
qed

lemma cu16_byte: "n < 128 \<Longrightarrow> cu16 n = [byte n]"
proof -
  assume n: "n < 128"
  then have "map unat (cu16 n) = map unat [byte n]"
    using map_unat_fd_cu16_enc [of "of_nat n"] by (simp add: cu16_def unat_of_nat_u16 cu16_bytes_def unat_byte)
  then show ?thesis
    by (rule map_unat_inj)
qed

lemma legacy_message_byte:
  assumes "atxn_wf m" "unat (atxn_message m ! 0) < 128"
  shows "a_version m = FD_TXN_VLEGACY"
proof -
  have "a_version m = FD_TXN_V1 \<Longrightarrow> atxn_message m ! 0 = 0x81" "a_version m = FD_TXN_V0 \<Longrightarrow> atxn_message m ! 0 = 0x80"
    by (auto simp: atxn_message_def enc_v1_hd_def enc_version_def txn_consts)
  then show ?thesis
    using assms by (auto simp: atxn_wf_def split: if_splits)
qed

lemma legacy_message:
  assumes "atxn_wf m" "a_version m = FD_TXN_VLEGACY"
  defines "d \<equiv> atxn_message m" and "na \<equiv> length (a_addrs m)"
  shows "unat (d ! 0) = length (a_sigs m)" "unat (d ! 3) = na" "bytes_at d 4 (concat (a_addrs m))"
    "unat (d ! (36 + 32 * na)) = length (a_instrs m)" "bytes_at d (37 + 32 * na) (concat (map enc_instr (a_instrs m)))"
    "length d = 37 + 32 * na + length (concat (map enc_instr (a_instrs m)))"
proof -
  note l = message_lengths [OF assms(1)]
  let ?na = "length (a_addrs m)" and ?ni = "length (a_instrs m)"
  have "a_luts m = []" "FD_TXN_VLEGACY \<noteq> FD_TXN_V1" "FD_TXN_VLEGACY \<noteq> FD_TXN_V0"
    using assms(1,2) by (auto simp: atxn_wf_def txn_consts split: if_splits)
  then have d: "d = [byte (length (a_sigs m)), a_ro_signed m, a_ro_unsigned m, byte ?na] @ concat (a_addrs m) @
      a_blockhash m @ [byte ?ni] @ concat (map enc_instr (a_instrs m))"
    using assms(2) l by (simp add: d_def atxn_message_def enc_version_def enc_luts_def cu16_byte)
  have at: "bytes_at d 0 d"
    by (simp add: bytes_at_def)
  from at [unfolded d] have at': "bytes_at d 0 ([byte (length (a_sigs m)), a_ro_signed m, a_ro_unsigned m, byte ?na] @
      concat (a_addrs m) @ a_blockhash m @ [byte ?ni] @ concat (map enc_instr (a_instrs m)))"
    by (simp only: d)
  have idx: "Suc (Suc (Suc 0)) = 3" "Suc (Suc (Suc (Suc 0))) = 4"
    by simp_all
  show "unat (d ! 0) = length (a_sigs m)" "unat (d ! 3) = na" "bytes_at d 4 (concat (a_addrs m))"
    "unat (d ! (36 + 32 * na)) = length (a_instrs m)" "bytes_at d (37 + 32 * na) (concat (map enc_instr (a_instrs m)))"
    using at' l by (simp_all add: idx unat_byte na_def)
  show "length d = 37 + 32 * na + length (concat (map enc_instr (a_instrs m)))"
    using l by (simp add: d na_def)
qed

lemma instr_accts:
  assumes "bytes_at d i (enc_instr x @ r)" "length (a_accts x) \<le> 255" "i + 4 \<le> length d" "unat (d ! (i + 1)) < 128"
  shows "a_prog x = d ! i" "length (a_accts x) = unat (d ! (i + 1))"
    "bytes_at d (i + 2 + length (a_accts x)) (cu16 (length (a_data x)) @ a_data x @ r)"
proof -
  have at: "bytes_at d (i + 1) (cu16 (length (a_accts x)))"
    using assms(1) by (simp add: enc_instr_def)
  then have c: "length (a_accts x) = unat (d ! (i + 1)) \<and> length (cu16 (length (a_accts x))) = 1"
    using assms by (intro cu16_small [OF at]) simp_all
  then show "a_prog x = d ! i" "length (a_accts x) = unat (d ! (i + 1))"
    "bytes_at d (i + 2 + length (a_accts x)) (cu16 (length (a_data x)) @ a_data x @ r)"
    using assms(1) by (auto simp: enc_instr_def)
qed

lemma vote_message:
  assumes wf: "atxn_wf m" and a: "authority_ok a"
    and ok: "fd_keyguard_authorize_vote_txn a (atxn_message m) 0 (length (atxn_message m)) st = Ok True"
  shows "a_version m = FD_TXN_VLEGACY \<and> length (a_sigs m) \<le> 2 \<and> a_addrs m ! 0 = identity_pubkey a \<and>
    (\<exists>x. a_instrs m = [x] \<and> a_addrs m ! unat (a_prog x) = fd_solana_vote_program_id \<and>
       length (a_accts x) = 2 \<and> a_data x \<noteq> [] \<and> hd (a_data x) = 14)"
proof -
  let ?d = "atxn_message m" and ?na = "length (a_addrs m)"
  obtain s where s: "s = 1 \<or> s = 2" "unat (?d ! 0) = s" "unat (?d ! 3) = 2 + s"
      "take 32 (drop 4 ?d) = identity_pubkey a" "4 + (s + 3) * 32 + 9 \<le> length ?d"
    and i: "authorize_vote_instr ?d 0 (4 + (s + 3) * 32) (2 + s) = Ok True"
    by (rule vote_txn_bytes [OF ok a], rule that)
  have v: "a_version m = FD_TXN_VLEGACY"
    using legacy_message_byte [OF wf] s by auto
  note leg = legacy_message [OF wf v]
  have na: "?na = 2 + s" "length (a_sigs m) = s"
    using leg s by simp_all
  define off where "off = 36 + 32 * ?na"
  have off: "4 + (s + 3) * 32 = off" "(2 + s - 1) = s + 1"
    using na by (simp_all add: off_def)
  obtain n where n: "unat (?d ! off) = 1" "unat (?d ! (off + 1)) = s + 1"
      "take 32 (drop (4 + (s + 1) * 32) ?d) = fd_solana_vote_program_id" "unat (?d ! (off + 2)) = 2"
      "fd_cu16_dec_sz ?d (off + 5) 3 = Ok n" "unat (?d ! (off + 5 + n)) = 14"
    using vote_instr_bytes [OF i] unfolding off by blast
  have "length (a_instrs m) = 1"
    using leg(4) n(1) by (simp add: off_def)
  then obtain x where x: "a_instrs m = [x]"
    by (auto simp: length_Suc_conv)
  have at: "bytes_at ?d (off + 1) (enc_instr x @ [])" and acc: "length (a_accts x) \<le> 255"
    using leg(5) x wf by (simp_all add: off_def atxn_wf_def atxn_common_def)
  have len: "off + 9 \<le> length ?d"
    using s(5) off by simp
  have idx: "off + 1 + 1 = off + 2" "off + 1 + 2 + 2 = off + 5"
    by simp_all
  have lt: "unat (?d ! (off + 1 + 1)) < 128" "off + 1 + 4 \<le> length ?d"
    unfolding idx n(4) using len by simp_all
  note acs = instr_accts [OF at acc lt(2,1)]
  have accts: "length (a_accts x) = 2" "unat (a_prog x) = s + 1"
    using acs(2) unfolding idx n(4) acs(1) n(2) by simp_all
  have dat: "bytes_at ?d (off + 5) (cu16 (length (a_data x)) @ a_data x @ [])"
    using acs(3) unfolding accts idx .
  have c: "length (cu16 (length (a_accts x))) = 1"
    using accts by (simp add: cu16_byte)
  have dl: "length ?d = off + 5 + length (cu16 (length (a_data x))) + length (a_data x)"
    using leg(6) x c accts by (simp add: off_def enc_instr_def)
  have "length ?d \<le> length (encode m)"
    by (simp add: encode_message)
  then have dsz: "length (a_data x) < 65536"
    using dl wf by (auto simp: atxn_wf_def split: if_splits)
  have "cu16_at ?d (off + 5) 3 = Some (length (cu16 (length (a_data x))), length (a_data x))"
    using dat dsz len by (intro cu16_at_cu16) simp_all
  then have n': "n = length (cu16 (length (a_data x)))"
    using fd_cu16_dec_sz_eq [of "off + 5" 3 ?d] n(5) len by simp
  have ne: "a_data x \<noteq> []"
    using dl len by (auto simp: cu16_byte)
  then have "hd (a_data x) = ?d ! (off + 5 + n)"
    using dat n' by (cases "a_data x") simp_all
  then have hd: "hd (a_data x) = 14"
    using n(6) by (simp add: u8_eq_iff)
  have ad: "\<forall>y \<in> set (a_addrs m). length y = 32"
    using wf by (simp add: atxn_wf_def atxn_common_def)
  have "a_addrs m ! 0 = identity_pubkey a" "a_addrs m ! (s + 1) = fd_solana_vote_program_id"
    using bytes_at_eq [OF addr_at [OF leg(3) ad, of 0]] bytes_at_eq [OF addr_at [OF leg(3) ad, of "s + 1"]]
      s(4) n(3) na ad by (simp_all add: mult.commute)
  then show ?thesis
    using v na s(1) x accts ne hd by auto
qed

end
