(* ===== verification/Keyguard_Crank.thy ===== *)
theory Keyguard_Crank
  imports Keyguard_Txn
begin

text \<open>
  The crank transactions: a transaction message that passes the crank check invokes only the compute
  budget program, the tip programs of the validator's configuration and the memo program.
\<close>

text \<open>The fixed bytes of the two crank transactions that decide which programs they invoke.\<close>

definition fixed_byte :: "bytes \<Rightarrow> bytes \<Rightarrow> nat \<Rightarrow> nat \<Rightarrow> bool" where
  "fixed_byte crank_mask crank_vals i v \<longleftrightarrow> crank_mask ! (i + 65) \<noteq> 0 \<and> unat (crank_vals ! (i + 65)) = v"

lemma crank_2_fixed:
  "list_all (\<lambda>(i, v). fixed_byte FD_BUNDLE_CRANK_2_MASK FD_BUNDLE_CRANK_2_VALS i v)
     [(0, 1), (2, 3), (3, 19), (644, 4), (645, 16), (646, 0), (647, 5), (653, 17), (654, 13), (668, 8), (677, 17), (678, 13),
      (692, 16), (709, 18), (710, 0), (711, 3)]"
  by (simp add: fixed_byte_def FD_BUNDLE_CRANK_2_MASK_def FD_BUNDLE_CRANK_2_VALS_def)

lemma crank_3_fixed:
  "list_all (\<lambda>(i, v). fixed_byte FD_BUNDLE_CRANK_3_MASK FD_BUNDLE_CRANK_3_VALS i v)
     [(0, 1), (2, 5), (3, 21), (708, 5), (709, 16), (710, 0), (711, 5), (717, 20), (718, 5), (724, 43), (768, 17), (769, 13), (783, 8),
      (792, 17), (793, 13), (807, 16), (824, 18), (825, 0), (826, 3)]"
  by (simp add: fixed_byte_def FD_BUNDLE_CRANK_3_MASK_def FD_BUNDLE_CRANK_3_VALS_def)

definition compute_budget_program_id :: bytes where
  "compute_budget_program_id =
     [0x03, 0x06, 0x46, 0x6F, 0xE5, 0x21, 0x17, 0x32, 0xFF, 0xEC, 0xAD, 0xBA, 0x72, 0xC3, 0x9B, 0xE7,
      0xBC, 0x8C, 0xE5, 0xBB, 0xC5, 0xF7, 0x12, 0x6B, 0x2C, 0x43, 0x9B, 0x3A, 0x40, 0x00, 0x00, 0x00]"

definition memo_program_id :: bytes where
  "memo_program_id =
     [0x05, 0x4A, 0x53, 0x5A, 0x99, 0x29, 0x21, 0x06, 0x4D, 0x24, 0xE8, 0x71, 0x60, 0xDA, 0x38, 0x7C,
      0x7C, 0x35, 0xB5, 0xDD, 0xBC, 0x92, 0xBB, 0x81, 0xE4, 0x1F, 0xA8, 0x40, 0x41, 0x05, 0x44, 0x8D]"

lemma crank_programs:
  "list_all (\<lambda>b. b \<noteq> 0) (take 32 (drop 581 FD_BUNDLE_CRANK_2_MASK))"
  "take 32 (drop 581 FD_BUNDLE_CRANK_2_VALS) = compute_budget_program_id"
  "list_all (\<lambda>b. b \<noteq> 0) (take 32 (drop 645 FD_BUNDLE_CRANK_2_MASK))"
  "take 32 (drop 645 FD_BUNDLE_CRANK_2_VALS) = memo_program_id"
  "list_all (\<lambda>b. b \<noteq> 0) (take 32 (drop 581 FD_BUNDLE_CRANK_3_MASK))"
  "take 32 (drop 581 FD_BUNDLE_CRANK_3_VALS) = compute_budget_program_id"
  "list_all (\<lambda>b. b \<noteq> 0) (take 32 (drop 645 FD_BUNDLE_CRANK_3_MASK))"
  "take 32 (drop 645 FD_BUNDLE_CRANK_3_VALS) = memo_program_id"
  by (simp_all add: FD_BUNDLE_CRANK_2_MASK_def FD_BUNDLE_CRANK_2_VALS_def FD_BUNDLE_CRANK_3_MASK_def
      FD_BUNDLE_CRANK_3_VALS_def compute_budget_program_id_def memo_program_id_def)

lemma instr_fixed:
  assumes at: "bytes_at d i (enc_instr x @ r)" and acc: "length (a_accts x) \<le> 255" and d: "length d < 65536"
    and k: "unat (d ! (i + 1)) = k" "k < 128" and l: "unat (d ! (i + 2 + k)) = l" "l < 128" and len: "i + 5 + k \<le> length d"
  shows "a_prog x = d ! i \<and> bytes_at d (i + 3 + k + l) r"
proof -
  have lt: "i + 4 \<le> length d" "unat (d ! (i + 1)) < 128"
    using k len by simp_all
  note acs = instr_accts [OF at acc lt]
  have dat: "bytes_at d (i + 2 + k) (cu16 (length (a_data x)) @ a_data x @ r)"
    using acs(3) unfolding acs(2) k(1) .
  have "length (a_data x) < 65536"
    using bytes_at_length [of d "i + 2 + k + length (cu16 (length (a_data x)))" "a_data x"] dat d
    by (cases "a_data x = []") auto
  then have "length (a_data x) = unat (d ! (i + 2 + k)) \<and> length (cu16 (length (a_data x))) = 1"
    using dat l len by (intro cu16_small) simp_all
  then have eq: "i + 2 + k + length (cu16 (length (a_data x))) + length (a_data x) = i + 3 + k + l"
    using l(1) by linarith
  have "bytes_at d (i + 3 + k + l) r"
    using dat unfolding bytes_at_append eq by (elim conjE)
  then show ?thesis
    using acs(1) by simp
qed

definition crank_fixed :: "bytes \<Rightarrow> bytes \<Rightarrow> bytes \<Rightarrow> bool" where
  "crank_fixed crank_mask crank_vals d \<longleftrightarrow>
     (\<forall>j < length d. crank_mask ! (j + 65) \<noteq> 0 \<longrightarrow> d ! j = crank_vals ! (j + 65))"

lemma crank_bytes:
  assumes "fd_keyguard_authorize_bundle_crank_txn a d (length d) st = Ok True" "authority_ok a"
  shows "(length d = 715 \<and> crank_fixed FD_BUNDLE_CRANK_2_MASK FD_BUNDLE_CRANK_2_VALS d \<or>
      length d = 830 \<and> crank_fixed FD_BUNDLE_CRANK_3_MASK FD_BUNDLE_CRANK_3_VALS d \<and>
        take 32 (drop 644 d) = tip_distribution_program a) \<and>
    take 32 (drop 4 d) = identity_pubkey a \<and> take 32 (drop 548 d) = tip_payment_program a \<and> st = 0"
proof -
  have "length d = 715 \<or> length d = 830" "st = 0"
    using assms(1) by (auto simp: fd_keyguard_authorize_bundle_crank_txn_def crank_consts sign_type_defs split: if_splits)
  then show ?thesis
    using assms
    by (auto simp: fd_keyguard_authorize_bundle_crank_txn_def crank_consts sign_type_defs crank_mask_loop_eq
        authority_ok_def crank_fixed_def split: if_splits)
qed

lemma crank_fixed_byte:
  "crank_fixed ma vals d \<Longrightarrow> fixed_byte ma vals i v \<Longrightarrow> i < length d \<Longrightarrow> unat (d ! i) = v"
  by (auto simp: crank_fixed_def fixed_byte_def)

lemma crank_fixed_slice:
  assumes f: "crank_fixed ma vals d" and ma: "list_all (\<lambda>b. b \<noteq> 0) (take 32 (drop (i + 65) ma))"
    and len: "i + 32 \<le> length d" "length d + 65 \<le> length ma" "length ma = length vals"
  shows "take 32 (drop i d) = take 32 (drop (i + 65) vals)"
proof (rule nth_equalityI)
  fix j
  assume j: "j < length (take 32 (drop i d))"
  then have "take 32 (drop (i + 65) ma) ! j \<noteq> 0"
    using ma len by (simp add: list_all_length)
  then have "ma ! (i + j + 65) \<noteq> 0"
    using j len by (simp add: ac_simps)
  then have "d ! (i + j) = vals ! (i + j + 65)"
    using f j len by (simp add: crank_fixed_def)
  then show "take 32 (drop i d) ! j = take 32 (drop (i + 65) vals) ! j"
    using j len by (simp add: ac_simps)
qed (use len in simp)

lemma length_4: "length xs = 4 \<Longrightarrow> \<exists>a b c d. xs = [a, b, c, d]"
  and length_5: "length xs = 5 \<Longrightarrow> \<exists>a b c d e. xs = [a, b, c, d, e]"
  by (auto simp: length_Suc_conv numeral_eq_Suc)

lemma crank_2_instrs:
  assumes f: "crank_fixed FD_BUNDLE_CRANK_2_MASK FD_BUNDLE_CRANK_2_VALS d" and d: "length d = 715"
    and at: "bytes_at d 645 (concat (map enc_instr xs))" and xs: "length xs = 4"
    and acc: "\<And>x. x \<in> set xs \<Longrightarrow> length (a_accts x) \<le> 255"
  shows "map (\<lambda>x. unat (a_prog x)) xs = [16, 17, 17, 18]"
proof -
  obtain x1 x2 x3 x4 where x: "xs = [x1, x2, x3, x4]"
    using length_4 [OF xs] by blast
  have fb: "unat (d ! i) = v" if "(i, v) \<in> set [(645, 16), (646, 0), (647, 5), (653, 17), (654, 13), (668, 8), (677, 17), (678, 13),
      (692, 16), (709, 18), (710, 0), (711, 3)]" for i v
    using that d crank_2_fixed crank_fixed_byte [OF f, of i v] by auto
  have a: "bytes_at d 645 (enc_instr x1 @ enc_instr x2 @ enc_instr x3 @ enc_instr x4 @ [])"
    using at by (simp add: x)
  have s1: "a_prog x1 = d ! 645 \<and> bytes_at d (645 + 3 + 0 + 5) (enc_instr x2 @ enc_instr x3 @ enc_instr x4 @ [])"
    using fb d acc by (intro instr_fixed [OF a]) (simp_all add: x)
  have s2: "a_prog x2 = d ! 653 \<and> bytes_at d (653 + 3 + 13 + 8) (enc_instr x3 @ enc_instr x4 @ [])"
    using fb d acc s1 by (intro instr_fixed) (simp_all add: x)
  have s3: "a_prog x3 = d ! 677 \<and> bytes_at d (677 + 3 + 13 + 16) (enc_instr x4 @ [])"
    using fb d acc s2 by (intro instr_fixed) (simp_all add: x)
  have s4: "a_prog x4 = d ! 709 \<and> bytes_at d (709 + 3 + 0 + 3) []"
    using fb d acc s3 by (intro instr_fixed) (simp_all add: x)
  show ?thesis
    using s1 s2 s3 s4 fb by (simp add: x)
qed

lemma crank_3_instrs:
  assumes f: "crank_fixed FD_BUNDLE_CRANK_3_MASK FD_BUNDLE_CRANK_3_VALS d" and d: "length d = 830"
    and at: "bytes_at d 709 (concat (map enc_instr xs))" and xs: "length xs = 5"
    and acc: "\<And>x. x \<in> set xs \<Longrightarrow> length (a_accts x) \<le> 255"
  shows "map (\<lambda>x. unat (a_prog x)) xs = [16, 20, 17, 17, 18]"
proof -
  obtain x1 x2 x3 x4 x5 where x: "xs = [x1, x2, x3, x4, x5]"
    using length_5 [OF xs] by blast
  have fb: "unat (d ! i) = v" if "(i, v) \<in> set [(709, 16), (710, 0), (711, 5), (717, 20), (718, 5), (724, 43), (768, 17), (769, 13), (783, 8),
      (792, 17), (793, 13), (807, 16), (824, 18), (825, 0), (826, 3)]" for i v
    using that d crank_3_fixed crank_fixed_byte [OF f, of i v] by auto
  have a: "bytes_at d 709 (enc_instr x1 @ enc_instr x2 @ enc_instr x3 @ enc_instr x4 @ enc_instr x5 @ [])"
    using at by (simp add: x)
  have s1: "a_prog x1 = d ! 709 \<and> bytes_at d (709 + 3 + 0 + 5) (enc_instr x2 @ enc_instr x3 @ enc_instr x4 @ enc_instr x5 @ [])"
    using fb d acc by (intro instr_fixed [OF a]) (simp_all add: x)
  have s2: "a_prog x2 = d ! 717 \<and> bytes_at d (717 + 3 + 5 + 43) (enc_instr x3 @ enc_instr x4 @ enc_instr x5 @ [])"
    using fb d acc s1 by (intro instr_fixed) (simp_all add: x)
  have s3: "a_prog x3 = d ! 768 \<and> bytes_at d (768 + 3 + 13 + 8) (enc_instr x4 @ enc_instr x5 @ [])"
    using fb d acc s2 by (intro instr_fixed) (simp_all add: x)
  have s4: "a_prog x4 = d ! 792 \<and> bytes_at d (792 + 3 + 13 + 16) (enc_instr x5 @ [])"
    using fb d acc s3 by (intro instr_fixed) (simp_all add: x)
  have s5: "a_prog x5 = d ! 824 \<and> bytes_at d (824 + 3 + 0 + 3) []"
    using fb d acc s4 by (intro instr_fixed) (simp_all add: x)
  show ?thesis
    using s1 s2 s3 s4 s5 fb by (simp add: x)
qed

lemma one_signer_message:
  assumes wf: "atxn_wf m" and b: "unat (atxn_message m ! 0) = 1" "unat (atxn_message m ! 3) = na"
    "unat (atxn_message m ! (36 + 32 * na)) = ni"
  shows "a_version m = FD_TXN_VLEGACY" "length (a_sigs m) = 1" "length (a_instrs m) = ni"
    "bytes_at (atxn_message m) (37 + 32 * na) (concat (map enc_instr (a_instrs m)))"
    "\<And>i. i < na \<Longrightarrow> a_addrs m ! i = take 32 (drop (4 + 32 * i) (atxn_message m))"
proof -
  show v: "a_version m = FD_TXN_VLEGACY"
    using legacy_message_byte [OF wf] b by simp
  note leg = legacy_message [OF wf v]
  have na: "length (a_addrs m) = na" and ad: "\<forall>y \<in> set (a_addrs m). length y = 32"
    using leg(2) b wf by (simp_all add: atxn_wf_def atxn_common_def)
  show "length (a_sigs m) = 1" "length (a_instrs m) = ni"
    "bytes_at (atxn_message m) (37 + 32 * na) (concat (map enc_instr (a_instrs m)))"
    using leg b unfolding na by simp_all
  show "a_addrs m ! i = take 32 (drop (4 + 32 * i) (atxn_message m))" if "i < na" for i
    using bytes_at_eq [OF addr_at [OF leg(3) ad, of i]] that ad na by simp
qed

lemma crank_message:
  assumes wf: "atxn_wf m" and a: "authority_ok a"
    and ok: "fd_keyguard_authorize_bundle_crank_txn a (atxn_message m) (length (atxn_message m)) st = Ok True"
  shows "a_version m = FD_TXN_VLEGACY \<and> length (a_sigs m) = 1 \<and> a_addrs m ! 0 = identity_pubkey a \<and>
    map (\<lambda>x. a_addrs m ! unat (a_prog x)) (a_instrs m) \<in>
      {[compute_budget_program_id, tip_payment_program a, tip_payment_program a, memo_program_id],
       [compute_budget_program_id, tip_distribution_program a, tip_payment_program a, tip_payment_program a, memo_program_id]}"
proof -
  let ?d = "atxn_message m" and ?x = "a_instrs m"
  note cb = crank_bytes [OF ok a]
  have acc: "\<And>x. x \<in> set ?x \<Longrightarrow> length (a_accts x) \<le> 255"
    using wf by (simp add: atxn_wf_def atxn_common_def)
  have mp: "map (\<lambda>x. a_addrs m ! unat (a_prog x)) ?x = map ((!) (a_addrs m)) (map (\<lambda>x. unat (a_prog x)) ?x)"
    by simp
  from cb consider (two) "length ?d = 715" "crank_fixed FD_BUNDLE_CRANK_2_MASK FD_BUNDLE_CRANK_2_VALS ?d"
    | (three) "length ?d = 830" "crank_fixed FD_BUNDLE_CRANK_3_MASK FD_BUNDLE_CRANK_3_VALS ?d"
        "take 32 (drop 644 ?d) = tip_distribution_program a"
    by blast
  then show ?thesis
  proof cases
    case two
    have b: "unat (?d ! 0) = 1" "unat (?d ! 3) = 19" "unat (?d ! (36 + 32 * 19)) = 4"
      using crank_2_fixed crank_fixed_byte [OF two(2), of 0 1] crank_fixed_byte [OF two(2), of 3 19]
        crank_fixed_byte [OF two(2), of 644 4] two(1) by simp_all
    note shape = one_signer_message [OF wf b]
    have "take 32 (drop 516 ?d) = compute_budget_program_id" "take 32 (drop 580 ?d) = memo_program_id"
      using crank_fixed_slice [OF two(2), of 516] crank_fixed_slice [OF two(2), of 580] two(1) crank_programs(1-4) by simp_all
    moreover have "map (\<lambda>x. unat (a_prog x)) ?x = [16, 17, 17, 18]"
      using shape(3,4) by (intro crank_2_instrs [OF two(2,1)] acc) simp_all
    ultimately show ?thesis
      using cb shape(1,2) shape(5) [of 0] shape(5) [of 16] shape(5) [of 17] shape(5) [of 18] unfolding mp by simp
  next
    case three
    have b: "unat (?d ! 0) = 1" "unat (?d ! 3) = 21" "unat (?d ! (36 + 32 * 21)) = 5"
      using crank_3_fixed crank_fixed_byte [OF three(2), of 0 1] crank_fixed_byte [OF three(2), of 3 21]
        crank_fixed_byte [OF three(2), of 708 5] three(1) by simp_all
    note shape = one_signer_message [OF wf b]
    have "take 32 (drop 516 ?d) = compute_budget_program_id" "take 32 (drop 580 ?d) = memo_program_id"
      using crank_fixed_slice [OF three(2), of 516] crank_fixed_slice [OF three(2), of 580] three(1) crank_programs(5-8) by simp_all
    moreover have "map (\<lambda>x. unat (a_prog x)) ?x = [16, 20, 17, 17, 18]"
      using shape(3,4) by (intro crank_3_instrs [OF three(2,1)] acc) simp_all
    ultimately show ?thesis
      using cb shape(1,2) three(3) shape(5) [of 0] shape(5) [of 16] shape(5) [of 17] shape(5) [of 18] shape(5) [of 20]
      unfolding mp by simp
  qed
qed

end
