(* ===== verification/Keyguard_Roles.thy ===== *)
theory Keyguard_Roles
  imports Keyguard_Crank
begin

text \<open>
  What the keyguard signs for whom: \<open>role_allows\<close> describes the requests each role may have signed,
  \<open>authorize_iff\<close> shows that \<open>fd_keyguard_payload_authorize\<close> accepts exactly these, and the
  properties follow from it.
\<close>

subsection \<open>What an authorised request is\<close>

lemma mask_and_True: "(mask_and ma b c = Ok True) = (ma AND b \<noteq> 0 \<and> c = Ok True)"
  by (simp add: mask_and_def)

text \<open>What each role may have signed.\<close>

definition role_allows :: "fd_keyguard_authority \<Rightarrow> bytes \<Rightarrow> int \<Rightarrow> int \<Rightarrow> bool" where
  "role_allows a data role st \<longleftrightarrow>
     (let sz = length data in
      role = FD_KEYGUARD_ROLE_TXSEND \<and> st = 0 \<and>
        (txn_like data \<and> fd_keyguard_authorize_vote_txn a data 0 sz st = Ok True \<or>
         sz = 130 \<and> take 98 data = client_prefix) \<or>
      role = FD_KEYGUARD_ROLE_GOSSIP \<and>
        (st = 0 \<and> ping_like data \<or> st = 1 \<and> pong_like data \<or>
         st = 0 \<and> prune_like data \<and> take 32 (drop 26 data) = identity_pubkey a \<or>
         st = 0 \<and> gossip_like data \<and> fd_keyguard_authorize_gossip a data sz st = Ok True) \<or>
      role = FD_KEYGUARD_ROLE_REPAIR \<and>
        (st = 1 \<and> pong_like data \<or>
         st = 0 \<and> repair_like data \<and> 80 \<le> sz \<and> take 32 (drop 4 data) = identity_pubkey a) \<or>
      role = FD_KEYGUARD_ROLE_LEADER \<and> st = 0 \<and> sz = 32 \<and> \<not> ping_like data \<and> \<not> bam_auth_like data \<or>
      role = FD_KEYGUARD_ROLE_BUNDLE \<and> st = 2 \<and> sz = 9 \<or>
      role = FD_KEYGUARD_ROLE_EVENT \<and> st = 0 \<and> event_like data \<or>
      role = FD_KEYGUARD_ROLE_BUNDLE_CRANK \<and> st = 0 \<and> txn_like data \<and>
        fd_keyguard_authorize_bundle_crank_txn a data sz st = Ok True \<or>
      role = FD_KEYGUARD_ROLE_RSERVE \<and> st = 0 \<and> ping_like data \<or>
      role = FD_KEYGUARD_ROLE_BAM \<and> st = 0 \<and> sz \<noteq> 32 \<and> bam_auth_like data)"

lemma mask_and_eq:
  "payload_mask d st = x \<Longrightarrow> x AND b = 0 \<Longrightarrow> payload_mask d st AND b = 0"
  "payload_mask d st = x \<Longrightarrow> x AND b \<noteq> 0 \<Longrightarrow> payload_mask d st AND b \<noteq> 0"
  by simp_all

lemma payload_mask_TXN: "payload_mask d st = FD_KEYGUARD_PAYLOAD_TXN \<longleftrightarrow> st = 0 \<and> txn_like d"
proof
  assume "st = 0 \<and> txn_like d"
  then show "payload_mask d st = FD_KEYGUARD_PAYLOAD_TXN"
    using types_exclusive(1) [of d] by (simp add: payload_mask_def)
qed (use payload_mask_bits(1) [of d st] in \<open>simp add: FD_KEYGUARD_PAYLOAD_TXN_def\<close>)

lemma payload_mask_EVENT: "payload_mask d st = FD_KEYGUARD_PAYLOAD_EVENT \<longleftrightarrow> st = 0 \<and> event_like d"
proof
  assume "st = 0 \<and> event_like d"
  then show "payload_mask d st = FD_KEYGUARD_PAYLOAD_EVENT"
    using types_exclusive(1-5) [of d] by (auto simp: payload_mask_def)
qed (use payload_mask_bits(10) [of d st] in \<open>simp add: FD_KEYGUARD_PAYLOAD_EVENT_def\<close>)

lemma payload_mask_BUNDLE: "payload_mask d st = FD_KEYGUARD_PAYLOAD_BUNDLE \<longleftrightarrow> st = 2 \<and> length d = 9"
proof
  assume "st = 2 \<and> length d = 9"
  then show "payload_mask d st = FD_KEYGUARD_PAYLOAD_BUNDLE"
    by (simp add: payload_mask_def)
qed (use payload_mask_bits(9) [of d st] in \<open>simp add: FD_KEYGUARD_PAYLOAD_BUNDLE_def\<close>)

lemma payload_mask_SHRED:
  "payload_mask d st = FD_KEYGUARD_PAYLOAD_SHRED \<longleftrightarrow> st = 0 \<and> length d = 32 \<and> \<not> ping_like d \<and> \<not> bam_auth_like d"
proof
  assume *: "payload_mask d st = FD_KEYGUARD_PAYLOAD_SHRED"
  have "payload_mask d st AND FD_KEYGUARD_PAYLOAD_SHRED \<noteq> 0" "payload_mask d st AND FD_KEYGUARD_PAYLOAD_PING = 0"
    "payload_mask d st AND FD_KEYGUARD_PAYLOAD_BAM_AUTH = 0"
    unfolding * by (simp_all add: payload_defs)
  then show "st = 0 \<and> length d = 32 \<and> \<not> ping_like d \<and> \<not> bam_auth_like d"
    by (simp add: payload_mask_bits)
next
  assume "st = 0 \<and> length d = 32 \<and> \<not> ping_like d \<and> \<not> bam_auth_like d"
  then show "payload_mask d st = FD_KEYGUARD_PAYLOAD_SHRED"
    using types_exclusive [of d] by (auto simp: payload_mask_def)
qed

lemma payload_mask_BAM:
  "payload_mask d st = FD_KEYGUARD_PAYLOAD_BAM_AUTH \<longleftrightarrow> st = 0 \<and> length d \<noteq> 32 \<and> bam_auth_like d"
proof
  assume *: "payload_mask d st = FD_KEYGUARD_PAYLOAD_BAM_AUTH"
  have "payload_mask d st AND FD_KEYGUARD_PAYLOAD_SHRED = 0" "payload_mask d st AND FD_KEYGUARD_PAYLOAD_BAM_AUTH \<noteq> 0"
    unfolding * by (simp_all add: payload_defs)
  then show "st = 0 \<and> length d \<noteq> 32 \<and> bam_auth_like d"
    by (simp add: payload_mask_bits)
next
  assume "st = 0 \<and> length d \<noteq> 32 \<and> bam_auth_like d"
  then show "payload_mask d st = FD_KEYGUARD_PAYLOAD_BAM_AUTH"
    using types_exclusive [of d] by (auto simp: payload_mask_def)
qed

lemmas payload_mask_eq = payload_mask_TXN payload_mask_EVENT payload_mask_BUNDLE payload_mask_SHRED payload_mask_BAM

lemma small_checks:
  assumes "authority_ok a"
  shows "fd_keyguard_authorize_ping d (length d) st = Ok (st = 0 \<and> ping_like d)"
    "fd_keyguard_authorize_pong d (length d) st = Ok (st = 1 \<and> pong_like d)"
    "106 \<le> length d \<Longrightarrow> fd_keyguard_authorize_gossip_prune a d (length d) st =
       Ok (st = 0 \<and> le_nat (take 8 d) = 18 \<and> take 18 (drop 8 d) = prune_prefix \<and> take 32 (drop 26 d) = identity_pubkey a)"
    "fd_keyguard_authorize_repair a d (length d) st =
       Ok (st = 0 \<and> 80 \<le> length d \<and> 8 \<le> le_nat (take 4 d) \<and> le_nat (take 4 d) \<le> 14 \<and>
           take 32 (drop 4 d) = identity_pubkey a)"
    "fd_keyguard_authorize_tls_cv d (length d) st = Ok (st = 0 \<and> length d = 130 \<and> take 98 d = client_prefix)"
  using assms
  by (simp_all add: fd_keyguard_authorize_ping_def fd_keyguard_authorize_pong_def fd_keyguard_authorize_gossip_prune_def
      fd_keyguard_authorize_repair_def fd_keyguard_authorize_tls_cv_def authority_ok_def sign_type_defs
      ping_like_def pong_like_def fd_tls13_cli_sign_prefix_def flip: client_prefix_def)

text \<open>Disjunctions of checks that all return.\<close>

lemma any_check:
  "twp m (\<lambda>_. True) \<Longrightarrow> (rbind m (\<lambda>x. if \<not> x then Ok False else Ok True) = Ok True) = (m = Ok True)"
  "twp m (\<lambda>_. True) \<Longrightarrow> twp m2 (\<lambda>_. True) \<Longrightarrow>
     (rbind m (\<lambda>x. rbind m2 (\<lambda>y. if \<not> x \<and> \<not> y then Ok False else Ok True)) = Ok True) = (m = Ok True \<or> m2 = Ok True)"
  "twp m (\<lambda>_. True) \<Longrightarrow> twp m2 (\<lambda>_. True) \<Longrightarrow> twp m3 (\<lambda>_. True) \<Longrightarrow> twp m4 (\<lambda>_. True) \<Longrightarrow>
     (rbind m (\<lambda>x. rbind m2 (\<lambda>y. rbind m3 (\<lambda>z. rbind m4 (\<lambda>w.
        if \<not> x \<and> \<not> y \<and> \<not> z \<and> \<not> w then Ok False else Ok True)))) = Ok True) =
     (m = Ok True \<or> m2 = Ok True \<or> m3 = Ok True \<or> m4 = Ok True)"
  by (auto simp: twp_iff split: if_splits)

lemma authorize_iff:
  assumes a: "authority_ok a"
  shows "fd_keyguard_payload_authorize a data (length data) role st = Ok True \<longleftrightarrow>
    length data \<le> 2048 \<and> role_allows a data role st"
proof (cases "length data \<le> 2048")
  case True
  then have m: "fd_keyguard_payload_match data (length data) st = Ok (payload_mask data st)"
    by (intro match_eq) simp
  have v: "twp (mask_and (payload_mask data st) FD_KEYGUARD_PAYLOAD_TXN
      (fd_keyguard_authorize_vote_txn a data 0 (length data) st)) (\<lambda>_. True)"
    using txn_bit by (intro twp_mask_and twp_authorize_vote_txn a) (auto simp: Suc_le_eq)
  have ma: "twp (mask_and (payload_mask data st) b c) (\<lambda>_. True)" if "twp c (\<lambda>_. True)" for b c
    using that by (intro twp_mask_and) simp_all
  note small = twp_authorize_small [OF a, THEN ma] and gos = twp_authorize_gossip [OF a True, THEN ma]
  note any = any_check(1) [OF small(1)] any_check(2) [OF v small(5)] any_check(2) [OF small(2) small(4)]
    any_check(3) [OF small(1) small(2) small(3) gos]
  have pr: "prune_like data \<Longrightarrow> 106 \<le> length data \<and> le_nat (take 8 data) = 18 \<and> take 18 (drop 8 data) = prune_prefix"
    by (simp only: prune_like_def simp_thms)
  let ?m = "mask_and (payload_mask data st)"
  have checks: "(?m FD_KEYGUARD_PAYLOAD_PING (fd_keyguard_authorize_ping data (length data) st) = Ok True) = (st = 0 \<and> ping_like data)"
    "(?m FD_KEYGUARD_PAYLOAD_PONG (fd_keyguard_authorize_pong data (length data) st) = Ok True) = (st = 1 \<and> pong_like data)"
    "(?m FD_KEYGUARD_PAYLOAD_TLS_CV (fd_keyguard_authorize_tls_cv data (length data) st) = Ok True) =
       (st = 0 \<and> length data = 130 \<and> take 98 data = client_prefix)"
    "(?m FD_KEYGUARD_PAYLOAD_REPAIR (fd_keyguard_authorize_repair a data (length data) st) = Ok True) =
       (st = 0 \<and> repair_like data \<and> 80 \<le> length data \<and> take 32 (drop 4 data) = identity_pubkey a)"
    "(?m FD_KEYGUARD_PAYLOAD_PRUNE (fd_keyguard_authorize_gossip_prune a data (length data) st) = Ok True) =
       (st = 0 \<and> prune_like data \<and> take 32 (drop 26 data) = identity_pubkey a)"
    using pr by (auto simp: mask_and_True payload_mask_bits small_checks [OF a] tls_cv_like_def repair_like_def)
  have if_eq: "((if c then x else y) = Ok True) = (if c then x = Ok True else y = Ok True)" for c and x y :: "bool res"
    by simp
  have "(fd_keyguard_payload_authorize a data (length data) role st = Ok True) = role_allows a data role st"
    unfolding fd_keyguard_payload_authorize_def m rbind.simps if_eq any role_allows_def Let_def payload_mask_eq
    unfolding checks
    unfolding mask_and_True payload_mask_bits
    using True by (simp add: role_defs FD_KEYGUARD_SIGN_REQ_MTU_def)
  then show ?thesis
    using True by simp
next
  case False
  then show ?thesis
    by (simp add: fd_keyguard_payload_authorize_def FD_KEYGUARD_SIGN_REQ_MTU_def)
qed

text \<open>The roles that a payload of each type is open to.\<close>

lemma tls_client: "length d = 130 \<Longrightarrow> take 98 d = client_prefix \<Longrightarrow> tls_cv_like d"
  by (simp add: tls_cv_like_def)

lemma allows_txn:
  assumes "role_allows a d role 0" "txn_like d"
  shows "role = FD_KEYGUARD_ROLE_TXSEND \<and> fd_keyguard_authorize_vote_txn a d 0 (length d) 0 = Ok True \<or>
    role = FD_KEYGUARD_ROLE_BUNDLE_CRANK \<and> fd_keyguard_authorize_bundle_crank_txn a d (length d) 0 = Ok True"
proof -
  have "\<not> (length d = 130 \<and> take 98 d = client_prefix)"
    using tls_client types_exclusive(1) [OF assms(2)] by blast
  then show ?thesis
    using assms types_exclusive(1) [OF assms(2)] by (simp add: role_allows_def Let_def) blast
qed

lemma allows_tagged:
  assumes "role_allows a d role 0" "gossip_like d \<or> repair_like d"
  shows "role = FD_KEYGUARD_ROLE_GOSSIP \<and> fd_keyguard_authorize_gossip a d (length d) 0 = Ok True \<or>
    role = FD_KEYGUARD_ROLE_REPAIR \<and> repair_like d \<and> take 32 (drop 4 d) = identity_pubkey a"
proof -
  have "\<not> (length d = 130 \<and> take 98 d = client_prefix)" "\<not> txn_like d"
    using tls_client types_exclusive(1,2) [of d] assms(2) by blast+
  then show ?thesis
    using assms types_exclusive(2) [OF assms(2)] by (simp add: role_allows_def Let_def) metis
qed

lemma allows_ping:
  assumes "role_allows a d role 0" "ping_like d"
  shows "role = FD_KEYGUARD_ROLE_GOSSIP \<or> role = FD_KEYGUARD_ROLE_RSERVE"
proof -
  have "\<not> tls_cv_like d" "\<not> txn_like d" "\<not> gossip_like d" "\<not> repair_like d" "\<not> prune_like d" "\<not> event_like d" "length d = 32"
    using types_exclusive [of d] assms(2) by blast+
  then show ?thesis
    using assms types_exclusive(6) [OF assms(2)] by (simp add: role_allows_def Let_def)
qed

lemma allows_other:
  assumes "role_allows a d role 0" "\<not> txn_like d" "\<not> gossip_like d" "\<not> repair_like d" "\<not> ping_like d"
  shows "role = (if prune_like d then FD_KEYGUARD_ROLE_GOSSIP else if tls_cv_like d then FD_KEYGUARD_ROLE_TXSEND
    else if event_like d then FD_KEYGUARD_ROLE_EVENT else if length d = 32 then FD_KEYGUARD_ROLE_LEADER else FD_KEYGUARD_ROLE_BAM)"
proof -
  from assms consider "role = FD_KEYGUARD_ROLE_TXSEND" "length d = 130" "take 98 d = client_prefix"
    | "role = FD_KEYGUARD_ROLE_GOSSIP" "prune_like d" | "role = FD_KEYGUARD_ROLE_EVENT" "event_like d"
    | "role = FD_KEYGUARD_ROLE_LEADER" "length d = 32" | "role = FD_KEYGUARD_ROLE_BAM" "bam_auth_like d" "length d \<noteq> 32"
    unfolding role_allows_def Let_def by (simp add: sign_type_defs) blast
  then show ?thesis
    using types_exclusive(3,4,5) [of d] tls_client [of d] by cases auto
qed

lemma allows_other_types:
  "role_allows a d role st \<Longrightarrow> st \<noteq> 0 \<Longrightarrow>
     st = 1 \<and> pong_like d \<and> (role = FD_KEYGUARD_ROLE_GOSSIP \<or> role = FD_KEYGUARD_ROLE_REPAIR) \<or>
     st = 2 \<and> role = FD_KEYGUARD_ROLE_BUNDLE"
  unfolding role_allows_def Let_def by auto

lemma duplicate_shred_origin: "authorize_gossip_duplicate_shred d (length d) \<in> {Ok None, Ok (Some 2)}"
proof (cases "length d < 4 + 65")
  case False
  have either: "(if P then x else y) \<in> {x, y}" for P and x y :: "nat option res"
    by simp
  from False have "4 + 57 + 8 \<le> length d"
    by simp
  then show ?thesis
    unfolding authorize_gossip_duplicate_shred_def if_not_P [OF False] by (simp only: res_eval either)
qed (simp add: authorize_gossip_duplicate_shred_def)

lemma gossip_origin:
  assumes ok: "fd_keyguard_authorize_gossip a d (length d) st = Ok True" and a: "authority_ok a" and r: "repair_like d"
  shows "take 32 (drop 6 d) = identity_pubkey a"
proof -
  let ?tag = "le_nat (take 4 d)"
  have tag: "?tag \<noteq> 1" "?tag \<noteq> 11" "36 \<le> length d"
    using r by (auto simp: repair_like_def)
  have guard: "st = 0" "length d \<le> 1124"
    using ok tag by (auto simp: fd_keyguard_authorize_gossip_def sign_type_defs split: if_splits)
  have "?tag = 9"
  proof (rule ccontr)
    assume "?tag \<noteq> 9"
    then show False
      using ok tag guard by (simp add: fd_keyguard_authorize_gossip_def sign_type_defs gossip_defs)
  qed
  then have "rbind (authorize_gossip_duplicate_shred d (length d)) (\<lambda>origin. case origin of None \<Rightarrow> Ok False
      | Some origin_off \<Rightarrow> if length d < 4 + origin_off + 32 then Ok False
          else MEMEQ d (4 + origin_off) (identity_pubkey a) 32 Ok) = Ok True"
    using ok tag guard by (simp add: fd_keyguard_authorize_gossip_def sign_type_defs gossip_defs)
  then show ?thesis
    using duplicate_shred_origin [of d] a by (auto simp: authority_ok_def split: if_splits)
qed

lemma vote_not_crank:
  assumes "fd_keyguard_authorize_vote_txn a d 0 (length d) st = Ok True"
    "fd_keyguard_authorize_bundle_crank_txn a d (length d) st = Ok True" "authority_ok a"
  shows False
proof -
  have "unat (d ! 2) = 1"
    by (rule vote_txn_bytes [OF assms(1,3)])
  moreover have "unat (d ! 2) = 3 \<or> unat (d ! 2) = 5"
    using crank_bytes [OF assms(2,3)] crank_2_fixed crank_3_fixed
      crank_fixed_byte [of FD_BUNDLE_CRANK_2_MASK FD_BUNDLE_CRANK_2_VALS d 2 3]
      crank_fixed_byte [of FD_BUNDLE_CRANK_3_MASK FD_BUNDLE_CRANK_3_VALS d 2 5] by auto
  ultimately show False
    by simp
qed

text \<open>
  A duplicate-shred gossip value and a repair request may share their tag, but they carry the
  identity key two bytes apart.
\<close>

lemma gossip_not_repair:
  assumes a: "authority_ok a" and key: "\<exists>i < 30. identity_pubkey a ! i \<noteq> identity_pubkey a ! (i + 2)"
    and g: "fd_keyguard_authorize_gossip a d (length d) st = Ok True" "repair_like d"
  shows "take 32 (drop 4 d) \<noteq> identity_pubkey a"
proof
  assume g4: "take 32 (drop 4 d) = identity_pubkey a"
  have g6: "take 32 (drop 6 d) = identity_pubkey a" and l: "length (identity_pubkey a) = 32"
    using gossip_origin [OF g(1) a g(2)] a by (simp_all add: authority_ok_def)
  have len: "38 \<le> length d"
    using g6 l by (cases "38 \<le> length d") (auto dest: arg_cong [where f = length])
  obtain i where i: "i < 30" "identity_pubkey a ! i \<noteq> identity_pubkey a ! (i + 2)"
    using key by blast
  have "take 32 (drop 6 d) ! i = d ! (6 + i)" "take 32 (drop 4 d) ! (i + 2) = d ! (4 + (i + 2))"
    using i(1) len by simp_all
  then show False
    using i(2) unfolding g6 g4 by (simp add: ac_simps)
qed

lemma same_role:
  assumes a: "authority_ok a" and key: "\<exists>i < 30. identity_pubkey a ! i \<noteq> identity_pubkey a ! (i + 2)"
    and r: "role_allows a d r st" "role_allows a d r' st"
  shows "r = r' \<or> st = 0 \<and> ping_like d \<and> {r, r'} = {FD_KEYGUARD_ROLE_GOSSIP, FD_KEYGUARD_ROLE_RSERVE} \<or>
    st = 1 \<and> pong_like d \<and> {r, r'} = {FD_KEYGUARD_ROLE_GOSSIP, FD_KEYGUARD_ROLE_REPAIR}"
proof (cases "st = 0")
  case False
  then show ?thesis
    using allows_other_types [OF r(1)] allows_other_types [OF r(2)] by auto
next
  case True
  note r0 = r [unfolded True]
  consider "txn_like d" | "gossip_like d \<or> repair_like d" | "ping_like d"
    | "\<not> txn_like d" "\<not> gossip_like d" "\<not> repair_like d" "\<not> ping_like d"
    by blast
  then show ?thesis
  proof cases
    case 1
    then show ?thesis
      using allows_txn [OF r0(1)] allows_txn [OF r0(2)] vote_not_crank [OF _ _ a] by blast
  next
    case 2
    then show ?thesis
      using allows_tagged [OF r0(1)] allows_tagged [OF r0(2)] gossip_not_repair [OF a key] by blast
  next
    case 3
    then show ?thesis
      using allows_ping [OF r0(1)] allows_ping [OF r0(2)] True by auto
  next
    case 4
    then show ?thesis
      using allows_other [OF r0(1)] allows_other [OF r0(2)] by simp
  qed
qed

subsection \<open>Properties\<close>

definition sample_authority :: fd_keyguard_authority where
  "sample_authority = \<lparr>identity_pubkey = 1 # replicate 31 0, tip_payment_program = replicate 32 2,
     tip_distribution_program = replicate 32 3\<rparr>"

lemma sample_authority_ok: "authority_ok sample_authority"
  by (simp add: authority_ok_def sample_authority_def)

definition sample_ping :: bytes where
  "sample_ping = ping_prefix @ replicate 16 7"

lemma sample_ping: "ping_like sample_ping" "length sample_ping = 32"
  by (simp_all add: ping_like_def sample_ping_def)

text \<open>
  C15. For every payload, role and sign type the authorisation returns an answer and reads nothing
  outside the payload and the 32-byte keys of the authority.
\<close>

theorem fd_keyguard_payload_authorize_total:
  assumes "authority_ok a"
  shows "\<exists>b. fd_keyguard_payload_authorize a data (length data) role sign_type = Ok b"
  using twp_authorize [OF assms] by (simp add: twp_iff)

theorem fd_keyguard_payload_authorize_total_witness:
  "authority_ok sample_authority \<and>
   (\<exists>b. fd_keyguard_payload_authorize sample_authority sample_ping 32 FD_KEYGUARD_ROLE_GOSSIP 0 = Ok b)"
  using fd_keyguard_payload_authorize_total [OF sample_authority_ok, of sample_ping] sample_authority_ok sample_ping(2) by simp

text \<open>
  C13. The fingerprint mask of any payload has at most one type, except for gossip with repair,
  shred with ping and shred with BAM authentication; the fingerprinting reads nothing outside the
  payload.
\<close>

theorem fd_keyguard_payload_match_types:
  assumes "length data < 2 ^ 64"
  shows "\<exists>m. fd_keyguard_payload_match data (length data) sign_type = Ok m \<and> m \<in>
     {0, FD_KEYGUARD_PAYLOAD_TXN, FD_KEYGUARD_PAYLOAD_GOSSIP, FD_KEYGUARD_PAYLOAD_REPAIR, FD_KEYGUARD_PAYLOAD_PRUNE,
      FD_KEYGUARD_PAYLOAD_SHRED, FD_KEYGUARD_PAYLOAD_TLS_CV, FD_KEYGUARD_PAYLOAD_EVENT, FD_KEYGUARD_PAYLOAD_BAM_AUTH,
      FD_KEYGUARD_PAYLOAD_PONG, FD_KEYGUARD_PAYLOAD_BUNDLE,
      FD_KEYGUARD_PAYLOAD_GOSSIP OR FD_KEYGUARD_PAYLOAD_REPAIR, FD_KEYGUARD_PAYLOAD_SHRED OR FD_KEYGUARD_PAYLOAD_PING,
      FD_KEYGUARD_PAYLOAD_SHRED OR FD_KEYGUARD_PAYLOAD_BAM_AUTH}"
proof (intro exI conjI)
  show "fd_keyguard_payload_match data (length data) sign_type = Ok (payload_mask data sign_type)"
    using assms by (rule match_eq)
  show "payload_mask data sign_type \<in>
     {0, FD_KEYGUARD_PAYLOAD_TXN, FD_KEYGUARD_PAYLOAD_GOSSIP, FD_KEYGUARD_PAYLOAD_REPAIR, FD_KEYGUARD_PAYLOAD_PRUNE,
      FD_KEYGUARD_PAYLOAD_SHRED, FD_KEYGUARD_PAYLOAD_TLS_CV, FD_KEYGUARD_PAYLOAD_EVENT, FD_KEYGUARD_PAYLOAD_BAM_AUTH,
      FD_KEYGUARD_PAYLOAD_PONG, FD_KEYGUARD_PAYLOAD_BUNDLE,
      FD_KEYGUARD_PAYLOAD_GOSSIP OR FD_KEYGUARD_PAYLOAD_REPAIR, FD_KEYGUARD_PAYLOAD_SHRED OR FD_KEYGUARD_PAYLOAD_PING,
      FD_KEYGUARD_PAYLOAD_SHRED OR FD_KEYGUARD_PAYLOAD_BAM_AUTH}"
  proof (cases "sign_type = 0")
    case True
    then show ?thesis
      using payload_mask_0 [of data] by blast
  qed (simp add: payload_mask_def)
qed

theorem fd_keyguard_payload_match_types_witness:
  "\<exists>m. fd_keyguard_payload_match sample_ping 32 0 = Ok m \<and> m \<noteq> 0 \<and> m \<in>
     {0, FD_KEYGUARD_PAYLOAD_TXN, FD_KEYGUARD_PAYLOAD_GOSSIP, FD_KEYGUARD_PAYLOAD_REPAIR, FD_KEYGUARD_PAYLOAD_PRUNE,
      FD_KEYGUARD_PAYLOAD_SHRED, FD_KEYGUARD_PAYLOAD_TLS_CV, FD_KEYGUARD_PAYLOAD_EVENT, FD_KEYGUARD_PAYLOAD_BAM_AUTH,
      FD_KEYGUARD_PAYLOAD_PONG, FD_KEYGUARD_PAYLOAD_BUNDLE,
      FD_KEYGUARD_PAYLOAD_GOSSIP OR FD_KEYGUARD_PAYLOAD_REPAIR, FD_KEYGUARD_PAYLOAD_SHRED OR FD_KEYGUARD_PAYLOAD_PING,
      FD_KEYGUARD_PAYLOAD_SHRED OR FD_KEYGUARD_PAYLOAD_BAM_AUTH}"
proof -
  have l: "length sample_ping < 2 ^ 64"
    by (simp add: sample_ping)
  have "payload_mask sample_ping 0 \<noteq> 0"
    using payload_mask_bits(6) [of sample_ping 0] sample_ping by auto
  then show ?thesis
    using fd_keyguard_payload_match_types [OF l, of 0] match_eq [OF l, of 0] by (simp only: sample_ping) auto
qed

text \<open>
  C14. The transaction fingerprint has no false negatives: the message part of every payload the
  transaction parser accepts, of any version, is recognised as a transaction.
\<close>

theorem fd_keyguard_matches_every_txn:
  assumes "fd_txn_parse_payload p want_sz = Ok (footprint, t, n)"
  shows "fd_keyguard_payload_matches_txn_msg (txn_msg t p n) (length (txn_msg t p n)) FD_KEYGUARD_SIGN_TYPE_ED25519 = Ok True"
proof -
  obtain m where "atxn_wf m" "bytes_at p 0 (encode m)" "n = length (encode m)" "t = layout m"
    using parse_payload_msg [OF assms] by blast
  then show ?thesis
    using txn_like_message txn_msg_layout by (simp add: matches_txn_msg sign_type_defs)
qed

theorem fd_keyguard_matches_every_txn_witness:
  "fd_txn_parse_payload (encode sample_atxn) False = Ok (40, layout sample_atxn, 209) \<and>
   fd_keyguard_payload_matches_txn_msg (txn_msg (layout sample_atxn) (encode sample_atxn) 209)
     (length (txn_msg (layout sample_atxn) (encode sample_atxn) 209)) FD_KEYGUARD_SIGN_TYPE_ED25519 = Ok True"
  using fd_keyguard_matches_every_txn [OF sample_parse] sample_parse by simp

text \<open>
  C11. If the keyguard agrees to sign, for any role, the message of a transaction the parser
  accepts, then the role is the vote sender or the bundle crank; for the vote sender the transaction
  is a legacy vote of this validator (one instruction, of the vote program, with the tower sync tag,
  paid by the identity key), and for the bundle crank it is a one-signer legacy transaction of the
  identity key whose instructions invoke only the compute budget program, the two configured tip
  programs and the memo program.
\<close>

theorem fd_keyguard_signs_only_votes_and_cranks:
  assumes "fd_txn_parse_payload p want_sz = Ok (footprint, t, n)" and a: "authority_ok a"
    and ok: "fd_keyguard_payload_authorize a (txn_msg t p n) (length (txn_msg t p n)) role FD_KEYGUARD_SIGN_TYPE_ED25519 = Ok True"
  shows "\<exists>m. atxn_wf m \<and> take n p = encode m \<and> t = layout m \<and>
    a_version m = FD_TXN_VLEGACY \<and> a_addrs m ! 0 = identity_pubkey a \<and>
    (role = FD_KEYGUARD_ROLE_TXSEND \<and> length (a_sigs m) \<le> 2 \<and>
       (\<exists>x. a_instrs m = [x] \<and> a_addrs m ! unat (a_prog x) = fd_solana_vote_program_id \<and>
          length (a_accts x) = 2 \<and> a_data x \<noteq> [] \<and> hd (a_data x) = 14) \<or>
     role = FD_KEYGUARD_ROLE_BUNDLE_CRANK \<and> length (a_sigs m) = 1 \<and>
       map (\<lambda>x. a_addrs m ! unat (a_prog x)) (a_instrs m) \<in>
         {[compute_budget_program_id, tip_payment_program a, tip_payment_program a, memo_program_id],
          [compute_budget_program_id, tip_distribution_program a, tip_payment_program a, tip_payment_program a, memo_program_id]})"
proof -
  obtain m where m: "atxn_wf m" "bytes_at p 0 (encode m)" "n = length (encode m)" "t = layout m"
    using parse_payload_msg [OF assms(1)] by blast
  then have msg: "txn_msg t p n = atxn_message m"
    by (simp add: txn_msg_layout)
  have "role_allows a (atxn_message m) role 0"
    using ok authorize_iff [OF a] by (simp add: msg sign_type_defs)
  note r = allows_txn [OF this txn_like_message [OF m(1)]]
  have "take n p = encode m"
    using m by (simp add: bytes_at_def)
  then show ?thesis
    using r m vote_message [OF m(1) a] crank_message [OF m(1) a] by blast
qed

definition sample_vote :: atxn where
  "sample_vote = \<lparr>a_version = FD_TXN_VLEGACY, a_sigs = [replicate 64 0], a_ro_signed = 0, a_ro_unsigned = 1,
     a_addrs = [1 # replicate 31 0, replicate 32 9, fd_solana_vote_program_id], a_blockhash = replicate 32 7,
     a_instrs = [\<lparr>a_prog = 2, a_accts = [1, 0], a_data = [14, 0, 0, 0]\<rparr>], a_luts = [],
     a_config_mask = 0, a_config = []\<rparr>"

lemma sample_vote_message:
  "atxn_message sample_vote = [1, 0, 1, 3] @ (1 # replicate 31 0) @ replicate 32 9 @ fd_solana_vote_program_id @
     replicate 32 7 @ [1, 2, 2, 1, 0, 4, 14, 0, 0, 0]"
  by (simp add: atxn_message_def sample_vote_def enc_version_def enc_luts_def enc_instr_def cu16_byte byte_def txn_consts)

lemma sample_vote_wf: "atxn_wf sample_vote" "length (encode sample_vote) = 207"
proof -
  show len: "length (encode sample_vote) = 207"
    unfolding encode_message sample_vote_message by (simp add: sample_vote_def txn_consts)
  show "atxn_wf sample_vote"
    unfolding atxn_wf_def len by (simp add: sample_vote_def atxn_common_def atxn_luts_wf_def adtl_def txn_consts)
qed

lemma sample_vote_parse: "fd_txn_parse_payload (encode sample_vote) False = Ok (32, layout sample_vote, 207)"
  using parse_payload_complete [OF sample_vote_wf(1), of "encode sample_vote" False] sample_vote_wf(2)
  by (simp add: bytes_at_def fd_txn_footprint_def sample_vote_def)

lemma sample_vote_authorized:
  "fd_keyguard_authorize_vote_txn sample_authority (atxn_message sample_vote) 0 142 0 = Ok True"
proof -
  have "fd_cu16_dec_sz (atxn_message sample_vote) i 3 = Ok 1" if "i \<in> {3, 132, 134, 137}" for i
    using that unfolding sample_vote_message
    by (auto simp: fd_cu16_dec_sz_def nth_append)
  then show ?thesis
    unfolding sample_vote_message
    by (simp add: fd_keyguard_authorize_vote_txn_def authorize_vote_instr_def Let_def sign_type_defs txn_consts nth_append
        sample_authority_def)
qed

theorem fd_keyguard_signs_only_votes_and_cranks_witness:
  "fd_keyguard_payload_authorize sample_authority (txn_msg (layout sample_vote) (encode sample_vote) 207) 142
     FD_KEYGUARD_ROLE_TXSEND FD_KEYGUARD_SIGN_TYPE_ED25519 = Ok True \<and>
   (\<exists>m x. encode sample_vote = encode m \<and> a_instrs m = [x] \<and> a_addrs m ! unat (a_prog x) = fd_solana_vote_program_id)"
proof -
  have msg: "txn_msg (layout sample_vote) (encode sample_vote) 207 = atxn_message sample_vote"
    using txn_msg_layout [OF sample_vote_wf(1), of "encode sample_vote"] sample_vote_wf(2) by (simp add: bytes_at_def)
  have len: "length (atxn_message sample_vote) = 142"
    unfolding sample_vote_message by simp
  have "role_allows sample_authority (atxn_message sample_vote) FD_KEYGUARD_ROLE_TXSEND 0"
    using txn_like_message [OF sample_vote_wf(1)] sample_vote_authorized by (simp add: role_allows_def len)
  then have ok: "fd_keyguard_payload_authorize sample_authority (txn_msg (layout sample_vote) (encode sample_vote) 207)
     (length (txn_msg (layout sample_vote) (encode sample_vote) 207)) FD_KEYGUARD_ROLE_TXSEND FD_KEYGUARD_SIGN_TYPE_ED25519 = Ok True"
    using authorize_iff [OF sample_authority_ok, of "atxn_message sample_vote"] by (simp add: msg len sign_type_defs)
  have "FD_KEYGUARD_ROLE_TXSEND \<noteq> FD_KEYGUARD_ROLE_BUNDLE_CRANK" "take 207 (encode sample_vote) = encode sample_vote"
    using sample_vote_wf(2) by (simp_all add: role_defs)
  then show ?thesis
    using fd_keyguard_signs_only_votes_and_cranks [OF sample_vote_parse sample_authority_ok ok] ok by (auto simp: msg len)
qed

text \<open>
  C12. Unless the identity key repeats with period two, no payload is authorised for two different
  roles, except that a ping may be signed for gossip and for the repair server and a pong for gossip
  and for repair.
\<close>

theorem fd_keyguard_roles_separated:
  assumes a: "authority_ok a" and key: "\<exists>i < 30. identity_pubkey a ! i \<noteq> identity_pubkey a ! (i + 2)"
    and "fd_keyguard_payload_authorize a data (length data) role sign_type = Ok True"
    and "fd_keyguard_payload_authorize a data (length data) role' sign_type = Ok True" and "role \<noteq> role'"
  shows "take 16 data = ping_prefix \<and>
    ({role, role'} = {FD_KEYGUARD_ROLE_GOSSIP, FD_KEYGUARD_ROLE_RSERVE} \<and>
       sign_type = FD_KEYGUARD_SIGN_TYPE_ED25519 \<and> length data = 32 \<or>
     {role, role'} = {FD_KEYGUARD_ROLE_GOSSIP, FD_KEYGUARD_ROLE_REPAIR} \<and>
       sign_type = FD_KEYGUARD_SIGN_TYPE_SHA256_ED25519 \<and> length data = 48)"
  using same_role [OF a key, of data role sign_type role'] assms(3-5) authorize_iff [OF a]
  by (auto simp: sign_type_defs ping_like_def pong_like_def)

lemma sample_ping_authorized:
  "role \<in> {FD_KEYGUARD_ROLE_GOSSIP, FD_KEYGUARD_ROLE_RSERVE} \<Longrightarrow>
     fd_keyguard_payload_authorize sample_authority sample_ping (length sample_ping) role 0 = Ok True"
  using authorize_iff [OF sample_authority_ok, of sample_ping role 0] sample_ping by (auto simp: role_allows_def)

theorem fd_keyguard_roles_separated_witness:
  "fd_keyguard_payload_authorize sample_authority sample_ping (length sample_ping) FD_KEYGUARD_ROLE_GOSSIP 0 = Ok True \<and>
   fd_keyguard_payload_authorize sample_authority sample_ping (length sample_ping) FD_KEYGUARD_ROLE_RSERVE 0 = Ok True \<and>
   take 16 sample_ping = ping_prefix"
proof -
  have key: "\<exists>i < 30. identity_pubkey sample_authority ! i \<noteq> identity_pubkey sample_authority ! (i + 2)"
    by (intro exI [of _ 0]) (simp add: sample_authority_def)
  have "FD_KEYGUARD_ROLE_GOSSIP \<noteq> FD_KEYGUARD_ROLE_RSERVE"
    by (simp add: role_defs)
  then show ?thesis
    using fd_keyguard_roles_separated [OF sample_authority_ok key, of sample_ping FD_KEYGUARD_ROLE_GOSSIP 0 FD_KEYGUARD_ROLE_RSERVE]
      sample_ping_authorized by simp
qed

text \<open>
  C16. A BAM authentication payload with an eight-byte challenge is also fingerprinted as a shred,
  and because of this ambiguity no role can have it signed.
\<close>

theorem fd_keyguard_bam_challenge_8:
  assumes a: "authority_ok a" and "length challenge = 8"
  shows "fd_keyguard_payload_match (FD_BAM_AUTH_LABEL @ challenge) 32 FD_KEYGUARD_SIGN_TYPE_ED25519 =
      Ok (FD_KEYGUARD_PAYLOAD_SHRED OR FD_KEYGUARD_PAYLOAD_BAM_AUTH) \<and>
    fd_keyguard_payload_authorize a (FD_BAM_AUTH_LABEL @ challenge) 32 role FD_KEYGUARD_SIGN_TYPE_ED25519 = Ok False"
proof -
  let ?d = "FD_BAM_AUTH_LABEL @ challenge"
  have len: "length ?d = 32" and bam: "bam_auth_like ?d"
    using assms(2) by (simp_all add: bam_auth_like_def)
  then have ex: "\<not> txn_like ?d" "\<not> gossip_like ?d" "\<not> repair_like ?d" "\<not> prune_like ?d" "\<not> tls_cv_like ?d" "\<not> ping_like ?d"
      "\<not> event_like ?d"
    using types_exclusive [of ?d] by blast+
  have "fd_keyguard_payload_match ?d 32 0 = Ok (FD_KEYGUARD_PAYLOAD_SHRED OR FD_KEYGUARD_PAYLOAD_BAM_AUTH)"
    using match_eq [of ?d 0] ex bam unfolding len payload_mask_def by simp
  moreover have "\<not> role_allows a ?d role 0"
    using ex bam len by (simp add: role_allows_def Let_def)
  moreover obtain b where "fd_keyguard_payload_authorize a ?d (length ?d) role 0 = Ok b"
    using twp_authorize [OF a, of ?d role 0] unfolding twp_iff by blast
  ultimately show ?thesis
    using authorize_iff [OF a, of ?d role 0] unfolding len sign_type_defs by (cases b) simp_all
qed

theorem fd_keyguard_bam_challenge_8_witness:
  "fd_keyguard_payload_authorize sample_authority (FD_BAM_AUTH_LABEL @ [1, 2, 3, 4, 5, 6, 7, 8]) 32 FD_KEYGUARD_ROLE_BAM
     FD_KEYGUARD_SIGN_TYPE_ED25519 = Ok False"
  using fd_keyguard_bam_challenge_8 [OF sample_authority_ok, of "[1, 2, 3, 4, 5, 6, 7, 8]"] by simp

end
