(* ===== verification/Pool.thy ===== *)
theory Pool
  imports Prelude
begin

text \<open>
  The object pool template \<open>src/src/util/tmpl/fd_pool.c\<close>, in the configuration without a sentinel and
  without lazy initialisation (the defaults).  A pool is the metadata region of the C structure and
  the \<open>POOL_NEXT\<close> field of each element, which threads the elements that are not allocated into a
  stack.  An index outside the element array is undefined behaviour, as in C with handholding off.
\<close>

subsection \<open>Definitions\<close>

definition POOL_IDX_NULL :: nat where
  "POOL_IDX_NULL = ULONG_MAX"

record pool_private =
  pool_max :: nat
  pool_free :: nat
  pool_free_top :: nat
  pool_next :: "nat list"

text \<open>\<open>for( idx=1; idx<ele_max; idx++ ) join[ idx-1 ].next = idx;\<close>\<close>

fun pool_link_loop :: "nat \<Rightarrow> nat \<Rightarrow> nat list \<Rightarrow> nat list" where
  "pool_link_loop 0 idx next = next"
| "pool_link_loop (Suc n) idx next = pool_link_loop n (idx + 1) (next[idx - 1 := idx])"

text \<open>
  \<open>POOL_(new)\<close> on a memory region whose \<open>next\<close> fields hold the words \<open>mem\<close>; the checks of the region's
  address, alignment and footprint are left to the caller.
\<close>

definition pool_new :: "nat list \<Rightarrow> nat \<Rightarrow> pool_private" where
  "pool_new mem ele_max =
     (if ele_max = 0 then \<lparr>pool_max = ele_max, pool_free = ele_max, pool_free_top = POOL_IDX_NULL, pool_next = mem\<rparr>
      else \<lparr>pool_max = ele_max, pool_free = ele_max, pool_free_top = 0,
            pool_next = (pool_link_loop (ele_max - 1) 1 mem)[ele_max - 1 := POOL_IDX_NULL]\<rparr>)"

definition pool_reset :: "pool_private \<Rightarrow> pool_private" where
  "pool_reset p =
     (if pool_max p = 0 then p\<lparr>pool_free := pool_max p, pool_free_top := POOL_IDX_NULL\<rparr>
      else p\<lparr>pool_free := pool_max p, pool_free_top := 0,
             pool_next := (pool_link_loop (pool_max p - 1) 1 (pool_next p))[pool_max p - 1 := POOL_IDX_NULL]\<rparr>)"

definition pool_idx_test :: "pool_private \<Rightarrow> nat \<Rightarrow> bool" where
  "pool_idx_test p idx \<longleftrightarrow> idx < pool_max p \<or> idx = POOL_IDX_NULL"

definition pool_used :: "pool_private \<Rightarrow> nat" where
  "pool_used p = ulong_sub (pool_max p) (pool_free p)"

definition pool_idx_acquire :: "pool_private \<Rightarrow> (nat \<times> pool_private) res" where
  "pool_idx_acquire p =
     (let idx = pool_free_top p in
      if idx < length (pool_next p)
      then Ok (idx, p\<lparr>pool_free_top := pool_next p ! idx, pool_free := ulong_sub (pool_free p) 1\<rparr>)
      else Ub)"

definition pool_idx_release :: "pool_private \<Rightarrow> nat \<Rightarrow> pool_private res" where
  "pool_idx_release p idx =
     (if idx < length (pool_next p)
      then Ok (p\<lparr>pool_next := (pool_next p)[idx := pool_free_top p], pool_free_top := idx,
                 pool_free := ulong_add (pool_free p) 1\<rparr>)
      else Ub)"

subsection \<open>The free stack\<close>

text \<open>\<open>stack nx h xs\<close>: following the \<open>next\<close> fields from \<open>h\<close> visits \<open>xs\<close> and ends with the null index.\<close>

fun free_stack :: "nat list \<Rightarrow> nat \<Rightarrow> nat list \<Rightarrow> bool" where
  "free_stack nx h [] \<longleftrightarrow> h = POOL_IDX_NULL"
| "free_stack nx h (i # is) \<longleftrightarrow> h = i \<and> i < length nx \<and> free_stack nx (nx ! i) is"

definition pool_rep :: "pool_private \<Rightarrow> nat list \<Rightarrow> bool" where
  "pool_rep p fl \<longleftrightarrow> length (pool_next p) = pool_max p \<and> pool_max p < POOL_IDX_NULL \<and>
     free_stack (pool_next p) (pool_free_top p) fl \<and> distinct fl \<and> pool_free p = length fl"

text \<open>The elements that are allocated.\<close>

definition pool_live :: "pool_private \<Rightarrow> nat list \<Rightarrow> nat set" where
  "pool_live p fl = {..<pool_max p} - set fl"

lemma free_stack_bound: "free_stack nx h fl \<Longrightarrow> i \<in> set fl \<Longrightarrow> i < length nx"
  by (induction fl arbitrary: h) auto

lemma free_stack_update:
  "free_stack nx h fl \<Longrightarrow> i \<notin> set fl \<Longrightarrow> free_stack (nx[i := v]) h fl"
  by (induction fl arbitrary: h) auto

lemma free_stack_det: "free_stack nx h fl \<Longrightarrow> free_stack nx h fl' \<Longrightarrow> length nx < POOL_IDX_NULL \<Longrightarrow> fl = fl'"
proof (induction fl arbitrary: h fl')
  case Nil
  then show ?case
    by (cases fl') auto
next
  case (Cons i fl)
  then show ?case
    by (cases fl') auto
qed

lemma link_loop_length [simp]: "length (pool_link_loop n idx nx) = length nx"
  by (induction n idx nx rule: pool_link_loop.induct) simp_all

lemma link_loop_nth:
  "0 < idx \<Longrightarrow> idx + n \<le> length nx \<Longrightarrow> i < length nx \<Longrightarrow>
     pool_link_loop n idx nx ! i = (if idx - 1 \<le> i \<and> i < idx - 1 + n then Suc i else nx ! i)"
  by (induction n idx nx rule: pool_link_loop.induct) (auto simp: nth_list_update)

lemma stack_upt:
  assumes "\<And>i. Suc i < n \<Longrightarrow> nx ! i = Suc i" "nx ! (n - 1) = POOL_IDX_NULL" "n \<le> length nx" "k < n"
  shows "free_stack nx k [k..<n]"
  using assms(4)
proof (induction "n - k" arbitrary: k)
  case (Suc m)
  show ?case
  proof (cases "Suc k < n")
    case True
    then have "free_stack nx (Suc k) [Suc k..<n]"
      using Suc by (intro Suc.hyps) simp_all
    then show ?thesis
      using True assms(1,3) Suc.prems by (simp add: upt_rec [of k])
  next
    case False
    with Suc.prems have k: "n = Suc k"
      by simp
    then show ?thesis
      using assms(2,3) by (simp add: upt_rec [of k])
  qed
qed simp

lemma pool_new_rep:
  assumes "length mem = ele_max" "ele_max < POOL_IDX_NULL"
  shows "pool_rep (pool_new mem ele_max) [0..<ele_max]"
proof (cases "ele_max = 0")
  case False
  let ?nx = "(pool_link_loop (ele_max - 1) 1 mem)[ele_max - 1 := POOL_IDX_NULL]"
  have "free_stack ?nx 0 [0..<ele_max]"
    using False assms by (intro stack_upt) (auto simp: link_loop_nth)
  then show ?thesis
    using False assms by (simp add: pool_rep_def pool_new_def)
qed (use assms in \<open>simp add: pool_rep_def pool_new_def\<close>)

lemma pool_reset_rep:
  assumes "pool_rep p fl"
  shows "pool_rep (pool_reset p) [0..<pool_max p]"
proof -
  have "pool_reset p = pool_new (pool_next p) (pool_max p)"
    by (cases p) (simp add: pool_reset_def pool_new_def)
  then show ?thesis
    using assms pool_new_rep [of "pool_next p" "pool_max p"] by (simp add: pool_rep_def)
qed

lemma free_stack_length:
  assumes "pool_rep p fl"
  shows "length fl \<le> pool_max p" "pool_max p + 1 < 2 ^ 64"
proof -
  have "set fl \<subseteq> {..<pool_max p}"
    using assms free_stack_bound by (fastforce simp: pool_rep_def)
  then show "length fl \<le> pool_max p"
    using assms card_mono [of "{..<pool_max p}" "set fl"] by (simp add: pool_rep_def distinct_card)
  show "pool_max p + 1 < 2 ^ 64"
    using assms by (simp add: pool_rep_def POOL_IDX_NULL_def ULONG_MAX_def)
qed

lemma pool_acquire:
  assumes "pool_rep p fl" "fl \<noteq> []"
  shows "\<exists>p'. pool_idx_acquire p = Ok (hd fl, p') \<and> pool_rep p' (tl fl) \<and> pool_max p' = pool_max p"
proof -
  obtain i r where fl: "fl = i # r"
    using assms(2) by (cases fl) auto
  have "ulong_sub (Suc (length r)) 1 = length r"
    using free_stack_length [OF assms(1)] by (simp add: fl ulong_sub_le)
  then show ?thesis
    using assms(1) by (simp add: fl pool_idx_acquire_def pool_rep_def Let_def)
qed

lemma pool_release:
  assumes "pool_rep p fl" "i < pool_max p" "i \<notin> set fl"
  shows "\<exists>p'. pool_idx_release p i = Ok p' \<and> pool_rep p' (i # fl) \<and> pool_max p' = pool_max p"
proof -
  have "ulong_add (length fl) 1 = Suc (length fl)"
    using free_stack_length [OF assms(1)] by (simp add: ulong_add_small)
  then show ?thesis
    using assms free_stack_update [of "pool_next p" "pool_free_top p" fl i]
    by (simp add: pool_idx_release_def pool_rep_def)
qed

subsection \<open>Pools as allocators\<close>

text \<open>
  The histories of a client that acquires elements while there are free ones and releases only
  elements it holds: \<open>alloc_reach alloc dealloc cap s0 L s\<close> says that such a client may hold the set \<open>L\<close>
  when the allocator is in state \<open>s\<close>.
\<close>

inductive alloc_reach ::
  "('s \<Rightarrow> (nat \<times> 's) res) \<Rightarrow> ('s \<Rightarrow> nat \<Rightarrow> 's res) \<Rightarrow> nat \<Rightarrow> 's \<Rightarrow> nat set \<Rightarrow> 's \<Rightarrow> bool"
  for alloc dealloc cap s0 where
  alloc_init: "alloc_reach alloc dealloc cap s0 {} s0"
| alloc_acquire: "alloc_reach alloc dealloc cap s0 L s \<Longrightarrow> card L < cap \<Longrightarrow> alloc s = Ok (i, s') \<Longrightarrow>
    alloc_reach alloc dealloc cap s0 (insert i L) s'"
| alloc_release: "alloc_reach alloc dealloc cap s0 L s \<Longrightarrow> i \<in> L \<Longrightarrow> dealloc s i = Ok s' \<Longrightarrow>
    alloc_reach alloc dealloc cap s0 (L - {i}) s'"

text \<open>What a client relies on: the contract of an allocator of \<open>cap\<close> elements.\<close>

locale allocator =
  fixes alloc :: "'s \<Rightarrow> (nat \<times> 's) res" and dealloc :: "'s \<Rightarrow> nat \<Rightarrow> 's res"
    and cap :: nat and ok :: "'s \<Rightarrow> nat set \<Rightarrow> bool"
  assumes ok_bound: "ok s L \<Longrightarrow> L \<subseteq> {..<cap}"
    and ok_alloc: "ok s L \<Longrightarrow> card L < cap \<Longrightarrow> \<exists>i s'. alloc s = Ok (i, s') \<and> i \<notin> L \<and> ok s' (insert i L)"
    and ok_dealloc: "ok s L \<Longrightarrow> i \<in> L \<Longrightarrow> \<exists>s'. dealloc s i = Ok s' \<and> ok s' (L - {i})"
begin

lemma reach_ok:
  assumes "alloc_reach alloc dealloc cap s0 L s" "ok s0 {}"
  shows "ok s L"
  using assms
proof (induction rule: alloc_reach.induct)
  case (alloc_acquire L s i s')
  then show ?case
    using ok_alloc [of s L] by auto
next
  case (alloc_release L s i s')
  then show ?case
    using ok_dealloc [of s L i] by auto
qed

lemma reach_progress:
  assumes "alloc_reach alloc dealloc cap s0 L s" "ok s0 {}"
  shows "L \<subseteq> {..<cap} \<and> (card L < cap \<longrightarrow> (\<exists>i s'. alloc s = Ok (i, s') \<and> i < cap \<and> i \<notin> L)) \<and>
    (\<forall>i \<in> L. \<exists>s'. dealloc s i = Ok s')"
proof -
  have ok: "ok s L"
    using reach_ok [OF assms] .
  have "\<exists>i s'. alloc s = Ok (i, s') \<and> i < cap \<and> i \<notin> L" if "card L < cap"
    using ok_alloc [OF ok that] ok_bound by blast
  then show ?thesis
    using ok_bound [OF ok] ok_dealloc [OF ok] by blast
qed

end

definition pool_ok :: "nat \<Rightarrow> pool_private \<Rightarrow> nat set \<Rightarrow> bool" where
  "pool_ok cap p L \<longleftrightarrow> pool_max p = cap \<and> (\<exists>fl. pool_rep p fl \<and> L = {..<cap} - set fl)"

lemma pool_ok_card:
  assumes "pool_rep p fl" "pool_max p = cap" "L = {..<cap} - set fl"
  shows "card L + length fl = cap"
proof -
  have "set fl \<subseteq> {..<cap}"
    using assms(1,2) free_stack_bound by (fastforce simp: pool_rep_def)
  then have "card L = cap - length fl" "length fl \<le> cap"
    using assms free_stack_length(1) [OF assms(1)] by (simp_all add: card_Diff_subset pool_rep_def distinct_card)
  then show ?thesis
    by simp
qed

interpretation fd_pool: allocator pool_idx_acquire pool_idx_release cap "pool_ok cap" for cap
proof unfold_locales
  fix s L
  assume ok: "pool_ok cap s L"
  then obtain fl where fl: "pool_max s = cap" "pool_rep s fl" "L = {..<cap} - set fl"
    by (auto simp: pool_ok_def)
  show "L \<subseteq> {..<cap}"
    using fl by auto
  have sub: "set fl \<subseteq> {..<cap}"
    using fl free_stack_bound by (fastforce simp: pool_rep_def)
  show "\<exists>i s'. pool_idx_acquire s = Ok (i, s') \<and> i \<notin> L \<and> pool_ok cap s' (insert i L)" if "card L < cap"
  proof -
    have "fl \<noteq> []"
      using pool_ok_card [OF fl(2,1,3)] that by auto
    then obtain i fl' where i: "fl = i # fl'"
      by (cases fl) auto
    obtain s' where "pool_idx_acquire s = Ok (i, s')" "pool_rep s' fl'" "pool_max s' = cap"
      using pool_acquire [OF fl(2) \<open>fl \<noteq> []\<close>] i fl(1) by auto
    moreover have "insert i L = {..<cap} - set fl'" "i \<notin> L"
      using fl(2,3) sub i by (auto simp: pool_rep_def)
    ultimately show ?thesis
      by (auto simp: pool_ok_def)
  qed
  show "\<exists>s'. pool_idx_release s i = Ok s' \<and> pool_ok cap s' (L - {i})" if "i \<in> L" for i
  proof -
    have "i < pool_max s" "i \<notin> set fl"
      using that fl by auto
    then obtain s' where "pool_idx_release s i = Ok s'" "pool_rep s' (i # fl)" "pool_max s' = cap"
      using pool_release [OF fl(2)] fl(1) by auto
    moreover have "L - {i} = {..<cap} - set (i # fl)"
      using fl(3) by auto
    ultimately show ?thesis
      by (auto simp: pool_ok_def)
  qed
qed

lemma pool_new_ok: "length mem = cap \<Longrightarrow> cap < POOL_IDX_NULL \<Longrightarrow> pool_ok cap (pool_new mem cap) {}"
  unfolding pool_ok_def
  by (intro conjI exI [of _ "[0..<cap]"] pool_new_rep) (auto simp: pool_new_def)

text \<open>
  C17. Whatever sequence of acquires and releases a client makes, the pool allocator never hands out
  an element that is still allocated: the allocated elements stay inside the pool, used and free
  count them exactly, an acquire from a pool that is not exhausted succeeds with an element not
  allocated, and every allocated element can be released.
\<close>

theorem fd_pool_allocates:
  assumes "length mem = cap" "cap < POOL_IDX_NULL"
    and "alloc_reach pool_idx_acquire pool_idx_release cap (pool_new mem cap) L p"
  shows "L \<subseteq> {..<cap} \<and> pool_used p = card L \<and> pool_free p = cap - card L \<and>
    (card L < cap \<longrightarrow> (\<exists>i p'. pool_idx_acquire p = Ok (i, p') \<and> i < cap \<and> i \<notin> L)) \<and>
    (\<forall>i \<in> L. \<exists>p'. pool_idx_release p i = Ok p')"
proof -
  have ok: "pool_ok cap p L"
    using fd_pool.reach_ok [OF assms(3) pool_new_ok [OF assms(1,2)]] .
  then obtain fl where fl: "pool_max p = cap" "pool_rep p fl" "L = {..<cap} - set fl"
    by (auto simp: pool_ok_def)
  have "card L + length fl = cap" "pool_free p = length fl" "cap < 2 ^ 64"
    using pool_ok_card [OF fl(2,1,3)] fl assms(2) by (simp_all add: pool_rep_def POOL_IDX_NULL_def ULONG_MAX_def)
  then have "pool_used p = card L \<and> pool_free p = cap - card L"
    using fl(1) by (auto simp: pool_used_def ulong_sub_le)
  then show ?thesis
    using fd_pool.reach_progress [OF assms(3) pool_new_ok [OF assms(1,2)]] by blast
qed

lemma sample_pool_reach:
  "alloc_reach pool_idx_acquire pool_idx_release 2 (pool_new [9, 9] 2) {0, 1}
     \<lparr>pool_max = 2, pool_free = 0, pool_free_top = POOL_IDX_NULL, pool_next = [1, POOL_IDX_NULL]\<rparr>"
proof -
  let ?p = "\<lambda>k h. \<lparr>pool_max = 2, pool_free = k, pool_free_top = h, pool_next = [1, POOL_IDX_NULL]\<rparr>"
  have new: "pool_new [9, 9] 2 = ?p 2 0"
    by (simp add: pool_new_def)
  have one: "pool_idx_acquire (?p 2 0) = Ok (0, ?p 1 1)" and two: "pool_idx_acquire (?p 1 1) = Ok (1, ?p 0 POOL_IDX_NULL)"
    by (simp_all add: pool_idx_acquire_def ulong_sub_le)
  have "alloc_reach pool_idx_acquire pool_idx_release 2 (?p 2 0) {0} (?p 1 1)"
    using alloc_acquire [where alloc = pool_idx_acquire, OF alloc_init _ one, where dealloc = pool_idx_release and cap = 2] by simp
  then have "alloc_reach pool_idx_acquire pool_idx_release 2 (?p 2 0) {1, 0} (?p 0 POOL_IDX_NULL)"
    using alloc_acquire [where alloc = pool_idx_acquire, OF _ _ two] by simp
  then show ?thesis
    by (simp add: new insert_commute)
qed

theorem fd_pool_allocates_witness:
  "pool_used \<lparr>pool_max = 2, pool_free = 0, pool_free_top = POOL_IDX_NULL, pool_next = [1, POOL_IDX_NULL]\<rparr> = 2 \<and>
   (\<exists>p'. pool_idx_release \<lparr>pool_max = 2, pool_free = 0, pool_free_top = POOL_IDX_NULL, pool_next = [1, POOL_IDX_NULL]\<rparr> 1 = Ok p')"
  using fd_pool_allocates [OF _ _ sample_pool_reach] by (simp add: POOL_IDX_NULL_def ULONG_MAX_def)

end
