(* ===== verification/Map_Chain.thy ===== *)
theory Map_Chain
  imports Prelude
begin

text \<open>
  The chained hash map template \<open>src/src/util/tmpl/fd_map_chain.c\<close>, in its default configuration (one
  element per key, no \<open>prev\<close> links, no element count).  The map threads elements of a pool that the
  client owns: it reads their keys and owns their \<open>MAP_NEXT\<close> fields.  The hash function is the
  template parameter \<open>MAP_KEY_HASH\<close> and stays a parameter here.  A pointer to a link is a cursor: the
  slot of a chain or the \<open>MAP_NEXT\<close> field of an element.
\<close>

subsection \<open>Definitions\<close>

definition MAP_IDX_NULL :: nat where
  "MAP_IDX_NULL = ULONG_MAX"

record 'k map_ele =
  ele_key :: 'k
  ele_next :: nat

record map_private =
  map_seed :: nat
  map_chain_cnt :: nat
  map_chain :: "nat list"

definition map_private_chain_idx :: "('k \<Rightarrow> nat \<Rightarrow> nat) \<Rightarrow> 'k \<Rightarrow> nat \<Rightarrow> nat \<Rightarrow> nat" where
  "map_private_chain_idx key_hash key seed chain_cnt = key_hash key seed AND (chain_cnt - 1)"

text \<open>\<open>MAP_(new)\<close> and \<open>MAP_(reset)\<close> set every chain to the null index.\<close>

definition map_new :: "nat \<Rightarrow> nat \<Rightarrow> map_private" where
  "map_new chain_cnt seed =
     \<lparr>map_seed = seed, map_chain_cnt = chain_cnt, map_chain = replicate chain_cnt MAP_IDX_NULL\<rparr>"

definition map_reset :: "map_private \<Rightarrow> map_private" where
  "map_reset m = m\<lparr>map_chain := replicate (map_chain_cnt m) MAP_IDX_NULL\<rparr>"

datatype map_cursor = Chain_Slot nat | Next_Of nat

definition cursor_get :: "map_private \<Rightarrow> 'k map_ele list \<Rightarrow> map_cursor \<Rightarrow> nat res" where
  "cursor_get m pool cur =
     (case cur of
        Chain_Slot c \<Rightarrow> if c < length (map_chain m) then Ok (map_chain m ! c) else Ub
      | Next_Of i \<Rightarrow> if i < length pool then Ok (ele_next (pool ! i)) else Ub)"

definition cursor_set ::
  "map_private \<Rightarrow> 'k map_ele list \<Rightarrow> map_cursor \<Rightarrow> nat \<Rightarrow> (map_private \<times> 'k map_ele list) res" where
  "cursor_set m pool cur v =
     (case cur of
        Chain_Slot c \<Rightarrow> if c < length (map_chain m) then Ok (m\<lparr>map_chain := (map_chain m)[c := v]\<rparr>, pool) else Ub
      | Next_Of i \<Rightarrow> if i < length pool then Ok (m, pool[i := (pool ! i)\<lparr>ele_next := v\<rparr>]) else Ub)"

text \<open>
  The search loops of the operations; \<open>fuel\<close> bounds the links that are followed.  A chain is acyclic
  and threads elements of the pool, so one more than the number of elements is enough.
\<close>

fun map_idx_query_loop ::
  "nat \<Rightarrow> map_private \<Rightarrow> 'k map_ele list \<Rightarrow> map_cursor \<Rightarrow> map_cursor \<Rightarrow> 'k \<Rightarrow> nat \<Rightarrow>
   (nat \<times> map_private \<times> 'k map_ele list) res" where
  "map_idx_query_loop 0 m pool head cur key sentinel = Ub"
| "map_idx_query_loop (Suc fuel) m pool head cur key sentinel =
     rbind (cursor_get m pool cur) (\<lambda>ele_idx.
     if ele_idx = MAP_IDX_NULL then Ok (sentinel, m, pool)
     else if ele_idx \<ge> length pool then Ub
     else if key = ele_key (pool ! ele_idx) then
       (if cur \<noteq> head then
          rbind (cursor_set m pool cur (ele_next (pool ! ele_idx))) (\<lambda>(m, pool).
          rbind (cursor_get m pool head) (\<lambda>h.
          rbind (cursor_set m pool (Next_Of ele_idx) h) (\<lambda>(m, pool).
          rbind (cursor_set m pool head ele_idx) (\<lambda>(m, pool). Ok (ele_idx, m, pool)))))
        else Ok (ele_idx, m, pool))
     else map_idx_query_loop fuel m pool head (Next_Of ele_idx) key sentinel)"

definition map_idx_query ::
  "('k \<Rightarrow> nat \<Rightarrow> nat) \<Rightarrow> map_private \<Rightarrow> 'k map_ele list \<Rightarrow> 'k \<Rightarrow> nat \<Rightarrow> (nat \<times> map_private \<times> 'k map_ele list) res" where
  "map_idx_query key_hash m pool key sentinel =
     (let head = Chain_Slot (map_private_chain_idx key_hash key (map_seed m) (map_chain_cnt m))
      in map_idx_query_loop (length pool + 1) m pool head head key sentinel)"

definition map_idx_insert ::
  "('k \<Rightarrow> nat \<Rightarrow> nat) \<Rightarrow> map_private \<Rightarrow> 'k map_ele list \<Rightarrow> nat \<Rightarrow> (map_private \<times> 'k map_ele list) res" where
  "map_idx_insert key_hash m pool ele_idx =
     (if ele_idx \<ge> length pool then Ub
      else let head = Chain_Slot (map_private_chain_idx key_hash (ele_key (pool ! ele_idx)) (map_seed m) (map_chain_cnt m)) in
      rbind (cursor_get m pool head) (\<lambda>h.
      rbind (cursor_set m pool (Next_Of ele_idx) h) (\<lambda>(m, pool).
      cursor_set m pool head ele_idx)))"

fun map_idx_remove_loop ::
  "nat \<Rightarrow> map_private \<Rightarrow> 'k map_ele list \<Rightarrow> map_cursor \<Rightarrow> 'k \<Rightarrow> nat \<Rightarrow> (nat \<times> map_private \<times> 'k map_ele list) res" where
  "map_idx_remove_loop 0 m pool cur key sentinel = Ub"
| "map_idx_remove_loop (Suc fuel) m pool cur key sentinel =
     rbind (cursor_get m pool cur) (\<lambda>ele_idx.
     if ele_idx = MAP_IDX_NULL then Ok (sentinel, m, pool)
     else if ele_idx \<ge> length pool then Ub
     else if key = ele_key (pool ! ele_idx) then
       rbind (cursor_set m pool cur (ele_next (pool ! ele_idx))) (\<lambda>(m, pool). Ok (ele_idx, m, pool))
     else map_idx_remove_loop fuel m pool (Next_Of ele_idx) key sentinel)"

definition map_idx_remove ::
  "('k \<Rightarrow> nat \<Rightarrow> nat) \<Rightarrow> map_private \<Rightarrow> 'k map_ele list \<Rightarrow> 'k \<Rightarrow> nat \<Rightarrow> (nat \<times> map_private \<times> 'k map_ele list) res" where
  "map_idx_remove key_hash m pool key sentinel =
     map_idx_remove_loop (length pool + 1) m pool
       (Chain_Slot (map_private_chain_idx key_hash key (map_seed m) (map_chain_cnt m))) key sentinel"

fun map_idx_query_const_loop ::
  "nat \<Rightarrow> map_private \<Rightarrow> 'k map_ele list \<Rightarrow> map_cursor \<Rightarrow> 'k \<Rightarrow> nat \<Rightarrow> nat res" where
  "map_idx_query_const_loop 0 m pool cur key sentinel = Ub"
| "map_idx_query_const_loop (Suc fuel) m pool cur key sentinel =
     rbind (cursor_get m pool cur) (\<lambda>ele_idx.
     if ele_idx = MAP_IDX_NULL then Ok sentinel
     else if ele_idx \<ge> length pool then Ub
     else if key = ele_key (pool ! ele_idx) then Ok ele_idx
     else map_idx_query_const_loop fuel m pool (Next_Of ele_idx) key sentinel)"

definition map_idx_query_const ::
  "('k \<Rightarrow> nat \<Rightarrow> nat) \<Rightarrow> map_private \<Rightarrow> 'k map_ele list \<Rightarrow> 'k \<Rightarrow> nat \<Rightarrow> nat res" where
  "map_idx_query_const key_hash m pool key sentinel =
     map_idx_query_const_loop (length pool + 1) m pool
       (Chain_Slot (map_private_chain_idx key_hash key (map_seed m) (map_chain_cnt m))) key sentinel"

text \<open>
  Iteration.  \<open>map_iter_scan n\<close> is the loop that looks for the next chain that is not empty, from chain
  \<open>n - 1\<close> downwards; it returns the remaining chains and the first element.
\<close>

record map_iter =
  iter_chain_rem :: nat
  iter_ele_idx :: nat

fun map_iter_scan :: "map_private \<Rightarrow> nat \<Rightarrow> nat \<Rightarrow> map_iter res" where
  "map_iter_scan m ele_idx 0 = Ok \<lparr>iter_chain_rem = 0, iter_ele_idx = ele_idx\<rparr>"
| "map_iter_scan m ele_idx (Suc n) =
     (if n < length (map_chain m) then
        (if map_chain m ! n \<noteq> MAP_IDX_NULL then Ok \<lparr>iter_chain_rem = Suc n, iter_ele_idx = map_chain m ! n\<rparr>
         else map_iter_scan m (map_chain m ! n) n)
      else Ub)"

definition map_iter_init :: "map_private \<Rightarrow> map_iter res" where
  "map_iter_init m = map_iter_scan m MAP_IDX_NULL (map_chain_cnt m)"

definition map_iter_done :: "map_iter \<Rightarrow> bool" where
  "map_iter_done it \<longleftrightarrow> iter_chain_rem it = 0"

definition map_iter_next :: "map_private \<Rightarrow> 'k map_ele list \<Rightarrow> map_iter \<Rightarrow> map_iter res" where
  "map_iter_next m pool it =
     (if iter_ele_idx it \<ge> length pool then Ub
      else let ele_idx = ele_next (pool ! iter_ele_idx it) in
      if ele_idx = MAP_IDX_NULL then map_iter_scan m ele_idx (iter_chain_rem it - 1)
      else Ok (it\<lparr>iter_ele_idx := ele_idx\<rparr>))"

subsection \<open>Chains\<close>

text \<open>
  \<open>mseg pool h xs t\<close>: following the \<open>next\<close> fields from \<open>h\<close> visits \<open>xs\<close> and leads to \<open>t\<close>; a chain is a
  segment that leads to the null index.
\<close>

fun mseg :: "'k map_ele list \<Rightarrow> nat \<Rightarrow> nat list \<Rightarrow> nat \<Rightarrow> bool" where
  "mseg pool h [] t \<longleftrightarrow> h = t"
| "mseg pool h (i # xs) t \<longleftrightarrow> h = i \<and> i < length pool \<and> mseg pool (ele_next (pool ! i)) xs t"

abbreviation mchain :: "'k map_ele list \<Rightarrow> nat \<Rightarrow> nat list \<Rightarrow> bool" where
  "mchain pool h xs \<equiv> mseg pool h xs MAP_IDX_NULL"

lemma mseg_bound: "mseg pool h xs t \<Longrightarrow> i \<in> set xs \<Longrightarrow> i < length pool"
  by (induction xs arbitrary: h) auto

lemma mseg_append: "mseg pool h (xs @ ys) t \<longleftrightarrow> (\<exists>u. mseg pool h xs u \<and> mseg pool u ys t)"
  by (induction xs arbitrary: h) auto

lemma mseg_cong:
  "length pool' = length pool \<Longrightarrow> (\<And>i. i \<in> set xs \<Longrightarrow> ele_next (pool' ! i) = ele_next (pool ! i)) \<Longrightarrow>
     mseg pool' h xs t = mseg pool h xs t"
  by (induction xs arbitrary: h) auto

lemma mseg_update: "i \<notin> set xs \<Longrightarrow> mseg (pool[i := e]) h xs t = mseg pool h xs t"
  by (rule mseg_cong) (simp, metis nth_list_update_neq)

lemma mseg_key_update [simp]:
  "i < length pool \<Longrightarrow> mseg (pool[i := (pool ! i)\<lparr>ele_key := k\<rparr>]) h xs t = mseg pool h xs t"
  by (rule mseg_cong) (auto simp: nth_list_update)

text \<open>Redirecting the last link of a segment.\<close>

lemma mseg_redirect:
  "mseg pool h xs u \<Longrightarrow> xs \<noteq> [] \<Longrightarrow> distinct xs \<Longrightarrow>
     mseg (pool[last xs := (pool ! last xs)\<lparr>ele_next := t\<rparr>]) h xs t"
proof (induction xs arbitrary: h)
  case (Cons x xs)
  show ?case
  proof (cases "xs = []")
    case False
    then have "x \<noteq> last xs"
      using Cons.prems(3) by auto
    then show ?thesis
      using False Cons by (simp add: nth_list_update_neq)
  qed (use Cons.prems in simp)
qed simp

text \<open>The cursor in front of \<open>rest\<close> when the elements \<open>done\<close> of chain \<open>c\<close> have been passed.\<close>

definition cursor_at :: "nat \<Rightarrow> nat list \<Rightarrow> map_cursor" where
  "cursor_at c before = (if before = [] then Chain_Slot c else Next_Of (last before))"

definition chain_head :: "nat list \<Rightarrow> nat" where
  "chain_head xs = (case xs of [] \<Rightarrow> MAP_IDX_NULL | x # _ \<Rightarrow> x)"

lemma mseg_head: "mchain pool h xs \<Longrightarrow> h = chain_head xs"
  by (cases xs) (simp_all add: chain_head_def)

lemma mseg_last: "mseg pool h xs u \<Longrightarrow> xs \<noteq> [] \<Longrightarrow> ele_next (pool ! last xs) = u \<and> last xs < length pool"
  by (induction xs arbitrary: h) auto

lemma cursor_get_at:
  assumes "c < length (map_chain m)" "mchain pool (map_chain m ! c) (before @ rest)"
  shows "cursor_get m pool (cursor_at c before) = Ok (chain_head rest)"
proof -
  obtain u where u: "mseg pool (map_chain m ! c) before u" "mchain pool u rest"
    using assms(2) by (auto simp: mseg_append)
  show ?thesis
    using u mseg_last [OF u(1)] mseg_head [OF u(2)] assms(1) by (cases "before = []") (auto simp: cursor_at_def cursor_get_def)
qed

lemma cursor_at_snoc: "cursor_at c (before @ [i]) = Next_Of i"
  by (simp add: cursor_at_def)

lemma chain_head_null: "mchain pool h xs \<Longrightarrow> length pool < MAP_IDX_NULL \<Longrightarrow> (chain_head xs = MAP_IDX_NULL) = (xs = [])"
  by (cases xs) (auto simp: chain_head_def)

text \<open>Following a chain to the first element with the key.\<close>

lemma query_const_loop:
  assumes "c < length (map_chain m)" "mchain pool (map_chain m ! c) (before @ rest)" "length pool < MAP_IDX_NULL" "length rest < fuel"
  shows "map_idx_query_const_loop fuel m pool (cursor_at c before) key sentinel =
    Ok (case find (\<lambda>i. ele_key (pool ! i) = key) rest of None \<Rightarrow> sentinel | Some i \<Rightarrow> i)"
  using assms(2,4)
proof (induction rest arbitrary: before fuel)
  case Nil
  then obtain f where "fuel = Suc f"
    by (cases fuel) auto
  then show ?case
    using cursor_get_at [OF assms(1) Nil(1)] by (simp add: chain_head_def)
next
  case (Cons i rest)
  then obtain f where f: "fuel = Suc f"
    by (cases fuel) auto
  have "i < length pool"
    using mseg_bound [OF Cons.prems(1), of i] by simp
  moreover have "map_idx_query_const_loop f m pool (Next_Of i) key sentinel =
      Ok (case find (\<lambda>i. ele_key (pool ! i) = key) rest of None \<Rightarrow> sentinel | Some i \<Rightarrow> i)"
    using Cons.IH [of "before @ [i]" f] Cons.prems f by (simp add: cursor_at_snoc)
  ultimately show ?case
    using cursor_get_at [OF assms(1) Cons.prems(1)] f assms(3) by (simp add: chain_head_def eq_commute [of key])
qed

lemma remove_loop:
  assumes "c < length (map_chain m)" "mchain pool (map_chain m ! c) (before @ rest)" "length pool < MAP_IDX_NULL" "length rest < fuel"
  shows "map_idx_remove_loop fuel m pool (cursor_at c before) key sentinel =
    (case find (\<lambda>i. ele_key (pool ! i) = key) rest of None \<Rightarrow> Ok (sentinel, m, pool)
     | Some i \<Rightarrow>
         rbind (cursor_set m pool (cursor_at c (before @ takeWhile (\<lambda>i. ele_key (pool ! i) \<noteq> key) rest)) (ele_next (pool ! i)))
           (\<lambda>(m, pool). Ok (i, m, pool)))"
  using assms(2,4)
proof (induction rest arbitrary: before fuel)
  case Nil
  then obtain f where "fuel = Suc f"
    by (cases fuel) auto
  then show ?case
    using cursor_get_at [OF assms(1) Nil(1)] by (simp add: chain_head_def)
next
  case (Cons i rest)
  then obtain f where f: "fuel = Suc f"
    by (cases fuel) auto
  have "i < length pool"
    using mseg_bound [OF Cons.prems(1), of i] by simp
  then show ?case
    using Cons.IH [of "before @ [i]" f] Cons.prems cursor_get_at [OF assms(1) Cons.prems(1)] f assms(3)
    by (simp add: chain_head_def cursor_at_snoc eq_commute [of key] split: option.split)
qed

lemma query_loop:
  assumes "c < length (map_chain m)" "mchain pool (map_chain m ! c) (before @ rest)" "length pool < MAP_IDX_NULL" "length rest < fuel"
  shows "map_idx_query_loop fuel m pool (Chain_Slot c) (cursor_at c before) key sentinel =
    (case find (\<lambda>i. ele_key (pool ! i) = key) rest of None \<Rightarrow> Ok (sentinel, m, pool)
     | Some i \<Rightarrow>
         let cur = cursor_at c (before @ takeWhile (\<lambda>i. ele_key (pool ! i) \<noteq> key) rest) in
         if cur \<noteq> Chain_Slot c then
           rbind (cursor_set m pool cur (ele_next (pool ! i))) (\<lambda>(m, pool).
           rbind (cursor_get m pool (Chain_Slot c)) (\<lambda>h.
           rbind (cursor_set m pool (Next_Of i) h) (\<lambda>(m, pool).
           rbind (cursor_set m pool (Chain_Slot c) i) (\<lambda>(m, pool). Ok (i, m, pool)))))
         else Ok (i, m, pool))"
  using assms(2,4)
proof (induction rest arbitrary: before fuel)
  case Nil
  then obtain f where "fuel = Suc f"
    by (cases fuel) auto
  then show ?case
    using cursor_get_at [OF assms(1) Nil(1)] by (simp add: chain_head_def)
next
  case (Cons i rest)
  then obtain f where f: "fuel = Suc f"
    by (cases fuel) auto
  have "i < length pool"
    using mseg_bound [OF Cons.prems(1), of i] by simp
  then show ?case
    using Cons.IH [of "before @ [i]" f] Cons.prems cursor_get_at [OF assms(1) Cons.prems(1)] f assms(3)
    by (simp add: chain_head_def cursor_at_snoc eq_commute [of key] Let_def split: option.split)
qed

subsection \<open>The map a hash table stands for\<close>

abbreviation key_chain :: "('k \<Rightarrow> nat \<Rightarrow> nat) \<Rightarrow> map_private \<Rightarrow> 'k \<Rightarrow> nat" where
  "key_chain key_hash m k \<equiv> map_private_chain_idx key_hash k (map_seed m) (map_chain_cnt m)"

definition map_rep :: "('k \<Rightarrow> nat \<Rightarrow> nat) \<Rightarrow> map_private \<Rightarrow> 'k map_ele list \<Rightarrow> (nat \<Rightarrow> nat list) \<Rightarrow> bool" where
  "map_rep key_hash m pool cl \<longleftrightarrow>
     length (map_chain m) = map_chain_cnt m \<and> (\<exists>e. map_chain_cnt m = 2 ^ e) \<and> length pool < MAP_IDX_NULL \<and>
     (\<forall>c < map_chain_cnt m. mchain pool (map_chain m ! c) (cl c) \<and> distinct (cl c) \<and>
        (\<forall>i \<in> set (cl c). key_chain key_hash m (ele_key (pool ! i)) = c))"

definition map_inv :: "('k \<Rightarrow> nat \<Rightarrow> nat) \<Rightarrow> map_private \<Rightarrow> 'k map_ele list \<Rightarrow> ('k \<rightharpoonup> nat) \<Rightarrow> bool" where
  "map_inv key_hash m pool M \<longleftrightarrow>
     (\<exists>cl. map_rep key_hash m pool cl \<and>
        (\<forall>k j. M k = Some j \<longleftrightarrow> j \<in> set (cl (key_chain key_hash m k)) \<and> ele_key (pool ! j) = k))"

lemma key_chain_less: "map_rep key_hash m pool cl \<Longrightarrow> key_chain key_hash m k < map_chain_cnt m"
proof -
  assume "map_rep key_hash m pool cl"
  then obtain e where "map_chain_cnt m = 2 ^ e"
    by (auto simp: map_rep_def)
  then show ?thesis
    using take_bit_nat_less_exp [of e "key_hash k (map_seed m)"]
    by (simp add: map_private_chain_idx_def take_bit_eq_mask mask_eq_exp_minus_1)
qed

lemma find_key:
  assumes "\<And>k j. M k = Some j \<longleftrightarrow> j \<in> set (cl (key_chain key_hash m k)) \<and> ele_key (pool ! j) = k"
  shows "find (\<lambda>i. ele_key (pool ! i) = k) (cl (key_chain key_hash m k)) = M k"
proof (cases "M k")
  case None
  then have "\<forall>j \<in> set (cl (key_chain key_hash m k)). ele_key (pool ! j) \<noteq> k"
    using assms [of k] by auto
  then show ?thesis
    using None by (simp add: find_None_iff)
next
  case (Some j)
  obtain i where i: "find (\<lambda>i. ele_key (pool ! i) = k) (cl (key_chain key_hash m k)) = Some i"
    using Some assms [of k j] by (cases "find (\<lambda>i. ele_key (pool ! i) = k) (cl (key_chain key_hash m k))") (auto simp: find_None_iff)
  then have "i \<in> set (cl (key_chain key_hash m k))" "ele_key (pool ! i) = k"
    by (auto simp: find_Some_iff)
  then have "M k = Some i"
    using assms by blast
  with i show ?thesis
    by simp
qed

text \<open>Changing one chain.\<close>

lemma map_rep_update:
  assumes rep: "map_rep key_hash m pool cl" and c: "c < map_chain_cnt m"
    and keys: "map ele_key pool' = map ele_key pool"
    and nexts: "\<And>i. i < length pool \<Longrightarrow> i \<notin> set (cl c) \<Longrightarrow> i \<notin> set xs \<Longrightarrow> ele_next (pool' ! i) = ele_next (pool ! i)"
    and chain: "mchain pool' h xs" "distinct xs" "\<And>i. i \<in> set xs \<Longrightarrow> key_chain key_hash m (ele_key (pool ! i)) = c"
  shows "map_rep key_hash (m\<lparr>map_chain := (map_chain m)[c := h]\<rparr>) pool' (cl(c := xs))"
proof -
  have len: "length pool' = length pool"
    using keys map_eq_imp_length_eq by blast
  have key: "ele_key (pool' ! i) = ele_key (pool ! i)" if "i < length pool" for i
    using keys that len by (metis nth_map)
  have other: "mchain pool' (map_chain m ! d) (cl d)" "\<forall>i \<in> set (cl d). key_chain key_hash m (ele_key (pool' ! i)) = d"
    if d: "d < map_chain_cnt m" "d \<noteq> c" for d
  proof -
    have ch: "mchain pool (map_chain m ! d) (cl d)" "\<forall>i \<in> set (cl d). key_chain key_hash m (ele_key (pool ! i)) = d"
      using rep d by (simp_all add: map_rep_def)
    have nx: "i \<notin> set (cl c)" "i \<notin> set xs" "i < length pool" if "i \<in> set (cl d)" for i
      using that ch d(2) rep c chain(3) mseg_bound [OF ch(1)] by (auto simp: map_rep_def)
    show "mchain pool' (map_chain m ! d) (cl d)"
      using ch(1) nx nexts len by (subst mseg_cong) auto
    show "\<forall>i \<in> set (cl d). key_chain key_hash m (ele_key (pool' ! i)) = d"
      using ch(2) nx key by simp
  qed
  have mine: "\<forall>i \<in> set xs. key_chain key_hash m (ele_key (pool' ! i)) = c"
    using chain(3) key mseg_bound [OF chain(1)] len by simp
  show ?thesis
    using rep c chain(1,2) mine other len unfolding map_rep_def by (auto simp: nth_list_update)
qed

lemma map_inv_intro:
  assumes "map_rep key_hash m pool cl"
    "\<And>k j. M k = Some j \<longleftrightarrow> j \<in> set (cl (key_chain key_hash m k)) \<and> ele_key (pool ! j) = k"
  shows "map_inv key_hash m pool M"
  using assms by (auto simp: map_inv_def)

lemma chain_length:
  assumes "map_rep key_hash m pool cl" "c < map_chain_cnt m"
  shows "length (cl c) < length pool + 1"
proof -
  have ch: "mchain pool (map_chain m ! c) (cl c)" "distinct (cl c)"
    using assms by (simp_all add: map_rep_def)
  have "card (set (cl c)) \<le> card {..<length pool}"
    using mseg_bound [OF ch(1)] by (intro card_mono) auto
  then show ?thesis
    using ch(2) by (simp add: distinct_card)
qed

lemma query_const_inv:
  assumes "map_inv key_hash m pool M"
  shows "map_idx_query_const key_hash m pool key sentinel = Ok (case M key of None \<Rightarrow> sentinel | Some i \<Rightarrow> i)"
proof -
  obtain cl where cl: "map_rep key_hash m pool cl"
      "\<And>k j. M k = Some j \<longleftrightarrow> j \<in> set (cl (key_chain key_hash m k)) \<and> ele_key (pool ! j) = k"
    using assms by (auto simp: map_inv_def)
  let ?c = "key_chain key_hash m key"
  have c: "?c < map_chain_cnt m" "length (map_chain m) = map_chain_cnt m" "length pool < MAP_IDX_NULL"
      "mchain pool (map_chain m ! ?c) (cl ?c)"
    using key_chain_less [OF cl(1)] cl(1) by (simp_all add: map_rep_def)
  show ?thesis
    using query_const_loop [of ?c m pool "[]" "cl ?c" "length pool + 1" key sentinel] c chain_length [OF cl(1) c(1)]
      find_key [of M cl key_hash m pool key, OF cl(2)]
    by (simp add: map_idx_query_const_def cursor_at_def)
qed

lemma find_split:
  assumes "find P xs = Some i"
  shows "xs = takeWhile (\<lambda>x. \<not> P x) xs @ i # tl (dropWhile (\<lambda>x. \<not> P x) xs)"
  using assms by (induction xs) (auto split: if_splits)

lemma takeWhile_eq: "(\<lambda>i. ele_key (pool ! i) \<noteq> key) = (\<lambda>i. \<not> ele_key (pool ! i) = key)"
  by simp

lemma keys_update [simp]: "map ele_key (pool[i := (pool ! i)\<lparr>ele_next := v\<rparr>]) = map ele_key pool"
  by (cases "i < length pool") (auto simp: list_eq_iff_nth_eq nth_list_update)

lemma key_update [simp]: "ele_key (pool[i := (pool ! i)\<lparr>ele_next := v\<rparr>] ! j) = ele_key (pool ! j)"
  by (cases "i < length pool"; cases "i = j") (simp_all add: not_less list_update_beyond)

text \<open>Unlinking an element from its chain.\<close>

lemma unlink:
  assumes c: "c < length (map_chain m)" and ch: "mchain pool (map_chain m ! c) (bef @ i # ys)" and d: "distinct (bef @ i # ys)"
  shows "\<exists>m' pool'. cursor_set m pool (cursor_at c bef) (ele_next (pool ! i)) = Ok (m', pool') \<and>
    m' = m\<lparr>map_chain := (map_chain m)[c := map_chain m' ! c]\<rparr> \<and> map ele_key pool' = map ele_key pool \<and>
    (\<forall>j. j \<notin> set bef \<longrightarrow> ele_next (pool' ! j) = ele_next (pool ! j)) \<and>
    mchain pool' (map_chain m' ! c) (bef @ ys) \<and> (bef \<noteq> [] \<longrightarrow> map_chain m' ! c = map_chain m ! c)"
proof (cases "bef = []")
  case True
  then show ?thesis
    using c ch by (auto simp: cursor_at_def cursor_set_def)
next
  case False
  let ?l = "last bef" and ?h = "map_chain m ! c" and ?n = "ele_next (pool ! i)"
  let ?pool = "pool[?l := (pool ! ?l)\<lparr>ele_next := ?n\<rparr>]"
  obtain u where u: "mseg pool ?h bef u" "mchain pool u (i # ys)"
    using ch by (auto simp: mseg_append)
  have l: "?l < length pool" "?l \<notin> set ys" "\<And>j. j \<notin> set bef \<Longrightarrow> j \<noteq> ?l"
    using mseg_last [OF u(1) False] d last_in_set [OF False] by auto
  have "mseg ?pool ?h bef ?n"
    using mseg_redirect [OF u(1) False] d by simp
  moreover have "mchain ?pool ?n ys"
    using u(2) l by (simp add: mseg_update)
  ultimately have "mchain ?pool ?h (bef @ ys)"
    by (auto simp: mseg_append)
  moreover have "m = m\<lparr>map_chain := (map_chain m)[c := ?h]\<rparr>"
    by simp
  moreover have "\<forall>j. j \<notin> set bef \<longrightarrow> ele_next (?pool ! j) = ele_next (pool ! j)"
    using l(3) by (metis nth_list_update_neq)
  ultimately show ?thesis
    using False l by (simp add: cursor_at_def cursor_set_def)
qed

lemma map_inv_update:
  assumes rep: "map_rep key_hash m pool cl" and c: "c < map_chain_cnt m"
    and keys: "map ele_key pool' = map ele_key pool"
    and nexts: "\<And>i. i < length pool \<Longrightarrow> i \<notin> set (cl c) \<Longrightarrow> i \<notin> set xs \<Longrightarrow> ele_next (pool' ! i) = ele_next (pool ! i)"
    and chain: "mchain pool' h xs" "distinct xs" "\<And>i. i \<in> set xs \<Longrightarrow> key_chain key_hash m (ele_key (pool ! i)) = c"
    and M': "\<And>k j. M' k = Some j \<longleftrightarrow>
      j \<in> (if key_chain key_hash m k = c then set xs else set (cl (key_chain key_hash m k))) \<and> ele_key (pool ! j) = k"
  shows "map_inv key_hash (m\<lparr>map_chain := (map_chain m)[c := h]\<rparr>) pool' M'"
proof (rule map_inv_intro)
  have ek: "ele_key (pool' ! j) = ele_key (pool ! j)" if "j < length pool" for j
    using keys that map_eq_imp_length_eq [OF keys] by (metis nth_map)
  have len: "length pool' = length pool"
    using keys map_eq_imp_length_eq by blast
  have bound: "j < length pool" if "j \<in> (if key_chain key_hash m k = c then set xs else set (cl (key_chain key_hash m k)))" for j k
  proof -
    have "mchain pool (map_chain m ! key_chain key_hash m k) (cl (key_chain key_hash m k))"
      using key_chain_less [OF rep, of k] rep by (simp add: map_rep_def)
    from mseg_bound [OF this, of j] mseg_bound [OF chain(1), of j] show ?thesis
      using that len by (simp split: if_splits)
  qed
  show "(M' k = Some j) = (j \<in> set ((cl(c := xs)) (key_chain key_hash (m\<lparr>map_chain := (map_chain m)[c := h]\<rparr>) k)) \<and>
      ele_key (pool' ! j) = k)" for k j
    using M' [of k j] ek [of j] bound [of j k] by (cases "key_chain key_hash m k = c") auto
qed (rule map_rep_update [OF rep c keys nexts chain])

lemma map_rep_chain:
  assumes "map_rep key_hash m pool cl"
  shows "key_chain key_hash m k < map_chain_cnt m" "length (map_chain m) = map_chain_cnt m" "length pool < MAP_IDX_NULL"
    "mchain pool (map_chain m ! key_chain key_hash m k) (cl (key_chain key_hash m k))"
    "distinct (cl (key_chain key_hash m k))" "length (cl (key_chain key_hash m k)) < length pool + 1"
    "i \<in> set (cl (key_chain key_hash m k)) \<Longrightarrow> key_chain key_hash m (ele_key (pool ! i)) = key_chain key_hash m k"
  using assms key_chain_less [OF assms, of k] chain_length [OF assms key_chain_less [OF assms, of k]]
  by (simp_all add: map_rep_def)

lemma remove_inv:
  assumes inv: "map_inv key_hash m pool M"
  shows "\<exists>m' pool'. map_idx_remove key_hash m pool key sentinel = Ok (case M key of None \<Rightarrow> sentinel | Some i \<Rightarrow> i, m', pool') \<and>
    map_inv key_hash m' pool' (M(key := None)) \<and> map ele_key pool' = map ele_key pool"
proof -
  obtain cl where cl: "map_rep key_hash m pool cl"
      and M: "\<And>k j. M k = Some j \<longleftrightarrow> j \<in> set (cl (key_chain key_hash m k)) \<and> ele_key (pool ! j) = k"
    using inv by (auto simp: map_inv_def)
  note ch = map_rep_chain(1) [OF cl, of key] map_rep_chain(2,3) [OF cl] map_rep_chain(4-7) [OF cl, where k = key] find_key [of M cl key_hash m pool key, OF M]
  let ?c = "key_chain key_hash m key" and ?P = "\<lambda>i. ele_key (pool ! i) = key"
  have run: "map_idx_remove key_hash m pool key sentinel = (case M key of None \<Rightarrow> Ok (sentinel, m, pool)
     | Some i \<Rightarrow> rbind (cursor_set m pool (cursor_at ?c (takeWhile (\<lambda>i. \<not> ?P i) (cl ?c))) (ele_next (pool ! i)))
           (\<lambda>(m, pool). Ok (i, m, pool)))"
    using remove_loop [of ?c m pool "[]" "cl ?c" "length pool + 1" key sentinel] ch
    by (simp add: map_idx_remove_def cursor_at_def split: option.split)
  show ?thesis
  proof (cases "M key")
    case None
    then have "M(key := None) = M"
      by auto
    then show ?thesis
      using None inv run by simp
  next
    case (Some i)
    define bef ys where "bef = takeWhile (\<lambda>i. \<not> ?P i) (cl ?c)" and "ys = tl (dropWhile (\<lambda>i. \<not> ?P i) (cl ?c))"
    have split: "cl ?c = bef @ i # ys"
      unfolding bef_def ys_def using ch(8) Some by (intro find_split) simp
    obtain m' pool' where u: "cursor_set m pool (cursor_at ?c bef) (ele_next (pool ! i)) = Ok (m', pool')"
        "m' = m\<lparr>map_chain := (map_chain m)[?c := map_chain m' ! ?c]\<rparr>" "map ele_key pool' = map ele_key pool"
        "\<forall>j. j \<notin> set bef \<longrightarrow> ele_next (pool' ! j) = ele_next (pool ! j)" "mchain pool' (map_chain m' ! ?c) (bef @ ys)"
      using unlink [of ?c m pool bef i ys] ch(1,2,4,5) split by auto
    have i: "set (bef @ ys) = set (cl ?c) - {i}" "ele_key (pool ! i) = key" "distinct (bef @ ys)"
      using ch(5) M [of key i] Some unfolding split by auto
    have uniq: "j = i" if "j \<in> set (cl ?c)" "ele_key (pool ! j) = key" for j
      using M [of key j] Some that by simp
    have "map_inv key_hash (m\<lparr>map_chain := (map_chain m)[?c := map_chain m' ! ?c]\<rparr>) pool' (M(key := None))"
      using u i(1) ch(7) uniq i(2) M by (intro map_inv_update [OF cl ch(1) u(3) _ u(5) i(3)]) auto
    then show ?thesis
      using Some run u by (simp add: bef_def)
  qed
qed

end
