(* ===== verification/Map_Chain_Correct.thy ===== *)
theory Map_Chain_Correct
  imports Map_Chain
begin

text \<open>
  Correctness of the chained hash map: every operation keeps the representation invariant and acts on
  the abstract map as its name says, iteration visits each element once, and any history of
  operations refines the map from keys to elements (locale \<open>keyed_map\<close>).
\<close>

text \<open>Pushing an element to the front of a chain, the last steps of a query and the whole of an insertion.\<close>

lemma push_front:
  assumes "c < length (map_chain m)" "mchain pool (map_chain m ! c) xs" "i \<notin> set xs" "i < length pool"
  shows "cursor_get m pool (Chain_Slot c) = Ok (map_chain m ! c)"
    "cursor_set m pool (Next_Of i) (map_chain m ! c) = Ok (m, pool[i := (pool ! i)\<lparr>ele_next := map_chain m ! c\<rparr>])"
    "cursor_set m pool' (Chain_Slot c) i = Ok (m\<lparr>map_chain := (map_chain m)[c := i]\<rparr>, pool')"
    "mchain (pool[i := (pool ! i)\<lparr>ele_next := map_chain m ! c\<rparr>]) i (i # xs)"
  using assms by (simp_all add: cursor_get_def cursor_set_def mseg_update)

lemma insert_inv:
  assumes inv: "map_inv key_hash m pool M" and i: "i < length pool" "M (ele_key (pool ! i)) = None"
  shows "\<exists>m' pool'. map_idx_insert key_hash m pool i = Ok (m', pool') \<and>
    map_inv key_hash m' pool' (M(ele_key (pool ! i) \<mapsto> i)) \<and> map ele_key pool' = map ele_key pool"
proof -
  obtain cl where cl: "map_rep key_hash m pool cl"
      and M: "\<And>k j. M k = Some j \<longleftrightarrow> j \<in> set (cl (key_chain key_hash m k)) \<and> ele_key (pool ! j) = k"
    using inv by (auto simp: map_inv_def)
  let ?k = "ele_key (pool ! i)"
  let ?c = "key_chain key_hash m ?k" and ?pool = "pool[i := (pool ! i)\<lparr>ele_next := map_chain m ! key_chain key_hash m ?k\<rparr>]"
  note ch = map_rep_chain(1) [OF cl, of ?k] map_rep_chain(2,3) [OF cl] map_rep_chain(4-7) [OF cl, where k = ?k]
  have new: "i \<notin> set (cl (key_chain key_hash m k))" for k
    using M [of ?k i] i(2) map_rep_chain(7) [OF cl, of i k] by auto
  have other: "j \<notin> set (cl ?c)" if "ele_key (pool ! j) = ?k" for j
    using M [of ?k j] i(2) that by simp
  note pf = push_front [of ?c m pool "cl ?c" i] 
  have run: "map_idx_insert key_hash m pool i = Ok (m\<lparr>map_chain := (map_chain m)[?c := i]\<rparr>, ?pool)"
    using pf(1,2,3) ch i(1) new by (simp add: map_idx_insert_def)
  have "map_inv key_hash (m\<lparr>map_chain := (map_chain m)[?c := i]\<rparr>) ?pool (M(?k \<mapsto> i))"
  proof (rule map_inv_update [OF cl ch(1) _ _ pf(4)])
    show "distinct (i # cl ?c)"
      using ch(5) new by simp
    show "((M(?k \<mapsto> i)) k = Some j) = (j \<in> (if key_chain key_hash m k = ?c then set (i # cl ?c)
        else set (cl (key_chain key_hash m k))) \<and> ele_key (pool ! j) = k)" for k j
      using M [of k j] other [of j] new [of k] by auto
  qed (use ch i new in \<open>auto simp: nth_list_update_neq\<close>)
  then show ?thesis
    using run by simp
qed

lemma query_inv:
  assumes inv: "map_inv key_hash m pool M"
  shows "\<exists>m' pool'. map_idx_query key_hash m pool key sentinel = Ok (case M key of None \<Rightarrow> sentinel | Some i \<Rightarrow> i, m', pool') \<and>
    map_inv key_hash m' pool' M \<and> map ele_key pool' = map ele_key pool"
proof -
  obtain cl where cl: "map_rep key_hash m pool cl"
      and M: "\<And>k j. M k = Some j \<longleftrightarrow> j \<in> set (cl (key_chain key_hash m k)) \<and> ele_key (pool ! j) = k"
    using inv by (auto simp: map_inv_def)
  note ch = map_rep_chain(1) [OF cl, of key] map_rep_chain(2,3) [OF cl] map_rep_chain(4-7) [OF cl, where k = key]
    find_key [of M cl key_hash m pool key, OF M]
  let ?c = "key_chain key_hash m key" and ?P = "\<lambda>i. ele_key (pool ! i) = key"
  have run: "map_idx_query key_hash m pool key sentinel = (case M key of None \<Rightarrow> Ok (sentinel, m, pool)
     | Some i \<Rightarrow>
         let cur = cursor_at ?c (takeWhile (\<lambda>i. \<not> ?P i) (cl ?c)) in
         if cur \<noteq> Chain_Slot ?c then
           rbind (cursor_set m pool cur (ele_next (pool ! i))) (\<lambda>(m, pool).
           rbind (cursor_get m pool (Chain_Slot ?c)) (\<lambda>h.
           rbind (cursor_set m pool (Next_Of i) h) (\<lambda>(m, pool).
           rbind (cursor_set m pool (Chain_Slot ?c) i) (\<lambda>(m, pool). Ok (i, m, pool)))))
         else Ok (i, m, pool))"
    using query_loop [of ?c m pool "[]" "cl ?c" "length pool + 1" key sentinel] ch
    by (simp add: map_idx_query_def cursor_at_def Let_def split: option.split)
  show ?thesis
  proof (cases "\<exists>i. M key = Some i \<and> cursor_at ?c (takeWhile (\<lambda>i. \<not> ?P i) (cl ?c)) \<noteq> Chain_Slot ?c")
    case False
    then show ?thesis
      using inv run by (cases "M key") simp_all
  next
    case True
    then obtain i where Some: "M key = Some i" and cur: "cursor_at ?c (takeWhile (\<lambda>i. \<not> ?P i) (cl ?c)) \<noteq> Chain_Slot ?c"
      by blast
    define bef ys where "bef = takeWhile (\<lambda>i. \<not> ?P i) (cl ?c)" and "ys = tl (dropWhile (\<lambda>i. \<not> ?P i) (cl ?c))"
    have split: "cl ?c = bef @ i # ys"
      unfolding bef_def ys_def using ch(8) Some by (intro find_split) simp
    have "bef \<noteq> []"
      using cur by (auto simp: cursor_at_def bef_def)
    then obtain m' pool' where u: "cursor_set m pool (cursor_at ?c bef) (ele_next (pool ! i)) = Ok (m', pool')"
        "m' = m" "map ele_key pool' = map ele_key pool"
        "\<forall>j. j \<notin> set bef \<longrightarrow> ele_next (pool' ! j) = ele_next (pool ! j)" "mchain pool' (map_chain m ! ?c) (bef @ ys)"
      using unlink [of ?c m pool bef i ys] ch(1,2,4,5) split by auto
    let ?pool = "pool'[i := (pool' ! i)\<lparr>ele_next := map_chain m ! ?c\<rparr>]"
    have i: "set (bef @ ys) = set (cl ?c) - {i}" "ele_key (pool ! i) = key" "distinct (bef @ ys)" "i < length pool'"
      using ch(5) M [of key i] Some map_eq_imp_length_eq [OF u(3)] mseg_bound [OF ch(4), of i] unfolding split by auto
    then have s: "set (i # bef @ ys) = set (cl ?c)"
      using split by auto
    have fresh: "?c < length (map_chain m)" "i \<notin> set (bef @ ys)"
      using ch(1,2) i(1) by simp_all
    note pf = push_front [of ?c m pool' "bef @ ys" i, OF fresh(1) u(5) fresh(2) i(4)]
    have "map_idx_query key_hash m pool key sentinel = Ok (i, m\<lparr>map_chain := (map_chain m)[?c := i]\<rparr>, ?pool)"
      using run Some cur u(1,2) by (simp add: bef_def pf(1,2,3))
    moreover have "map_inv key_hash (m\<lparr>map_chain := (map_chain m)[?c := i]\<rparr>) ?pool M"
    proof (rule map_inv_update [OF cl ch(1) _ _ pf(4)])
      show "(M k = Some j) = (j \<in> (if key_chain key_hash m k = ?c then set (i # bef @ ys)
          else set (cl (key_chain key_hash m k))) \<and> ele_key (pool ! j) = k)" for k j
        unfolding s using M [of k j] by auto
    next
      show "ele_next (?pool ! j) = ele_next (pool ! j)" if "j \<notin> set (cl ?c)" "j \<notin> set (i # bef @ ys)" for j
        using u(4) that by (simp add: nth_list_update_neq)
      show "key_chain key_hash m (ele_key (pool ! j)) = ?c" if "j \<in> set (i # bef @ ys)" for j
        using ch(7) that unfolding s .
    qed (use ch i u(3) in auto)
    ultimately show ?thesis
      using Some u(3) by simp
  qed
qed

lemma map_new_inv:
  assumes "chain_cnt = 2 ^ e" "length pool < MAP_IDX_NULL"
  shows "map_inv key_hash (map_new chain_cnt seed) pool (\<lambda>k. None)"
  using assms by (intro map_inv_intro [where cl = "\<lambda>c. []"]) (auto simp: map_rep_def map_new_def)

lemma map_reset_inv:
  assumes "map_inv key_hash m pool M"
  shows "map_inv key_hash (map_reset m) pool (\<lambda>k. None)"
  using assms by (intro map_inv_intro [where cl = "\<lambda>c. []"]) (auto simp: map_inv_def map_rep_def map_reset_def)

text \<open>The client may rewrite the key of an element that is not in the map.\<close>

lemma set_key_inv:
  assumes inv: "map_inv key_hash m pool M" and i: "i < length pool" "M (ele_key (pool ! i)) \<noteq> Some i"
  shows "map_inv key_hash m (pool[i := (pool ! i)\<lparr>ele_key := k'\<rparr>]) M"
proof -
  obtain cl where cl: "map_rep key_hash m pool cl"
      and M: "\<And>k j. M k = Some j \<longleftrightarrow> j \<in> set (cl (key_chain key_hash m k)) \<and> ele_key (pool ! j) = k"
    using inv by (auto simp: map_inv_def)
  have out: "j \<noteq> i" if "c < map_chain_cnt m" "j \<in> set (cl c)" for c j
    using that cl i(2) M [of "ele_key (pool ! i)" i] by (auto simp: map_rep_def)
  have same: "pool[i := (pool ! i)\<lparr>ele_key := k'\<rparr>] ! j = pool ! j" if "c < map_chain_cnt m" "j \<in> set (cl c)" for c j
    using out [OF that] by simp
  show ?thesis
  proof (rule map_inv_intro [where cl = cl])
    show "map_rep key_hash m (pool[i := (pool ! i)\<lparr>ele_key := k'\<rparr>]) cl"
      using cl i(1) same unfolding map_rep_def by auto
    show "(M k = Some j) = (j \<in> set (cl (key_chain key_hash m k)) \<and>
        ele_key (pool[i := (pool ! i)\<lparr>ele_key := k'\<rparr>] ! j) = k)" for k j
      using M [of k j] same [OF map_rep_chain(1) [OF cl, of k], of j] by auto
  qed
qed

subsection \<open>Iteration\<close>

text \<open>\<open>map_iter_list\<close> is the loop \<open>for( it = init; !done( it ); it = next( it ) )\<close>, collecting the elements.\<close>

fun map_iter_list :: "nat \<Rightarrow> map_private \<Rightarrow> 'k map_ele list \<Rightarrow> map_iter \<Rightarrow> nat list res" where
  "map_iter_list 0 m pool it = Ub"
| "map_iter_list (Suc fuel) m pool it =
     (if map_iter_done it then Ok []
      else rbind (map_iter_next m pool it) (\<lambda>it'. rbind (map_iter_list fuel m pool it') (\<lambda>xs. Ok (iter_ele_idx it # xs))))"

primrec chains_below :: "(nat \<Rightarrow> nat list) \<Rightarrow> nat \<Rightarrow> nat list" where
  "chains_below cl 0 = []"
| "chains_below cl (Suc n) = cl n @ chains_below cl n"

definition iter_rest :: "'k map_ele list \<Rightarrow> (nat \<Rightarrow> nat list) \<Rightarrow> map_iter \<Rightarrow> nat list \<Rightarrow> bool" where
  "iter_rest pool cl it xs \<longleftrightarrow>
     (case iter_chain_rem it of 0 \<Rightarrow> xs = []
      | Suc c \<Rightarrow> \<exists>ys. ys \<noteq> [] \<and> mchain pool (iter_ele_idx it) ys \<and> xs = ys @ chains_below cl c)"

lemma map_iter_scan_rest:
  assumes "map_rep key_hash m pool cl" "n \<le> map_chain_cnt m"
  shows "\<exists>it. map_iter_scan m e n = Ok it \<and> iter_rest pool cl it (chains_below cl n) \<and> iter_chain_rem it \<le> n"
  using assms(2)
proof (induction n arbitrary: e)
  case (Suc n)
  have ch: "mchain pool (map_chain m ! n) (cl n)" "length (map_chain m) = map_chain_cnt m" "length pool < MAP_IDX_NULL"
    using Suc.prems assms(1) by (simp_all add: map_rep_def)
  have null: "(map_chain m ! n = MAP_IDX_NULL) = (cl n = [])"
    using chain_head_null [OF ch(1,3)] mseg_head [OF ch(1)] by simp
  show ?case
  proof (cases "cl n = []")
    case True
    then show ?thesis
      using Suc.IH [of "MAP_IDX_NULL"] Suc.prems null ch(2) by (auto intro: le_SucI)
  next
    case False
    then show ?thesis
      using null ch Suc.prems by (auto simp: iter_rest_def)
  qed
qed (simp add: iter_rest_def)

lemma map_iter_next_rest:
  assumes rep: "map_rep key_hash m pool cl" and it: "iter_rest pool cl it (x # xs)" "iter_chain_rem it \<le> map_chain_cnt m"
  shows "iter_ele_idx it = x" "\<not> map_iter_done it"
    "\<exists>it'. map_iter_next m pool it = Ok it' \<and> iter_rest pool cl it' xs \<and> iter_chain_rem it' \<le> map_chain_cnt m"
proof -
  obtain c ys where c: "iter_chain_rem it = Suc c" and ys: "mchain pool (iter_ele_idx it) (x # ys)" "xs = ys @ chains_below cl c"
    using it(1) by (auto simp: iter_rest_def Cons_eq_append_conv split: nat.splits)
  show "iter_ele_idx it = x" "\<not> map_iter_done it"
    using ys(1) c by (simp_all add: map_iter_done_def)
  have x: "x < length pool" "mchain pool (ele_next (pool ! x)) ys" "iter_ele_idx it = x"
    using ys(1) by simp_all
  have null: "(ele_next (pool ! x) = MAP_IDX_NULL) = (ys = [])"
    using chain_head_null [OF x(2)] mseg_head [OF x(2)] rep by (simp add: map_rep_def)
  show "\<exists>it'. map_iter_next m pool it = Ok it' \<and> iter_rest pool cl it' xs \<and> iter_chain_rem it' \<le> map_chain_cnt m"
  proof (cases "ys = []")
    case True
    then show ?thesis
      using map_iter_scan_rest [OF rep, of c MAP_IDX_NULL] null x c it(2) ys(2) by (auto simp: map_iter_next_def)
  next
    case False
    then show ?thesis
      using null x c it(2) ys(2) by (auto simp: map_iter_next_def iter_rest_def)
  qed
qed

lemma map_iter_list_rest:
  assumes "map_rep key_hash m pool cl" "iter_rest pool cl it xs" "iter_chain_rem it \<le> map_chain_cnt m" "length xs < fuel"
  shows "map_iter_list fuel m pool it = Ok xs"
  using assms(2-4)
proof (induction xs arbitrary: it fuel)
  case Nil
  then have "map_iter_done it"
    by (auto simp: iter_rest_def map_iter_done_def split: nat.splits)
  then show ?case
    using Nil by (cases fuel) auto
next
  case (Cons x xs)
  then obtain f where "fuel = Suc f"
    by (cases fuel) auto
  then show ?case
    using map_iter_next_rest [OF assms(1) Cons.prems(1,2)] Cons.IH Cons.prems(3) by auto
qed

lemma chains_below_props:
  assumes rep: "map_rep key_hash m pool cl" "n \<le> map_chain_cnt m"
  shows "distinct (chains_below cl n) \<and> set (chains_below cl n) = (\<Union>c<n. set (cl c))"
  using assms(2)
proof (induction n)
  case (Suc n)
  have idx: "key_chain key_hash m (ele_key (pool ! i)) = c" if "c \<le> n" "i \<in> set (cl c)" for c i
    using that Suc.prems rep(1) by (simp add: map_rep_def)
  have "i \<notin> set (cl c)" if "c < n" "i \<in> set (cl n)" for c i
    using that idx [of n i] idx [of c i] by auto
  then have "set (cl n) \<inter> (\<Union>c<n. set (cl c)) = {}"
    by auto
  moreover have "distinct (cl n)"
    using Suc.prems rep(1) by (simp add: map_rep_def)
  ultimately show ?case
    using Suc by (auto simp: lessThan_Suc)
qed simp

lemma iteration:
  assumes inv: "map_inv key_hash m pool M"
  shows "\<exists>xs. rbind (map_iter_init m) (map_iter_list (length pool + 1) m pool) = Ok xs \<and> distinct xs \<and> set xs = ran M"
proof -
  obtain cl where cl: "map_rep key_hash m pool cl"
      and M: "\<And>k j. M k = Some j \<longleftrightarrow> j \<in> set (cl (key_chain key_hash m k)) \<and> ele_key (pool ! j) = k"
    using inv by (auto simp: map_inv_def)
  let ?n = "map_chain_cnt m" and ?xs = "chains_below cl (map_chain_cnt m)"
  have at: "j \<in> set (cl c) \<Longrightarrow> key_chain key_hash m (ele_key (pool ! j)) = c" "j \<in> set (cl c) \<Longrightarrow> j < length pool" if "c < ?n" for c j
    using cl that mseg_bound [of pool "map_chain m ! c" "cl c" MAP_IDX_NULL] by (simp_all add: map_rep_def)
  have xs: "distinct ?xs" "set ?xs = (\<Union>c<?n. set (cl c))"
    using chains_below_props [OF cl] by simp_all
  have "card (set ?xs) \<le> card {..<length pool}"
    using at(2) xs(2) by (intro card_mono) auto
  then have "length ?xs < length pool + 1"
    using xs(1) by (simp add: distinct_card)
  moreover obtain it where "map_iter_init m = Ok it" "iter_rest pool cl it ?xs" "iter_chain_rem it \<le> ?n"
    using map_iter_scan_rest [OF cl, of ?n] by (auto simp: map_iter_init_def)
  moreover have "set ?xs = ran M"
  proof (intro equalityI subsetI)
    show "j \<in> ran M" if "j \<in> set ?xs" for j
    proof -
      obtain c where "c < ?n" "j \<in> set (cl c)"
        using \<open>j \<in> set ?xs\<close> xs(2) by auto
      then have "M (ele_key (pool ! j)) = Some j"
        using M at(1) by simp
      then show ?thesis
        by (rule ranI)
    qed
    show "j \<in> set ?xs" if "j \<in> ran M" for j
      using that xs(2) M map_rep_chain(1) [OF cl] by (auto simp: ran_def)
  qed
  ultimately show ?thesis
    using map_iter_list_rest [OF cl, of it ?xs "length pool + 1"] xs(1) by (auto simp del: map_iter_list.simps)
qed

subsection \<open>Histories of operations\<close>

datatype 'k map_op = Map_Insert nat | Map_Remove 'k | Map_Query 'k

text \<open>What a history of operations does to the abstract map from keys to elements, and the answers it gives.\<close>

fun op_allowed :: "(nat \<Rightarrow> 'k) \<Rightarrow> nat \<Rightarrow> ('k \<rightharpoonup> nat) \<Rightarrow> 'k map_op \<Rightarrow> bool" where
  "op_allowed key n M (Map_Insert i) \<longleftrightarrow> i < n \<and> M (key i) = None"
| "op_allowed key n M (Map_Remove k) \<longleftrightarrow> True"
| "op_allowed key n M (Map_Query k) \<longleftrightarrow> True"

fun op_effect :: "(nat \<Rightarrow> 'k) \<Rightarrow> ('k \<rightharpoonup> nat) \<Rightarrow> 'k map_op \<Rightarrow> ('k \<rightharpoonup> nat)" where
  "op_effect key M (Map_Insert i) = M(key i \<mapsto> i)"
| "op_effect key M (Map_Remove k) = M(k := None)"
| "op_effect key M (Map_Query k) = M"

fun op_answer :: "nat \<Rightarrow> ('k \<rightharpoonup> nat) \<Rightarrow> 'k map_op \<Rightarrow> nat" where
  "op_answer sentinel M (Map_Insert i) = i"
| "op_answer sentinel M (Map_Remove k) = (case M k of None \<Rightarrow> sentinel | Some i \<Rightarrow> i)"
| "op_answer sentinel M (Map_Query k) = (case M k of None \<Rightarrow> sentinel | Some i \<Rightarrow> i)"

fun ops_allowed :: "(nat \<Rightarrow> 'k) \<Rightarrow> nat \<Rightarrow> ('k \<rightharpoonup> nat) \<Rightarrow> 'k map_op list \<Rightarrow> bool" where
  "ops_allowed key n M [] \<longleftrightarrow> True"
| "ops_allowed key n M (x # xs) \<longleftrightarrow> op_allowed key n M x \<and> ops_allowed key n (op_effect key M x) xs"

fun ops_answers :: "(nat \<Rightarrow> 'k) \<Rightarrow> nat \<Rightarrow> ('k \<rightharpoonup> nat) \<Rightarrow> 'k map_op list \<Rightarrow> nat list" where
  "ops_answers key sentinel M [] = []"
| "ops_answers key sentinel M (x # xs) = op_answer sentinel M x # ops_answers key sentinel (op_effect key M x) xs"

fun run_op ::
  "('s \<Rightarrow> nat \<Rightarrow> 's res) \<Rightarrow> ('s \<Rightarrow> 'k \<Rightarrow> nat \<Rightarrow> (nat \<times> 's) res) \<Rightarrow> ('s \<Rightarrow> 'k \<Rightarrow> nat \<Rightarrow> (nat \<times> 's) res) \<Rightarrow>
   nat \<Rightarrow> 's \<Rightarrow> 'k map_op \<Rightarrow> (nat \<times> 's) res" where
  "run_op ins rem qry sentinel s (Map_Insert i) = rbind (ins s i) (\<lambda>s. Ok (i, s))"
| "run_op ins rem qry sentinel s (Map_Remove k) = rem s k sentinel"
| "run_op ins rem qry sentinel s (Map_Query k) = qry s k sentinel"

fun run_ops ::
  "('s \<Rightarrow> nat \<Rightarrow> 's res) \<Rightarrow> ('s \<Rightarrow> 'k \<Rightarrow> nat \<Rightarrow> (nat \<times> 's) res) \<Rightarrow> ('s \<Rightarrow> 'k \<Rightarrow> nat \<Rightarrow> (nat \<times> 's) res) \<Rightarrow>
   nat \<Rightarrow> 's \<Rightarrow> 'k map_op list \<Rightarrow> (nat list \<times> 's) res" where
  "run_ops ins rem qry sentinel s [] = Ok ([], s)"
| "run_ops ins rem qry sentinel s (x # xs) =
     rbind (run_op ins rem qry sentinel s x) (\<lambda>(a, s). rbind (run_ops ins rem qry sentinel s xs) (\<lambda>(as, s). Ok (a # as, s)))"

text \<open>The interface of a keyed container that threads client-owned elements.\<close>

locale keyed_map =
  fixes ins :: "'s \<Rightarrow> nat \<Rightarrow> 's res" and rem :: "'s \<Rightarrow> 'k \<Rightarrow> nat \<Rightarrow> (nat \<times> 's) res"
    and qry :: "'s \<Rightarrow> 'k \<Rightarrow> nat \<Rightarrow> (nat \<times> 's) res" and key :: "nat \<Rightarrow> 'k" and cap :: nat
    and ok :: "'s \<Rightarrow> ('k \<rightharpoonup> nat) \<Rightarrow> bool"
  assumes ok_ins: "ok s M \<Longrightarrow> i < cap \<Longrightarrow> M (key i) = None \<Longrightarrow> \<exists>s'. ins s i = Ok s' \<and> ok s' (M(key i \<mapsto> i))"
    and ok_rem: "ok s M \<Longrightarrow> \<exists>s'. rem s k sentinel = Ok (case M k of None \<Rightarrow> sentinel | Some i \<Rightarrow> i, s') \<and> ok s' (M(k := None))"
    and ok_qry: "ok s M \<Longrightarrow> \<exists>s'. qry s k sentinel = Ok (case M k of None \<Rightarrow> sentinel | Some i \<Rightarrow> i, s') \<and> ok s' M"
begin

lemma run_op_ok:
  assumes "ok s M" "op_allowed key cap M x"
  shows "\<exists>s'. run_op ins rem qry sentinel s x = Ok (op_answer sentinel M x, s') \<and> ok s' (op_effect key M x)"
proof (cases x)
  case (Map_Insert i)
  then show ?thesis
    using ok_ins [OF assms(1), of i] assms(2) by auto
next
  case (Map_Remove k)
  then show ?thesis
    using ok_rem [OF assms(1)] by simp
next
  case (Map_Query k)
  then show ?thesis
    using ok_qry [OF assms(1)] by simp
qed

lemma run_ops_ok:
  assumes "ok s M" "ops_allowed key cap M xs"
  shows "\<exists>s'. run_ops ins rem qry sentinel s xs = Ok (ops_answers key sentinel M xs, s') \<and> ok s' (foldl (op_effect key) M xs)"
  using assms
proof (induction xs arbitrary: s M)
  case (Cons x xs)
  obtain s1 where s1: "run_op ins rem qry sentinel s x = Ok (op_answer sentinel M x, s1)" "ok s1 (op_effect key M x)"
    using run_op_ok [OF Cons.prems(1)] Cons.prems(2) by auto
  show ?case
    using Cons.IH [OF s1(2)] Cons.prems(2) s1(1) by auto
qed simp

end

definition map_ok :: "('k \<Rightarrow> nat \<Rightarrow> nat) \<Rightarrow> 'k list \<Rightarrow> map_private \<times> 'k map_ele list \<Rightarrow> ('k \<rightharpoonup> nat) \<Rightarrow> bool" where
  "map_ok key_hash keys s M \<longleftrightarrow> map_inv key_hash (fst s) (snd s) M \<and> map ele_key (snd s) = keys"

abbreviation chain_ins where "chain_ins key_hash \<equiv> \<lambda>(m, pool). map_idx_insert key_hash m pool"
abbreviation chain_rem where "chain_rem key_hash \<equiv> \<lambda>(m, pool). map_idx_remove key_hash m pool"
abbreviation chain_qry where "chain_qry key_hash \<equiv> \<lambda>(m, pool). map_idx_query key_hash m pool"

interpretation fd_map_chain: keyed_map "chain_ins key_hash" "chain_rem key_hash" "chain_qry key_hash" "\<lambda>i. keys ! i" "length keys"
  "map_ok key_hash keys" for key_hash :: "'k \<Rightarrow> nat \<Rightarrow> nat" and keys
proof unfold_locales
  fix s :: "map_private \<times> 'k map_ele list" and M
  assume ok: "map_ok key_hash keys s M"
  obtain m pool where s: "s = (m, pool)"
    by force
  have inv: "map_inv key_hash m pool M" and keys: "map ele_key pool = keys"
    using ok s by (simp_all add: map_ok_def)
  show "\<exists>s'. chain_ins key_hash s i = Ok s' \<and> map_ok key_hash keys s' (M(keys ! i \<mapsto> i))"
    if "i < length keys" "M (keys ! i) = None" for i
    using insert_inv [OF inv, of i] that keys s by (auto simp: map_ok_def)
  show "\<exists>s'. chain_rem key_hash s k sentinel = Ok (case M k of None \<Rightarrow> sentinel | Some i \<Rightarrow> i, s') \<and>
      map_ok key_hash keys s' (M(k := None))" for k sentinel
    using remove_inv [OF inv, of k sentinel] keys s by (auto simp: map_ok_def)
  show "\<exists>s'. chain_qry key_hash s k sentinel = Ok (case M k of None \<Rightarrow> sentinel | Some i \<Rightarrow> i, s') \<and>
      map_ok key_hash keys s' M" for k sentinel
    using query_inv [OF inv, of k sentinel] keys s by (auto simp: map_ok_def)
qed

text \<open>
  C18. For any hash function and seed and any history of inserts of absent keys, removes and move-
  to-front queries, the chained hash map answers as the abstract map from keys to elements does;
  after the history the read-only query agrees with that map, and the iterator visits every element
  of the map exactly once and then ends.
\<close>

theorem fd_map_chain_refines_map:
  assumes "chain_cnt = 2 ^ e" "length pool < MAP_IDX_NULL" "keys = map ele_key pool"
    and "ops_allowed (\<lambda>i. keys ! i) (length keys) (\<lambda>k. None) ops"
  shows "\<exists>m pool'. run_ops (chain_ins key_hash) (chain_rem key_hash) (chain_qry key_hash) sentinel (map_new chain_cnt seed, pool) ops =
      Ok (ops_answers (\<lambda>i. keys ! i) sentinel (\<lambda>k. None) ops, m, pool') \<and>
    (\<forall>k. map_idx_query_const key_hash m pool' k sentinel =
       Ok (case foldl (op_effect (\<lambda>i. keys ! i)) (\<lambda>k. None) ops k of None \<Rightarrow> sentinel | Some i \<Rightarrow> i)) \<and>
    (\<exists>xs. rbind (map_iter_init m) (map_iter_list (length pool' + 1) m pool') = Ok xs \<and> distinct xs \<and>
       set xs = ran (foldl (op_effect (\<lambda>i. keys ! i)) (\<lambda>k. None) ops))"
proof -
  have "map_ok key_hash keys (map_new chain_cnt seed, pool) (\<lambda>k. None)"
    using map_new_inv [OF assms(1,2)] assms(3) by (simp add: map_ok_def)
  from fd_map_chain.run_ops_ok [OF this assms(4), of sentinel] obtain m pool' where
    run: "run_ops (chain_ins key_hash) (chain_rem key_hash) (chain_qry key_hash) sentinel (map_new chain_cnt seed, pool) ops =
      Ok (ops_answers (\<lambda>i. keys ! i) sentinel (\<lambda>k. None) ops, m, pool')"
    and ok: "map_inv key_hash m pool' (foldl (op_effect (\<lambda>i. keys ! i)) (\<lambda>k. None) ops)"
    by (auto simp: map_ok_def)
  show ?thesis
    using run query_const_inv [OF ok] iteration [OF ok] by blast
qed

theorem fd_map_chain_refines_map_witness:
  "\<exists>m pool'. run_ops (chain_ins (\<lambda>k s. k)) (chain_rem (\<lambda>k s. k)) (chain_qry (\<lambda>k s. k)) 9
      (map_new 2 0, [\<lparr>ele_key = 5, ele_next = 0\<rparr>, \<lparr>ele_key = 7, ele_next = 0\<rparr>])
      [Map_Insert 0, Map_Insert 1, Map_Query 5, Map_Remove 7, Map_Query 7] = Ok ([0, 1, 0, 1, 9], m, pool')"
  using fd_map_chain_refines_map [of 2 1 "[\<lparr>ele_key = 5, ele_next = 0\<rparr>, \<lparr>ele_key = 7 :: nat, ele_next = 0\<rparr>]" "[5, 7]"
      "[Map_Insert 0, Map_Insert 1, Map_Query 5, Map_Remove 7, Map_Query 7]" "\<lambda>k s. k" 9 0]
  by (auto simp: MAP_IDX_NULL_def ULONG_MAX_def simp del: run_ops.simps)

end
