(* ===== verification/Bits.thy ===== *)
theory Bits
  imports Prelude
begin

text \<open>
  The bit manipulation header \<open>src/src/util/bits/fd_bits.h\<close>.  The functions a macro generates for
  \<open>uchar\<close>, \<open>ushort\<close>, \<open>uint\<close>, \<open>ulong\<close> and \<open>uint128\<close> are one polymorphic definition over \<open>'a word\<close>, with
  the type's name in the source replaced by \<open>T\<close>.  Bit numbers, which the header leaves undefined outside
  \<open>[0,w)\<close>, are natural numbers, and the theorems ask for them to be in range; the rotation counts, which
  may be negative, are integers.
\<close>

subsection \<open>Single bits and ranges of bits\<close>

definition fd_T_is_pow2 :: "'a :: len word \<Rightarrow> bool" where
  "fd_T_is_pow2 x \<longleftrightarrow> x \<noteq> 0 \<and> x AND (x - 1) = 0"

definition fd_T_pow2 :: "nat \<Rightarrow> 'a :: len word" where
  "fd_T_pow2 n = push_bit (n AND (LENGTH('a) - 1)) (of_bool (n < LENGTH('a)))"

definition fd_T_mask_bit :: "nat \<Rightarrow> 'a :: len word" where
  "fd_T_mask_bit b = push_bit b 1"

definition fd_T_clear_bit :: "'a :: len word \<Rightarrow> nat \<Rightarrow> 'a word" where
  "fd_T_clear_bit x b = x AND NOT (fd_T_mask_bit b)"

definition fd_T_set_bit :: "'a :: len word \<Rightarrow> nat \<Rightarrow> 'a word" where
  "fd_T_set_bit x b = x OR fd_T_mask_bit b"

definition fd_T_flip_bit :: "'a :: len word \<Rightarrow> nat \<Rightarrow> 'a word" where
  "fd_T_flip_bit x b = x XOR fd_T_mask_bit b"

definition fd_T_extract_bit :: "'a :: len word \<Rightarrow> nat \<Rightarrow> 'a word" where
  "fd_T_extract_bit x b = drop_bit b x AND 1"

definition fd_T_insert_bit :: "'a :: len word \<Rightarrow> nat \<Rightarrow> 'a word \<Rightarrow> 'a word" where
  "fd_T_insert_bit x b y = (x AND NOT (fd_T_mask_bit b)) OR push_bit b y"

definition fd_T_mask_lsb :: "nat \<Rightarrow> 'a :: len word" where
  "fd_T_mask_lsb n = push_bit (n AND (LENGTH('a) - 1)) (of_bool (n < LENGTH('a))) - 1"

definition fd_T_clear_lsb :: "'a :: len word \<Rightarrow> nat \<Rightarrow> 'a word" where
  "fd_T_clear_lsb x n = x AND NOT (fd_T_mask_lsb n)"

definition fd_T_set_lsb :: "'a :: len word \<Rightarrow> nat \<Rightarrow> 'a word" where
  "fd_T_set_lsb x n = x OR fd_T_mask_lsb n"

definition fd_T_flip_lsb :: "'a :: len word \<Rightarrow> nat \<Rightarrow> 'a word" where
  "fd_T_flip_lsb x n = x XOR fd_T_mask_lsb n"

definition fd_T_extract_lsb :: "'a :: len word \<Rightarrow> nat \<Rightarrow> 'a word" where
  "fd_T_extract_lsb x n = x AND fd_T_mask_lsb n"

definition fd_T_insert_lsb :: "'a :: len word \<Rightarrow> nat \<Rightarrow> 'a word \<Rightarrow> 'a word" where
  "fd_T_insert_lsb x n y = fd_T_clear_lsb x n OR y"

definition fd_T_mask :: "nat \<Rightarrow> nat \<Rightarrow> 'a :: len word" where
  "fd_T_mask l h = push_bit l (fd_T_mask_lsb (h - l + 1))"

definition fd_T_clear :: "'a :: len word \<Rightarrow> nat \<Rightarrow> nat \<Rightarrow> 'a word" where
  "fd_T_clear x l h = x AND NOT (fd_T_mask l h)"

definition fd_T_set :: "'a :: len word \<Rightarrow> nat \<Rightarrow> nat \<Rightarrow> 'a word" where
  "fd_T_set x l h = x OR fd_T_mask l h"

definition fd_T_flip :: "'a :: len word \<Rightarrow> nat \<Rightarrow> nat \<Rightarrow> 'a word" where
  "fd_T_flip x l h = x XOR fd_T_mask l h"

definition fd_T_extract :: "'a :: len word \<Rightarrow> nat \<Rightarrow> nat \<Rightarrow> 'a word" where
  "fd_T_extract x l h = drop_bit l x AND fd_T_mask_lsb (h - l + 1)"

definition fd_T_insert :: "'a :: len word \<Rightarrow> nat \<Rightarrow> nat \<Rightarrow> 'a word \<Rightarrow> 'a word" where
  "fd_T_insert x l h y = fd_T_clear x l h OR push_bit l y"

definition fd_T_lsb :: "'a :: len word \<Rightarrow> 'a word" where
  "fd_T_lsb x = x XOR (x AND (x - 1))"

definition fd_T_pop_lsb :: "'a :: len word \<Rightarrow> 'a word" where
  "fd_T_pop_lsb x = x AND (x - 1)"

subsection \<open>Alignment, selection, shifts and rotations\<close>

definition fd_T_is_aligned :: "'a :: len word \<Rightarrow> 'a word \<Rightarrow> bool" where
  "fd_T_is_aligned x a \<longleftrightarrow> x AND (a - 1) = 0"

definition fd_T_alignment :: "'a :: len word \<Rightarrow> 'a word \<Rightarrow> 'a word" where
  "fd_T_alignment x a = x AND (a - 1)"

definition fd_T_align_dn :: "'a :: len word \<Rightarrow> 'a word \<Rightarrow> 'a word" where
  "fd_T_align_dn x a = x AND NOT (a - 1)"

definition fd_T_align_up :: "'a :: len word \<Rightarrow> 'a word \<Rightarrow> 'a word" where
  "fd_T_align_up x a = (x + (a - 1)) AND NOT (a - 1)"

definition fd_T_blend :: "'a :: len word \<Rightarrow> 'a word \<Rightarrow> 'a word \<Rightarrow> 'a word" where
  "fd_T_blend m t f = (t AND m) OR (f AND NOT m)"

definition fd_T_if :: "bool \<Rightarrow> 'a :: len word \<Rightarrow> 'a word \<Rightarrow> 'a word" where
  "fd_T_if c t f = (if c then t else f)"

definition fd_T_min :: "'a :: len word \<Rightarrow> 'a word \<Rightarrow> 'a word" where
  "fd_T_min x y = (if x < y then x else y)"

definition fd_T_max :: "'a :: len word \<Rightarrow> 'a word \<Rightarrow> 'a word" where
  "fd_T_max x y = (if x > y then x else y)"

definition fd_T_shift_left :: "'a :: len word \<Rightarrow> nat \<Rightarrow> 'a word" where
  "fd_T_shift_left x n = push_bit (n AND (LENGTH('a) - 1)) (if n > LENGTH('a) - 1 then 0 else x)"

definition fd_T_shift_right :: "'a :: len word \<Rightarrow> nat \<Rightarrow> 'a word" where
  "fd_T_shift_right x n = drop_bit (n AND (LENGTH('a) - 1)) (if n > LENGTH('a) - 1 then 0 else x)"

definition fd_T_rotate_left :: "'a :: len word \<Rightarrow> int \<Rightarrow> 'a word" where
  "fd_T_rotate_left x n =
     push_bit (nat (n AND (int LENGTH('a) - 1))) x OR drop_bit (nat ((- n) AND (int LENGTH('a) - 1))) x"

definition fd_T_rotate_right :: "'a :: len word \<Rightarrow> int \<Rightarrow> 'a word" where
  "fd_T_rotate_right x n =
     drop_bit (nat (n AND (int LENGTH('a) - 1))) x OR push_bit (nat ((- n) AND (int LENGTH('a) - 1))) x"

subsection \<open>Powers of two\<close>

lemma pow2_minus_1: "(2 :: 'a :: len word) ^ n - 1 = mask n"
  by (simp add: mask_eq_exp_minus_1)

text \<open>A word and its predecessor differ from the lowest set bit down.\<close>

lemma bit_minus_1_below:
  fixes x :: "'a :: len word"
  assumes "bit x m" "\<And>i. i < m \<Longrightarrow> \<not> bit x i"
  shows "x - 1 = (x AND NOT (mask (Suc m))) OR mask m"
proof -
  have m: "m < LENGTH('a)"
    using assms(1) by (rule bit_imp_le_length)
  have "x = (x AND NOT (mask (Suc m))) OR 2 ^ m"
    using assms by (intro bit_word_eqI) (auto simp: bit_simps less_Suc_eq_le le_less)
  also have "\<dots> = (x AND NOT (mask (Suc m))) + 2 ^ m"
    by (intro disjunctive_add [symmetric]) (auto simp: bit_simps)
  finally have "x - 1 = (x AND NOT (mask (Suc m))) + (2 ^ m - 1)"
    by (metis add_diff_eq)
  also have "\<dots> = (x AND NOT (mask (Suc m))) OR mask m"
    unfolding pow2_minus_1 by (intro disjunctive_add) (auto simp: bit_simps)
  finally show ?thesis .
qed

lemma pop_lsb_bit:
  fixes x :: "'a :: len word"
  assumes "bit x m" "\<And>i. i < m \<Longrightarrow> \<not> bit x i"
  shows "fd_T_pop_lsb x = unset_bit m x"
proof -
  have b: "bit (x - 1) i \<longleftrightarrow> (bit x i \<and> m < i \<or> i < m) \<and> i < LENGTH('a)" for i
    using bit_imp_le_length [of x i] by (subst bit_minus_1_below [OF assms]) (auto simp: bit_simps less_Suc_eq_le)
  show ?thesis
    unfolding fd_T_pop_lsb_def using assms by (intro bit_word_eqI) (auto simp: bit_simps b intro: leI dest: leD)
qed

lemma word_lsb_exists: "(x :: 'a :: len word) \<noteq> 0 \<Longrightarrow> \<exists>m. bit x m \<and> (\<forall>i < m. \<not> bit x i)"
  using exists_least_iff [of "bit x"] by (metis bit_0_eq bit_word_eqI bot_apply bot_bool_def)

lemma fd_T_is_pow2_iff: "fd_T_is_pow2 (x :: 'a :: len word) \<longleftrightarrow> (\<exists>n < LENGTH('a). x = 2 ^ n)"
proof
  assume p: "fd_T_is_pow2 x"
  then obtain m where m: "bit x m" "\<And>i. i < m \<Longrightarrow> \<not> bit x i"
    using word_lsb_exists [of x] by (auto simp: fd_T_is_pow2_def)
  have z: "unset_bit m x = 0"
    using pop_lsb_bit [OF m] p by (simp add: fd_T_is_pow2_def fd_T_pop_lsb_def)
  have "bit x i \<longleftrightarrow> i = m" for i
    using arg_cong [OF z, of "\<lambda>y. bit y i"] m(1) by (auto simp: bit_unset_bit_iff)
  then have "x = 2 ^ m"
    using bit_imp_le_length [OF m(1)] by (intro bit_word_eqI) (simp add: bit_exp_iff)
  then show "\<exists>n < LENGTH('a). x = 2 ^ n"
    using bit_imp_le_length [OF m(1)] by blast
next
  assume "\<exists>n < LENGTH('a). x = 2 ^ n"
  then obtain n where n: "n < LENGTH('a)" "x = 2 ^ n"
    by blast
  have "2 ^ n AND mask n = (0 :: 'a word)"
    by (intro bit_word_eqI) (auto simp: bit_simps)
  then show "fd_T_is_pow2 x"
    using n by (simp add: fd_T_is_pow2_def pow2_minus_1)
qed

text \<open>Masking a count with the width, a power of two, minus one.\<close>

lemma and_minus_1_mod: "n AND (2 ^ k - 1) = (n :: nat) mod 2 ^ k"
  using take_bit_eq_mask [of k n] by (simp add: take_bit_eq_mod mask_eq_exp_minus_1)

lemma mask_lsb_mask: "n \<le> LENGTH('a) \<Longrightarrow> LENGTH('a) = 2 ^ k \<Longrightarrow> fd_T_mask_lsb n = (mask n :: 'a :: len word)"
proof -
  assume n: "n \<le> LENGTH('a)" "LENGTH('a) = 2 ^ k"
  show ?thesis
  proof (cases "n < LENGTH('a)")
    case True
    then have "n AND (LENGTH('a) - 1) = n"
      using n(2) and_minus_1_mod [of n k] by simp
    then show ?thesis
      using True by (simp add: fd_T_mask_lsb_def push_bit_of_1 pow2_minus_1)
  next
    case False
    then have "mask n = (- 1 :: 'a word)"
      using n(1) by (intro bit_word_eqI) (simp add: bit_simps)
    then show ?thesis
      using False by (simp add: fd_T_mask_lsb_def)
  qed
qed

subsection \<open>Alignment\<close>

lemma unat_pow2: "n < LENGTH('a) \<Longrightarrow> unat ((2 :: 'a :: len word) ^ n) = 2 ^ n"
  using unat_of_nat [of "2 ^ n", where 'a = 'a] by simp

lemma unat_mask: "n \<le> LENGTH('a) \<Longrightarrow> unat (mask n :: 'a :: len word) = 2 ^ n - 1"
proof -
  assume "n \<le> LENGTH('a)"
  then have "(2 :: nat) ^ n \<le> 2 ^ LENGTH('a)" "(0 :: nat) < 2 ^ n"
    by simp_all
  then have less: "(2 :: nat) ^ n - 1 < 2 ^ LENGTH('a)"
    by linarith
  have "unat (mask n :: 'a word) = unat (of_nat (mask n) :: 'a word)"
    by (simp only: of_nat_mask_eq)
  also have "\<dots> = (2 ^ n - 1) mod 2 ^ LENGTH('a)"
    by (simp only: unat_of_nat mask_eq_exp_minus_1)
  finally show ?thesis
    using less by simp
qed

lemma unat_and_mask: "unat (x AND mask n :: 'a :: len word) = unat x mod 2 ^ n"
proof -
  have "unat (x AND mask n) = take_bit n (unat x)"
    unfolding take_bit_eq_mask [symmetric] by (rule unsigned_take_bit_eq)
  then show ?thesis
    by (simp add: take_bit_eq_mod)
qed

lemma unat_and_not_mask: "unat (x AND NOT (mask n) :: 'a :: len word) = unat x div 2 ^ n * 2 ^ n"
proof -
  have "x = (x AND NOT (mask n)) + (x AND mask n)"
    by (subst disjunctive_add) (auto simp: bit_simps intro!: bit_word_eqI)
  moreover have "(x AND NOT (mask n)) AND (x AND mask n) = 0"
    by (intro bit_word_eqI) (auto simp: bit_simps)
  ultimately have "unat x = unat (x AND NOT (mask n)) + unat (x AND mask n)"
    by (metis add.commute unat_plus_simple word_and_le2)
  then show ?thesis
    by (simp add: unat_and_mask minus_mod_eq_div_mult [symmetric])
qed

text \<open>
  C28. For an alignment that is a power of two, at any integer width: is_aligned is divisibility,
  alignment is the remainder, align_dn is the largest multiple not above, and align_up is the
  smallest multiple not below, the addition wrapping at the width.
\<close>

theorem fd_T_alignment_spec:
  fixes x a :: "'a :: len word"
  assumes "fd_T_is_pow2 a"
  shows "(fd_T_is_aligned x a \<longleftrightarrow> unat a dvd unat x) \<and> unat (fd_T_alignment x a) = unat x mod unat a \<and>
    unat (fd_T_align_dn x a) = unat x div unat a * unat a \<and>
    unat (fd_T_align_up x a) = ((unat x + unat a - 1) mod 2 ^ LENGTH('a)) div unat a * unat a"
proof -
  obtain n where n: "n < LENGTH('a)" "a = 2 ^ n"
    using assms fd_T_is_pow2_iff by blast
  have a: "a - 1 = mask n" "unat a = 2 ^ n"
    using n by (simp_all add: pow2_minus_1 unat_pow2)
  have "x AND mask n = 0 \<longleftrightarrow> unat (x AND mask n) = 0"
    by simp
  then have "fd_T_is_aligned x a \<longleftrightarrow> unat a dvd unat x"
    unfolding fd_T_is_aligned_def a unat_and_mask by (simp add: mod_eq_0_iff_dvd)
  moreover have "unat (x + mask n) = (unat x + unat a - 1) mod 2 ^ LENGTH('a)"
    using n(1) by (simp add: unat_word_ariths a unat_mask)
  ultimately show ?thesis
    unfolding fd_T_alignment_def fd_T_align_dn_def fd_T_align_up_def a(1) unat_and_mask unat_and_not_mask a(2) by simp
qed

theorem fd_T_alignment_spec_witness: "fd_T_is_pow2 (16 :: u64) \<and> unat (fd_T_align_up (35 :: u64) 16) = 48 \<and> unat (fd_T_align_dn (35 :: u64) 16) = 32"
proof -
  have "fd_T_is_pow2 (16 :: u64)"
    by (simp add: fd_T_is_pow2_def)
  then show ?thesis
    using fd_T_alignment_spec [of "16 :: u64" 35] by simp
qed

subsection \<open>Fields of bits\<close>

lemma bit_mask_range:
  assumes "l \<le> h" "h < LENGTH('a)" "LENGTH('a) = 2 ^ k"
  shows "bit (fd_T_mask l h :: 'a :: len word) i \<longleftrightarrow> l \<le> i \<and> i \<le> h"
proof -
  have "h - l + 1 \<le> LENGTH('a)"
    using assms by simp
  then show ?thesis
    using assms by (auto simp: fd_T_mask_def mask_lsb_mask bit_simps)
qed

lemma bit_extract:
  assumes "l \<le> h" "h < LENGTH('a)" "LENGTH('a) = 2 ^ k"
  shows "bit (fd_T_extract (x :: 'a :: len word) l h) i \<longleftrightarrow> l + i \<le> h \<and> bit x (l + i)"
proof -
  have "h - l + 1 \<le> LENGTH('a)"
    using assms by simp
  then show ?thesis
    using assms by (auto simp: fd_T_extract_def mask_lsb_mask bit_simps)
qed

lemma bit_insert:
  assumes "l \<le> h" "h < LENGTH('a)" "LENGTH('a) = 2 ^ k" and y: "\<And>i. bit y i \<Longrightarrow> l + i \<le> h"
  shows "bit (fd_T_insert (x :: 'a :: len word) l h y) i \<longleftrightarrow> (if l \<le> i \<and> i \<le> h then bit y (i - l) else bit x i)"
  using y [of "i - l"] assms(2) bit_imp_le_length [of x i]
  by (auto simp: fd_T_insert_def fd_T_clear_def bit_simps bit_mask_range [OF assms(1-3)])

lemma bit_less_pow2: "unat (y :: 'a :: len word) < 2 ^ n \<Longrightarrow> bit y i \<Longrightarrow> i < n"
proof (rule ccontr)
  assume y: "unat y < 2 ^ n" "bit y i" "\<not> i < n"
  then have "unat (y AND mask n) = unat y"
    by (simp add: unat_and_mask)
  then have "y AND mask n = y"
    by (rule unsigned_word_eqI)
  then show False
    using y(2,3) by (metis bit_and_iff bit_mask_iff)
qed

subsection \<open>Rotations\<close>

lemma int_and_mod: "(n :: int) AND (2 ^ k - 1) = n mod 2 ^ k"
  using take_bit_eq_mask [of k n] by (simp add: take_bit_eq_mod mask_eq_exp_minus_1)

lemma bit_rotate:
  assumes "LENGTH('a) = 2 ^ k" "i < LENGTH('a)"
  shows "bit (fd_T_rotate_left (x :: 'a :: len word) n) i \<longleftrightarrow> bit x (nat ((int i - n) mod int LENGTH('a)))"
    "bit (fd_T_rotate_right x n) i \<longleftrightarrow> bit x (nat ((int i + n) mod int LENGTH('a)))"
proof -
  let ?w = "int LENGTH('a)"
  define r where "r = n mod ?w"
  have w: "n AND (?w - 1) = r" "(- n) AND (?w - 1) = (- n) mod ?w"
    using int_and_mod [of n k] int_and_mod [of "- n" k] assms(1) by (simp_all add: r_def)
  have r: "0 \<le> r" "r < ?w" "(- n) mod ?w = (if r = 0 then 0 else ?w - r)"
    by (simp_all add: r_def zmod_zminus1_eq_if)
  have "(int i - n) mod ?w = (int i - r) mod ?w" "(int i + n) mod ?w = (int i + r) mod ?w"
    by (simp_all add: r_def mod_diff_right_eq mod_add_right_eq)
  then have m: "(int i - n) mod ?w = (if r \<le> int i then int i - r else int i - r + ?w)"
      "(int i + n) mod ?w = (if int i + r < ?w then int i + r else int i + r - ?w)"
    using r assms(2) mod_pos_pos_trivial [of "int i - r + ?w" ?w] mod_pos_pos_trivial [of "int i + r - ?w" ?w]
    by simp_all
  define s where "s = nat r"
  have s: "r = int s" "s < LENGTH('a)"
    using r(1,2) by (simp_all add: s_def)
  have e: "nat (?w - int s) = LENGTH('a) - s" "nat (int i - int s) = i - s" "nat (int i - int s + ?w) = LENGTH('a) + i - s"
      "nat (int i + int s) = i + s" "nat (int i + int s - ?w) = i + s - LENGTH('a)"
    by (simp_all only: of_nat_add [symmetric] nat_minus_as_int)
  have out: "\<not> bit x j" if "LENGTH('a) \<le> j" for j
    using bit_imp_le_length [of x j] that by auto
  show "bit (fd_T_rotate_left x n) i \<longleftrightarrow> bit x (nat ((int i - n) mod ?w))"
    unfolding fd_T_rotate_left_def w m(1) r(3) s(1) using s(2) assms(2) out [of "LENGTH('a) + i - s"]
    by (cases "s = 0"; cases "s \<le> i") (simp_all add: e bit_simps)
  show "bit (fd_T_rotate_right x n) i \<longleftrightarrow> bit x (nat ((int i + n) mod ?w))"
    unfolding fd_T_rotate_right_def w m(2) r(3) s(1) using s(2) assms(2) out [of "s + i"]
    by (cases "s = 0"; cases "i + s < LENGTH('a)") (auto simp: e bit_simps ac_simps)
qed

lemma rotate_left_rotl:
  fixes x :: "'a :: len word"
  assumes "LENGTH('a) = 2 ^ k"
  shows "fd_T_rotate_left x (int m) = word_rotl m x"
proof (rule bit_word_eqI)
  fix i
  assume i: "i < LENGTH('a)"
  define s where "s = m mod LENGTH('a)"
  have "s < LENGTH('a)"
    by (simp add: s_def)
  then have "int i - int s + int LENGTH('a) = int (i + (LENGTH('a) - s))"
    by simp
  moreover have "(int i - int m) mod int LENGTH('a) = (int i - int s + int LENGTH('a)) mod int LENGTH('a)"
    by (simp add: s_def zmod_int mod_diff_right_eq)
  ultimately have "nat ((int i - int m) mod int LENGTH('a)) = (i + (LENGTH('a) - s)) mod LENGTH('a)"
    by (simp only: zmod_int [symmetric] nat_int)
  then show "bit (fd_T_rotate_left x (int m)) i = bit (word_rotl m x) i"
    using i by (simp add: bit_rotate(1) [OF assms i] bit_word_rotl_iff s_def ac_simps)
qed

text \<open>
  C29. At any power-of-two width, extracting an inserted bit field gives the field and inserting an
  extracted one gives the word back; insert, set, clear and flip change exactly the bits of the
  range; rotations of any signed amount undo each other and are the rotations of the word library.
\<close>

theorem fd_T_fields_and_rotations:
  fixes x y :: "'a :: len word"
  assumes "l \<le> h" "h < LENGTH('a)" "LENGTH('a) = 2 ^ k" "unat y < 2 ^ (h - l + 1)"
  shows "fd_T_extract (fd_T_insert x l h y) l h = y \<and> fd_T_insert x l h (fd_T_extract x l h) = x \<and>
    (\<forall>i. bit (fd_T_insert x l h y) i = (if l \<le> i \<and> i \<le> h then bit y (i - l) else bit x i)) \<and>
    (\<forall>i. bit (fd_T_set x l h) i = (bit x i \<or> l \<le> i \<and> i \<le> h)) \<and>
    (\<forall>i. bit (fd_T_clear x l h) i = (bit x i \<and> \<not> (l \<le> i \<and> i \<le> h))) \<and>
    (\<forall>i. bit (fd_T_flip x l h) i = (bit x i \<noteq> (l \<le> i \<and> i \<le> h))) \<and>
    fd_T_rotate_right (fd_T_rotate_left x n) n = x \<and> fd_T_rotate_left x (- n) = fd_T_rotate_right x n \<and>
    fd_T_rotate_left x (int m) = word_rotl m x"
proof (intro conjI allI)
  note R = assms(1-3)
  have y: "l + i \<le> h" if "bit y i" for i
    using bit_less_pow2 [OF assms(4) that] assms(1) by simp
  show "bit (fd_T_insert x l h y) i = (if l \<le> i \<and> i \<le> h then bit y (i - l) else bit x i)" for i
    using bit_insert [OF R y] .
  show "fd_T_extract (fd_T_insert x l h y) l h = y"
    using y by (intro bit_word_eqI) (auto simp: bit_extract [OF R] bit_insert [OF R y])
  have z: "l + i \<le> h" if "bit (fd_T_extract x l h) i" for i
    using that bit_extract [OF R, of x i] by simp
  have "bit (fd_T_insert x l h (fd_T_extract x l h)) i = (if l \<le> i \<and> i \<le> h then bit (fd_T_extract x l h) (i - l) else bit x i)" for i
    by (rule bit_insert [OF R]) (rule z)
  then show "fd_T_insert x l h (fd_T_extract x l h) = x"
    by (intro bit_word_eqI) (simp add: bit_extract [OF R])
  show "bit (fd_T_set x l h) i = (bit x i \<or> l \<le> i \<and> i \<le> h)" "bit (fd_T_flip x l h) i = (bit x i \<noteq> (l \<le> i \<and> i \<le> h))" for i
    by (simp_all add: fd_T_set_def fd_T_flip_def bit_simps bit_mask_range [OF R])
  show "bit (fd_T_clear x l h) i = (bit x i \<and> \<not> (l \<le> i \<and> i \<le> h))" for i
    using bit_imp_le_length [of x i] by (auto simp: fd_T_clear_def bit_simps bit_mask_range [OF R])
  show "fd_T_rotate_right (fd_T_rotate_left x n) n = x"
    by (intro bit_word_eqI) (simp add: bit_rotate [OF assms(3)] mod_diff_left_eq nat_less_iff)
  show "fd_T_rotate_left x (- n) = fd_T_rotate_right x n"
    by (simp add: fd_T_rotate_left_def fd_T_rotate_right_def or.commute)
  show "fd_T_rotate_left x (int m) = word_rotl m x"
    by (rule rotate_left_rotl [OF assms(3)])
qed

theorem fd_T_fields_and_rotations_witness:
  "fd_T_extract (fd_T_insert (0xff00 :: u16) 4 11 0xab) 4 11 = 0xab \<and> fd_T_rotate_right (fd_T_rotate_left (0xff00 :: u16) 5) 5 = 0xff00"
proof -
  have "LENGTH(16) = 2 ^ 4" "unat (0xab :: u16) < 2 ^ (11 - 4 + 1)"
    by simp_all
  then show ?thesis
    using fd_T_fields_and_rotations [of 4 11 4 "0xab :: u16" "0xff00" 5 0] by simp
qed

end
