(* ===== verification/Bits_Pow2.thy ===== *)
theory Bits_Pow2
  imports Bits
begin

text \<open>Rounding to powers of two by smearing the highest set bit downwards.\<close>

definition fd_uchar_pow2_up :: "u8 \<Rightarrow> u8" where
  "fd_uchar_pow2_up x0 =
     (let x = ucast x0 :: u32; x = x - 1; x = x OR drop_bit 1 x; x = x OR drop_bit 2 x; x = x OR drop_bit 4 x; x = x + 1
      in ucast x)"

definition fd_uchar_pow2_dn :: "u8 \<Rightarrow> u8" where
  "fd_uchar_pow2_dn x0 =
     (let x = ucast x0 :: u32; x = drop_bit 1 x; x = x OR drop_bit 1 x; x = x OR drop_bit 2 x; x = x OR drop_bit 4 x; x = x + 1
      in ucast x)"

definition fd_ushort_pow2_up :: "u16 \<Rightarrow> u16" where
  "fd_ushort_pow2_up x0 =
     (let x = ucast x0 :: u32; x = x - 1; x = x OR drop_bit 1 x; x = x OR drop_bit 2 x; x = x OR drop_bit 4 x;
          x = x OR drop_bit 8 x; x = x + 1
      in ucast x)"

definition fd_ushort_pow2_dn :: "u16 \<Rightarrow> u16" where
  "fd_ushort_pow2_dn x0 =
     (let x = ucast x0 :: u32; x = drop_bit 1 x; x = x OR drop_bit 1 x; x = x OR drop_bit 2 x; x = x OR drop_bit 4 x;
          x = x OR drop_bit 8 x; x = x + 1
      in ucast x)"

definition fd_uint_pow2_up :: "u32 \<Rightarrow> u32" where
  "fd_uint_pow2_up x =
     (let x = x - 1; x = x OR drop_bit 1 x; x = x OR drop_bit 2 x; x = x OR drop_bit 4 x; x = x OR drop_bit 8 x;
          x = x OR drop_bit 16 x
      in x + 1)"

definition fd_uint_pow2_dn :: "u32 \<Rightarrow> u32" where
  "fd_uint_pow2_dn x =
     (let x = drop_bit 1 x; x = x OR drop_bit 1 x; x = x OR drop_bit 2 x; x = x OR drop_bit 4 x; x = x OR drop_bit 8 x;
          x = x OR drop_bit 16 x
      in x + 1)"

definition fd_ulong_pow2_up :: "u64 \<Rightarrow> u64" where
  "fd_ulong_pow2_up x =
     (let x = x - 1; x = x OR drop_bit 1 x; x = x OR drop_bit 2 x; x = x OR drop_bit 4 x; x = x OR drop_bit 8 x;
          x = x OR drop_bit 16 x; x = x OR drop_bit 32 x
      in x + 1)"

definition fd_ulong_pow2_dn :: "u64 \<Rightarrow> u64" where
  "fd_ulong_pow2_dn x =
     (let x = drop_bit 1 x; x = x OR drop_bit 1 x; x = x OR drop_bit 2 x; x = x OR drop_bit 4 x; x = x OR drop_bit 8 x;
          x = x OR drop_bit 16 x; x = x OR drop_bit 32 x
      in x + 1)"

definition fd_uint128_pow2_up :: "128 word \<Rightarrow> 128 word" where
  "fd_uint128_pow2_up x =
     (let x = x - 1; x = x OR drop_bit 1 x; x = x OR drop_bit 2 x; x = x OR drop_bit 4 x; x = x OR drop_bit 8 x;
          x = x OR drop_bit 16 x; x = x OR drop_bit 32 x; x = x OR drop_bit 64 x
      in x + 1)"

definition fd_uint128_pow2_dn :: "128 word \<Rightarrow> 128 word" where
  "fd_uint128_pow2_dn x =
     (let x = drop_bit 1 x; x = x OR drop_bit 1 x; x = x OR drop_bit 2 x; x = x OR drop_bit 4 x; x = x OR drop_bit 8 x;
          x = x OR drop_bit 16 x; x = x OR drop_bit 32 x; x = x OR drop_bit 64 x
      in x + 1)"

subsection \<open>Smearing\<close>

text \<open>\<open>y\<close> has bit \<open>i\<close> set when \<open>x\<close> has one of the \<open>k\<close> bits from \<open>i\<close> up set.\<close>

definition smeared :: "nat \<Rightarrow> 'a :: len word \<Rightarrow> 'a word \<Rightarrow> bool" where
  "smeared k x y \<longleftrightarrow> (\<forall>i. bit y i \<longleftrightarrow> (\<exists>j \<in> {i..<i + k}. bit x j))"

lemma smeared_1: "smeared 1 x x"
  by (auto simp: smeared_def le_less_Suc_eq)

lemma smeared_step: "smeared k x y \<Longrightarrow> smeared (2 * k) x (y OR drop_bit k y)"
proof -
  assume y: "smeared k x y"
  have "{i..<i + 2 * k} = {i..<i + k} \<union> {k + i..<k + i + k}" for i
    by auto
  then show ?thesis
    using y by (simp add: smeared_def bit_simps bex_Un)
qed

lemma word_msb_exists: "(x :: 'a :: len word) \<noteq> 0 \<Longrightarrow> \<exists>m. bit x m \<and> (\<forall>j > m. \<not> bit x j)"
proof -
  assume "x \<noteq> 0"
  then have "{i. bit x i} \<noteq> {}"
    using bit_word_eqI [of x 0] by auto
  moreover have fin: "finite {i. bit x i}"
    by (rule finite_subset [of _ "{..<LENGTH('a)}"]) (auto dest: bit_imp_le_length)
  ultimately have "bit x (Max {i. bit x i})"
    using Max_in [of "{i. bit x i}"] by blast
  moreover have "\<not> bit x j" if "j > Max {i. bit x i}" for j
    using Max_ge [OF fin, of j] that by (metis leD mem_Collect_eq)
  ultimately show ?thesis
    by blast
qed

lemma msb_bounds:
  assumes "bit (x :: 'a :: len word) m" "\<forall>j > m. \<not> bit x j"
  shows "2 ^ m \<le> unat x" "unat x < 2 * 2 ^ m" "m < LENGTH('a)"
proof -
  show m: "m < LENGTH('a)"
    using bit_imp_le_length [OF assms(1)] .
  have "x = x AND mask (Suc m)"
    using assms(2) by (intro bit_word_eqI) (auto simp: bit_simps less_Suc_eq_le not_less)
  then have "unat x = unat x mod 2 ^ Suc m"
    by (metis unat_and_mask)
  moreover have "unat x mod 2 ^ Suc m < 2 ^ Suc m"
    by (rule mod_less_divisor) simp
  ultimately have "unat x < 2 ^ Suc m"
    by (simp only:)
  then show "unat x < 2 * 2 ^ m"
    by simp
  have "bit (x AND NOT (mask m)) m"
    using assms(1) m by (simp add: bit_simps)
  then have "x AND NOT (mask m) \<noteq> 0"
    by (metis bit_0_eq bot_apply bot_bool_def)
  then have "unat x div 2 ^ m * 2 ^ m \<noteq> 0"
    by (metis unat_and_not_mask unat_zero_iff)
  then show "2 ^ m \<le> unat x"
    by (metis div_eq_0_iff linorder_not_less mult_is_0)
qed

lemma smeared_full:
  assumes y: "smeared k (x :: 'a :: len word) y" and m: "bit x m" "\<forall>j > m. \<not> bit x j" "m < k"
  shows "y = mask (Suc m)"
proof (rule bit_word_eqI)
  fix i
  assume "i < LENGTH('a)"
  have "j \<le> m" if "bit x j" for j
    using m(2) that by (meson leI)
  then have "(\<exists>j \<in> {i..<i + k}. bit x j) \<longleftrightarrow> i \<le> m"
    using m(1,3) by fastforce
  then show "bit y i \<longleftrightarrow> bit (mask (Suc m) :: 'a word) i"
    using y \<open>i < LENGTH('a)\<close> by (simp add: smeared_def bit_simps less_Suc_eq_le)
qed

lemma smeared_zero: "smeared k 0 y \<Longrightarrow> y = 0"
  by (intro bit_word_eqI) (simp add: smeared_def)

subsection \<open>Rounding\<close>

text \<open>The smallest power of two that is at least \<open>x\<close>, modulo the type's range, and the largest that is at most \<open>x\<close>.\<close>

definition rounds_up :: "'a :: len word \<Rightarrow> 'a word \<Rightarrow> bool" where
  "rounds_up x r \<longleftrightarrow>
     (if x = 0 \<or> 2 ^ (LENGTH('a) - 1) < unat x then r = 0 else \<exists>n. unat r = 2 ^ n \<and> unat x \<le> 2 ^ n \<and> 2 ^ n < 2 * unat x)"

definition rounds_dn :: "'a :: len word \<Rightarrow> 'a word \<Rightarrow> bool" where
  "rounds_dn x r \<longleftrightarrow> (if x = 0 then r = 1 else \<exists>n. unat r = 2 ^ n \<and> 2 ^ n \<le> unat x \<and> unat x < 2 * 2 ^ n)"

lemma smeared_up:
  assumes "smeared k (x - 1 :: 'a :: len word) y" "LENGTH('a) \<le> k"
  shows "rounds_up x (y + 1)"
proof (cases "x - 1 = 0")
  case True
  then have "x = 1" "y = 0"
    using smeared_zero assms(1) by (simp_all add: diff_eq_eq)
  then show ?thesis
    by (auto simp: rounds_up_def intro: exI [of _ 0])
next
  case False
  obtain m where m: "bit (x - 1) m" "\<forall>j > m. \<not> bit (x - 1) j"
    using word_msb_exists [OF False] by blast
  note B = msb_bounds [OF m]
  have y: "y + 1 = 2 ^ Suc m"
    using smeared_full [OF assms(1) m] B(3) assms(2) by (simp add: pow2_minus_1 [symmetric] del: power_Suc)
  show ?thesis
  proof (cases "Suc m < LENGTH('a)")
    case True
    have "x \<noteq> 0"
    proof
      assume "x = 0"
      then have "bit (x - 1) (LENGTH('a) - 1)"
        by simp
      then show False
        using m(2) True by (metis Suc_lessE diff_Suc_1 lessI less_antisym)
    qed
    then have x: "unat (x - 1) = unat x - 1" "0 < unat x"
      using unat_minus_one [of x] by (simp_all add: unat_gt_0)
    have "(2 :: nat) ^ Suc m \<le> 2 ^ (LENGTH('a) - 1)"
      using True by (intro power_increasing) simp_all
    then show ?thesis
      using B(1,2) x \<open>x \<noteq> 0\<close> y unat_pow2 [OF True] by (auto simp: rounds_up_def intro!: exI [of _ "Suc m"])
  next
    case False
    then have L: "LENGTH('a) = Suc m"
      using B(3) by simp
    have "y + 1 = 0"
      unfolding y L [symmetric] by (rule word_exp_length_eq_0)
    moreover have "x = 0 \<or> 2 ^ (LENGTH('a) - 1) < unat x"
    proof (cases "x = 0")
      case False
      then have "unat (x - 1) = unat x - 1" "0 < unat x"
        using unat_minus_one [of x] by (simp_all add: unat_gt_0)
      then show ?thesis
        using B(1) L by simp linarith
    qed simp
    ultimately show ?thesis
      by (simp add: rounds_up_def)
  qed
qed

lemma smeared_dn:
  assumes "smeared k (drop_bit 1 x :: 'a :: len word) y" "LENGTH('a) \<le> k"
  shows "rounds_dn x (y + 1)"
proof (cases "x = 0")
  case True
  then show ?thesis
    using smeared_zero assms(1) by (simp add: rounds_dn_def)
next
  case False
  obtain m where m: "bit x m" "\<forall>j > m. \<not> bit x j"
    using word_msb_exists [OF False] by blast
  note B = msb_bounds [OF m]
  have "y + 1 = 2 ^ m"
  proof (cases m)
    case 0
    then have "drop_bit 1 x = 0"
      using m(2) by (intro bit_word_eqI) (simp add: bit_simps)
    then show ?thesis
      using smeared_zero assms(1) 0 by simp
  next
    case (Suc l)
    then have l: "bit (drop_bit 1 x) l" "\<forall>j > l. \<not> bit (drop_bit 1 x) j"
      using m by (simp_all add: bit_simps)
    show ?thesis
      using smeared_full [OF assms(1) l] B(3) assms(2) Suc by (simp add: pow2_minus_1 [symmetric] del: power_Suc)
  qed
  then show ?thesis
    using False B unat_pow2 [OF B(3)] by (auto simp: rounds_dn_def intro!: exI [of _ m])
qed

text \<open>The steps of the smearing, and their widening from a narrow type.\<close>

lemma smear_steps:
  fixes x :: "'a :: len word"
  defines "s2 \<equiv> x OR drop_bit 1 x"
  defines "s4 \<equiv> s2 OR drop_bit 2 s2"
  defines "s8 \<equiv> s4 OR drop_bit 4 s4"
  defines "s16 \<equiv> s8 OR drop_bit 8 s8"
  defines "s32 \<equiv> s16 OR drop_bit 16 s16"
  defines "s64 \<equiv> s32 OR drop_bit 32 s32"
  shows "smeared 8 x s8" "smeared 16 x s16" "smeared 32 x s32" "smeared 64 x s64" "smeared 128 x (s64 OR drop_bit 64 s64)"
proof -
  have 2: "smeared 2 x s2"
    using smeared_step [OF smeared_1 [of x]] by (simp add: s2_def)
  have 4: "smeared 4 x s4"
    using smeared_step [OF 2] by (simp add: s4_def)
  show 8: "smeared 8 x s8"
    using smeared_step [OF 4] by (simp add: s8_def)
  show 16: "smeared 16 x s16"
    using smeared_step [OF 8] by (simp add: s16_def)
  show 32: "smeared 32 x s32"
    using smeared_step [OF 16] by (simp add: s32_def)
  show 64: "smeared 64 x s64"
    using smeared_step [OF 32] by (simp add: s64_def)
  show "smeared 128 x (s64 OR drop_bit 64 s64)"
    using smeared_step [OF 64] by simp
qed

lemma ucast_smear:
  fixes y :: "'a :: len word"
  assumes "LENGTH('a) \<le> LENGTH('b)"
  shows "ucast y OR drop_bit k (ucast y) = (ucast (y OR drop_bit k y) :: 'b :: len word)"
  using assms by (intro bit_word_eqI) (auto simp: bit_simps dest: bit_imp_le_length)

lemma unat_ucast_widen:
  assumes "LENGTH('a) \<le> LENGTH('b)"
  shows "unat (ucast (y :: 'a :: len word) :: 'b :: len word) = unat y"
proof -
  have "unat y < 2 ^ LENGTH('b)"
    by (rule less_le_trans [OF unsigned_less power_increasing [OF assms]]) simp
  then show ?thesis
    by (simp add: unsigned_ucast_eq take_bit_eq_mod)
qed

lemma ucast_minus_one:
  assumes "x \<noteq> 0" "LENGTH('a) \<le> LENGTH('b)"
  shows "ucast (x :: 'a :: len word) - 1 = (ucast (x - 1) :: 'b :: len word)"
proof (rule unsigned_word_eqI)
  have nz: "(ucast x :: 'b word) \<noteq> 0"
    using assms(1) unat_ucast_widen [OF assms(2), of x] by (metis unat_zero_iff)
  show "unat (ucast x - 1 :: 'b word) = unat (ucast (x - 1) :: 'b word)"
    unfolding unat_minus_one [OF nz] unat_ucast_widen [OF assms(2)] unat_minus_one [OF assms(1)] ..
qed

lemma ucast_plus_one:
  assumes "LENGTH('a) \<le> LENGTH('b)"
  shows "ucast (ucast (y :: 'a :: len word) + 1 :: 'b :: len word) = y + 1"
proof (rule unsigned_word_eqI)
  have "(2 :: nat) ^ LENGTH('a) dvd 2 ^ LENGTH('b)"
    using assms by (rule le_imp_power_dvd)
  moreover have "unat (ucast z :: 'a word) = unat z mod 2 ^ LENGTH('a)" for z :: "'b word"
    by (simp add: unsigned_ucast_eq take_bit_eq_mod)
  ultimately show "unat (ucast (ucast y + 1 :: 'b word) :: 'a word) = unat (y + 1)"
    by (simp only: unat_word_ariths(1) unat_ucast_widen [OF assms] mod_mod_cancel) simp
qed

lemma pow2_narrow:
  "x \<noteq> 0 \<Longrightarrow> fd_uchar_pow2_up x = (let x = x - 1; x = x OR drop_bit 1 x; x = x OR drop_bit 2 x; x = x OR drop_bit 4 x in x + 1)"
  "y \<noteq> 0 \<Longrightarrow> fd_ushort_pow2_up y = (let x = y - 1; x = x OR drop_bit 1 x; x = x OR drop_bit 2 x; x = x OR drop_bit 4 x; x = x OR drop_bit 8 x in x + 1)"
  "fd_uchar_pow2_dn x = (let x = drop_bit 1 x; x = x OR drop_bit 1 x; x = x OR drop_bit 2 x; x = x OR drop_bit 4 x in x + 1)"
  "fd_ushort_pow2_dn y = (let x = drop_bit 1 y; x = x OR drop_bit 1 x; x = x OR drop_bit 2 x; x = x OR drop_bit 4 x; x = x OR drop_bit 8 x in x + 1)"
proof -
  have le: "LENGTH(8) \<le> LENGTH(32)" "LENGTH(16) \<le> LENGTH(32)"
    by simp_all
  have drop: "drop_bit 1 (ucast z :: u32) = ucast (drop_bit 1 z)" if "LENGTH('a) \<le> LENGTH(32)" for z :: "'a :: len word"
    using that by (intro bit_word_eqI) (auto simp: bit_simps dest: bit_imp_le_length)
  note R = ucast_smear [OF le(1)] ucast_smear [OF le(2)] ucast_plus_one [OF le(1)] ucast_plus_one [OF le(2)]
  show "x \<noteq> 0 \<Longrightarrow> fd_uchar_pow2_up x = (let x = x - 1; x = x OR drop_bit 1 x; x = x OR drop_bit 2 x; x = x OR drop_bit 4 x in x + 1)"
    by (simp only: fd_uchar_pow2_up_def Let_def ucast_minus_one [OF _ le(1)] R not_False_eq_True)
  show "y \<noteq> 0 \<Longrightarrow> fd_ushort_pow2_up y = (let x = y - 1; x = x OR drop_bit 1 x; x = x OR drop_bit 2 x; x = x OR drop_bit 4 x; x = x OR drop_bit 8 x in x + 1)"
    by (simp only: fd_ushort_pow2_up_def Let_def ucast_minus_one [OF _ le(2)] R not_False_eq_True)
  show "fd_uchar_pow2_dn x = (let x = drop_bit 1 x; x = x OR drop_bit 1 x; x = x OR drop_bit 2 x; x = x OR drop_bit 4 x in x + 1)"
    by (simp only: fd_uchar_pow2_dn_def Let_def drop [OF le(1), of x] R)
  show "fd_ushort_pow2_dn y = (let x = drop_bit 1 y; x = x OR drop_bit 1 x; x = x OR drop_bit 2 x; x = x OR drop_bit 4 x; x = x OR drop_bit 8 x in x + 1)"
    by (simp only: fd_ushort_pow2_dn_def Let_def drop [OF le(2), of y] R)
qed

text \<open>
  C30. For 8, 16, 32, 64 and 128 bits, pow2_up gives the least power of two not below a nonzero
  argument, or zero when that power does not fit the width, and pow2_dn gives the greatest power of
  two not above a nonzero argument; on zero they give zero and one.
\<close>

theorem fd_pow2_rounding:
  "rounds_up x8 (fd_uchar_pow2_up x8) \<and> rounds_dn x8 (fd_uchar_pow2_dn x8) \<and>
   rounds_up x16 (fd_ushort_pow2_up x16) \<and> rounds_dn x16 (fd_ushort_pow2_dn x16) \<and>
   rounds_up x32 (fd_uint_pow2_up x32) \<and> rounds_dn x32 (fd_uint_pow2_dn x32) \<and>
   rounds_up x64 (fd_ulong_pow2_up x64) \<and> rounds_dn x64 (fd_ulong_pow2_dn x64) \<and>
   rounds_up x128 (fd_uint128_pow2_up x128) \<and> rounds_dn x128 (fd_uint128_pow2_dn x128)"
proof (intro conjI)
  have z: "rounds_up 0 (fd_uchar_pow2_up 0)" "rounds_up 0 (fd_ushort_pow2_up 0)"
    by (simp_all add: fd_uchar_pow2_up_def fd_ushort_pow2_up_def Let_def rounds_up_def)
  have up8: "LENGTH(8) \<le> 8" "LENGTH(16) \<le> 16" "LENGTH(32) \<le> 32" "LENGTH(64) \<le> 64" "LENGTH(128) \<le> 128"
    by simp_all
  show "rounds_up x8 (fd_uchar_pow2_up x8)"
    using smeared_up [OF smear_steps(1) up8(1)] z(1) pow2_narrow(1) [of x8, unfolded Let_def] by (cases "x8 = 0") (simp_all only: not_False_eq_True simp_thms)
  show "rounds_up x16 (fd_ushort_pow2_up x16)"
    using smeared_up [OF smear_steps(2) up8(2)] z(2) pow2_narrow(2) [of x16, unfolded Let_def] by (cases "x16 = 0") (simp_all only: not_False_eq_True simp_thms)
  show "rounds_dn x8 (fd_uchar_pow2_dn x8)" "rounds_dn x16 (fd_ushort_pow2_dn x16)"
    unfolding pow2_narrow(3,4) Let_def by (rule smeared_dn [OF smear_steps(1) up8(1)] smeared_dn [OF smear_steps(2) up8(2)])+
  show "rounds_up x32 (fd_uint_pow2_up x32)" "rounds_dn x32 (fd_uint_pow2_dn x32)"
    unfolding fd_uint_pow2_up_def fd_uint_pow2_dn_def Let_def
    by (rule smeared_up [OF smear_steps(3) up8(3)] smeared_dn [OF smear_steps(3) up8(3)])+
  show "rounds_up x64 (fd_ulong_pow2_up x64)" "rounds_dn x64 (fd_ulong_pow2_dn x64)"
    unfolding fd_ulong_pow2_up_def fd_ulong_pow2_dn_def Let_def
    by (rule smeared_up [OF smear_steps(4) up8(4)] smeared_dn [OF smear_steps(4) up8(4)])+
  show "rounds_up x128 (fd_uint128_pow2_up x128)" "rounds_dn x128 (fd_uint128_pow2_dn x128)"
    unfolding fd_uint128_pow2_up_def fd_uint128_pow2_dn_def Let_def
    by (rule smeared_up [OF smear_steps(5) up8(5)] smeared_dn [OF smear_steps(5) up8(5)])+
qed

end
