(* ===== verification/Ghost.thy ===== *)
theory Ghost
  imports Bits_Pow2
begin

text \<open>
  The fork choice \<open>src/src/choreo/ghost/fd_ghost.c\<close>.  A ghost is a left-child right-sibling tree of
  blocks in a pool, a map from block ids to pool indices, and per voter the block of its latest vote,
  parked on a list of that block.  Pool indices are natural numbers, the null index is \<open>None\<close>.  The pool
  is the partial map from the allocated indices to their blocks together with the stack of free ones,
  and the hash map is the map from keys to indices, as the development of the templates shows they
  behave; the link field \<open>next\<close> of a block that is in neither belongs to the ghost code and is part of
  the block here.  A failed \<open>FD_TEST\<close> or an \<open>FD_LOG_CRIT\<close> ends the process and is \<open>Err\<close> with its source
  line; access to a block that is not allocated is \<open>Ub\<close>.
\<close>

subsection \<open>State\<close>

record fd_ghost_blk =
  blk_id :: bytes
  blk_slot :: nat
  blk_next :: "nat option"
  blk_parent :: "nat option"
  blk_child :: "nat option"
  blk_sibling :: "nat option"
  blk_stake :: nat
  blk_total_stake :: nat
  blk_valid :: bool
  blk_bank_seq :: nat

record fd_ghost_vtr =
  vtr_addr :: bytes
  vtr_prev_stake :: nat
  vtr_prev_slot :: nat
  vtr_prev_block_id :: bytes

record fd_ghost =
  ghost_root :: "nat option"
  ghost_width :: nat
  blk_pool_max :: nat
  blk_pool :: "nat \<rightharpoonup> fd_ghost_blk"
  blk_free :: "nat list"
  blk_map :: "bytes \<rightharpoonup> nat"
  vtr_pool :: "nat \<rightharpoonup> fd_ghost_vtr"
  vtr_free :: "nat list"
  vtr_map :: "bytes \<rightharpoonup> nat"
  blk_vtr_dlist :: "nat \<Rightarrow> nat list"

definition FD_GHOST_SUCCESS :: int where "FD_GHOST_SUCCESS = 0"
definition FD_GHOST_ERR_NOT_VOTED :: int where "FD_GHOST_ERR_NOT_VOTED = - 1"
definition FD_GHOST_ERR_VOTE_TOO_OLD :: int where "FD_GHOST_ERR_VOTE_TOO_OLD = - 2"
definition FD_GHOST_ERR_ALREADY_VOTED :: int where "FD_GHOST_ERR_ALREADY_VOTED = - 3"

text \<open>
  A formatted ghost with \<open>blk_max\<close> block slots and \<open>vtr_max\<close> voter slots.  \<open>fd_ghost_new\<close> rounds both sizes
  up to powers of two and doubles the second; the checks of its memory region are left out.
\<close>

definition ghost_format :: "nat \<Rightarrow> nat \<Rightarrow> fd_ghost" where
  "ghost_format blk_max vtr_max =
     \<lparr>ghost_root = None, ghost_width = 0, blk_pool_max = blk_max, blk_pool = (\<lambda>i. None), blk_free = [0..<blk_max],
      blk_map = (\<lambda>k. None), vtr_pool = (\<lambda>i. None), vtr_free = [0..<vtr_max], vtr_map = (\<lambda>k. None),
      blk_vtr_dlist = (\<lambda>i. [])\<rparr>"

definition fd_ghost_new :: "u64 \<Rightarrow> u64 \<Rightarrow> fd_ghost" where
  "fd_ghost_new blk_max vtr_max =
     (let blk_max = fd_ulong_pow2_up blk_max; vtr_max = fd_ulong_pow2_up vtr_max * 2 in ghost_format (unat blk_max) (unat vtr_max))"

text \<open>Dereferencing a block, and the accesses the templates provide.\<close>

definition blk_at :: "fd_ghost \<Rightarrow> nat \<Rightarrow> fd_ghost_blk res" where
  "blk_at g i = (case blk_pool g i of None \<Rightarrow> Ub | Some b \<Rightarrow> Ok b)"

definition blk_upd :: "nat \<Rightarrow> (fd_ghost_blk \<Rightarrow> fd_ghost_blk) \<Rightarrow> fd_ghost \<Rightarrow> fd_ghost res" where
  "blk_upd i f g = rbind (blk_at g i) (\<lambda>b. Ok (g\<lparr>blk_pool := (blk_pool g)(i \<mapsto> f b)\<rparr>))"

definition blk_map_remove :: "bytes \<Rightarrow> fd_ghost \<Rightarrow> nat option \<times> fd_ghost" where
  "blk_map_remove k g = (blk_map g k, g\<lparr>blk_map := (blk_map g)(k := None)\<rparr>)"

definition blk_release :: "nat \<Rightarrow> fd_ghost \<Rightarrow> fd_ghost" where
  "blk_release i g = g\<lparr>blk_pool := (blk_pool g)(i := None), blk_free := i # blk_free g\<rparr>"

subsection \<open>Accessors\<close>

definition fd_ghost_root :: "fd_ghost \<Rightarrow> nat option" where
  "fd_ghost_root g = ghost_root g"

definition fd_ghost_parent :: "fd_ghost \<Rightarrow> nat \<Rightarrow> nat option res" where
  "fd_ghost_parent g blk = rbind (blk_at g blk) (\<lambda>b. Ok (blk_parent b))"

definition fd_ghost_query :: "fd_ghost \<Rightarrow> bytes \<Rightarrow> nat option" where
  "fd_ghost_query g block_id = blk_map g block_id"

definition fd_ghost_width :: "fd_ghost \<Rightarrow> nat" where
  "fd_ghost_width g = ghost_width g"

text \<open>
  Every loop below visits blocks of the pool without repetition, so one more step than the pool has
  slots is always enough; \<open>fuel\<close> counts the steps.
\<close>

fun best_child_loop :: "nat \<Rightarrow> fd_ghost \<Rightarrow> nat option \<Rightarrow> nat \<Rightarrow> bool \<Rightarrow> (nat \<times> bool) res" where
  "best_child_loop 0 g child best valid = Ub"
| "best_child_loop (Suc fuel) g child best valid =
     (case child of
        None \<Rightarrow> Ok (best, valid)
      | Some c \<Rightarrow>
          rbind (blk_at g c) (\<lambda>cb.
          if blk_valid cb then
            (let best = (if \<not> valid then c else best); valid = True in
             rbind (blk_at g best) (\<lambda>bb.
             let best = (if (if blk_stake cb = blk_stake bb then blk_slot cb < blk_slot bb
                             else blk_stake cb > blk_stake bb) then c else best)
             in best_child_loop fuel g (blk_sibling cb) best valid))
          else best_child_loop fuel g (blk_sibling cb) best valid))"

fun fd_ghost_best_loop :: "nat \<Rightarrow> fd_ghost \<Rightarrow> nat \<Rightarrow> nat res" where
  "fd_ghost_best_loop 0 g best = Ub"
| "fd_ghost_best_loop (Suc fuel) g best =
     rbind (blk_at g best) (\<lambda>b.
     if blk_child b \<noteq> None then
       rbind (best_child_loop (blk_pool_max g + 1) g (blk_child b) best False) (\<lambda>(best, valid).
       if \<not> valid then Ok best else fd_ghost_best_loop fuel g best)
     else Ok best)"

definition fd_ghost_best :: "fd_ghost \<Rightarrow> nat \<Rightarrow> nat res" where
  "fd_ghost_best g root = fd_ghost_best_loop (blk_pool_max g + 1) g root"

fun deepest_children :: "nat \<Rightarrow> nat option \<Rightarrow> nat \<Rightarrow> fd_ghost \<Rightarrow> (nat \<times> fd_ghost) res" where
  "deepest_children 0 child tail g = Ub"
| "deepest_children (Suc fuel) child tail g =
     (case child of
        None \<Rightarrow> Ok (tail, g)
      | Some c \<Rightarrow>
          rbind (blk_at g c) (\<lambda>cb.
          let (removed, g) = blk_map_remove (blk_id cb) g in
          CHECK 335 (removed \<noteq> None) (
          rbind (blk_upd tail (\<lambda>b. b\<lparr>blk_next := Some c\<rparr>) g) (\<lambda>g.
          rbind (blk_upd c (\<lambda>b. b\<lparr>blk_next := None\<rparr>) g) (\<lambda>g.
          deepest_children fuel (blk_sibling cb) c g)))))"

fun deepest_loop :: "nat \<Rightarrow> nat option \<Rightarrow> nat \<Rightarrow> nat \<Rightarrow> fd_ghost \<Rightarrow> (nat \<times> fd_ghost) res" where
  "deepest_loop 0 head tail prev g = Ub"
| "deepest_loop (Suc fuel) head tail prev g =
     (case head of
        None \<Rightarrow> Ok (prev, g)
      | Some i \<Rightarrow>
          rbind (blk_at g i) (\<lambda>hb.
          rbind (deepest_children (blk_pool_max g + 1) (blk_child hb) tail g) (\<lambda>(tail, g).
          rbind (blk_at g i) (\<lambda>hb.
          deepest_loop fuel (blk_next hb) tail i (g\<lparr>blk_map := (blk_map g)(blk_id hb \<mapsto> i)\<rparr>)))))"

definition fd_ghost_deepest :: "fd_ghost \<Rightarrow> nat \<Rightarrow> (nat \<times> fd_ghost) res" where
  "fd_ghost_deepest g root =
     rbind (blk_at g root) (\<lambda>rb.
     let (head, g) = blk_map_remove (blk_id rb) g in
     case head of
       None \<Rightarrow> Ub
     | Some h \<Rightarrow>
         rbind (blk_upd h (\<lambda>b. b\<lparr>blk_next := None\<rparr>) g) (\<lambda>g.
         deepest_loop (blk_pool_max g + 1) (Some h) h h g))"

fun PREDICATE_ANCESTOR :: "nat \<Rightarrow> (fd_ghost_blk \<Rightarrow> bool) \<Rightarrow> fd_ghost \<Rightarrow> nat option \<Rightarrow> nat option res" where
  "PREDICATE_ANCESTOR 0 P g ancestor = Ub"
| "PREDICATE_ANCESTOR (Suc fuel) P g ancestor =
     (case ancestor of
        None \<Rightarrow> Ok None
      | Some a \<Rightarrow>
          rbind (blk_at g a) (\<lambda>ab.
          if P ab then Ok (Some a) else PREDICATE_ANCESTOR fuel P g (blk_parent ab)))"

definition fd_ghost_ancestor :: "fd_ghost \<Rightarrow> nat \<Rightarrow> bytes \<Rightarrow> nat option res" where
  "fd_ghost_ancestor g descendant ancestor_id =
     PREDICATE_ANCESTOR (blk_pool_max g + 1) (\<lambda>b. blk_id b = ancestor_id) g (Some descendant)"

definition fd_ghost_slot_ancestor :: "fd_ghost \<Rightarrow> nat \<Rightarrow> nat \<Rightarrow> nat option res" where
  "fd_ghost_slot_ancestor g descendant slot =
     PREDICATE_ANCESTOR (blk_pool_max g + 1) (\<lambda>b. blk_slot b = slot) g (Some descendant)"

definition fd_ghost_invalid_ancestor :: "fd_ghost \<Rightarrow> nat \<Rightarrow> nat option res" where
  "fd_ghost_invalid_ancestor g descendant =
     PREDICATE_ANCESTOR (blk_pool_max g + 1) (\<lambda>b. \<not> blk_valid b) g (Some descendant)"

subsection \<open>Operations\<close>

definition ghost_insert :: "nat \<Rightarrow> nat \<Rightarrow> bytes \<Rightarrow> fd_ghost \<Rightarrow> (nat \<times> fd_ghost) res" where
  "ghost_insert bank_seq slot block_id g =
     CHECK 387 (blk_map g block_id = None) (
     CHECK 388 (blk_free g \<noteq> []) (
     let blk = hd (blk_free g);
         b = \<lparr>blk_id = block_id, blk_slot = slot, blk_next = None, blk_parent = None, blk_child = None,
              blk_sibling = None, blk_stake = 0, blk_total_stake = 0, blk_valid = True, blk_bank_seq = bank_seq\<rparr>
     in Ok (blk, g\<lparr>blk_free := tl (blk_free g), blk_map := (blk_map g)(block_id \<mapsto> blk),
                   blk_pool := (blk_pool g)(blk \<mapsto> b)\<rparr>)))"

definition fd_ghost_init :: "nat \<Rightarrow> nat \<Rightarrow> bytes \<Rightarrow> fd_ghost \<Rightarrow> (nat \<times> fd_ghost) res" where
  "fd_ghost_init bank_seq slot block_id g =
     rbind (ghost_insert bank_seq slot block_id g) (\<lambda>(blk, g).
     Ok (blk, g\<lparr>ghost_root := Some blk, ghost_width := 1\<rparr>))"

fun last_sibling :: "nat \<Rightarrow> fd_ghost \<Rightarrow> nat \<Rightarrow> nat res" where
  "last_sibling 0 g sibling = Ub"
| "last_sibling (Suc fuel) g sibling =
     rbind (blk_at g sibling) (\<lambda>b.
     case blk_sibling b of None \<Rightarrow> Ok sibling | Some s \<Rightarrow> last_sibling fuel g s)"

definition fd_ghost_insert :: "nat \<Rightarrow> nat \<Rightarrow> bytes \<Rightarrow> bytes \<Rightarrow> fd_ghost \<Rightarrow> (nat \<times> fd_ghost) res" where
  "fd_ghost_insert bank_seq slot block_id parent_block_id g =
     rbind (ghost_insert bank_seq slot block_id g) (\<lambda>(blk, g).
     case blk_map g parent_block_id of
       None \<Rightarrow> Err 426
     | Some parent \<Rightarrow>
         rbind (blk_upd blk (\<lambda>b. b\<lparr>blk_parent := Some parent\<rparr>) g) (\<lambda>g.
         rbind (blk_at g parent) (\<lambda>pb.
         case blk_child pb of
           None \<Rightarrow> rbind (blk_upd parent (\<lambda>b. b\<lparr>blk_child := Some blk\<rparr>) g) (\<lambda>g. Ok (blk, g))
         | Some child \<Rightarrow>
             rbind (last_sibling (blk_pool_max g + 1) g child) (\<lambda>sibling.
             rbind (blk_upd sibling (\<lambda>b. b\<lparr>blk_sibling := Some blk\<rparr>) g) (\<lambda>g.
             Ok (blk, g\<lparr>ghost_width := ulong_add (ghost_width g) 1\<rparr>))))))"

fun sub_stake_loop :: "nat \<Rightarrow> nat \<Rightarrow> nat option \<Rightarrow> fd_ghost \<Rightarrow> fd_ghost res" where
  "sub_stake_loop 0 stake ancestor g = Ub"
| "sub_stake_loop (Suc fuel) stake ancestor g =
     (case ancestor of
        None \<Rightarrow> Ok g
      | Some a \<Rightarrow>
          rbind (blk_at g a) (\<lambda>ab.
          if blk_stake ab < stake then Err 493
          else sub_stake_loop fuel stake (blk_parent ab)
                 (g\<lparr>blk_pool := (blk_pool g)(a \<mapsto> ab\<lparr>blk_stake := blk_stake ab - stake\<rparr>)\<rparr>)))"

fun add_stake_loop :: "nat \<Rightarrow> nat \<Rightarrow> nat option \<Rightarrow> fd_ghost \<Rightarrow> fd_ghost res" where
  "add_stake_loop 0 stake ancestor g = Ub"
| "add_stake_loop (Suc fuel) stake ancestor g =
     (case ancestor of
        None \<Rightarrow> Ok g
      | Some a \<Rightarrow>
          rbind (blk_at g a) (\<lambda>ab.
          if blk_stake ab + stake > ULONG_MAX then Err 515
          else add_stake_loop fuel stake (blk_parent ab)
                 (g\<lparr>blk_pool := (blk_pool g)(a \<mapsto> ab\<lparr>blk_stake := blk_stake ab + stake\<rparr>)\<rparr>)))"

text \<open>
  The part of \<open>fd_ghost_count_vote\<close> that finds or creates the voter and unwinds the previous vote, the
  part that counts the new vote, and the whole function.  A new voter's \<open>prev_*\<close> fields, which the
  code leaves as it finds them and overwrites before they are read, start at zero here; acquiring from
  an exhausted voter pool, which the code does not test for, is \<open>Ub\<close>.
\<close>

definition acquire_vtr :: "bytes \<Rightarrow> fd_ghost \<Rightarrow> (nat \<times> fd_ghost) res" where
  "acquire_vtr vote_acc g =
     (case vtr_free g of
        [] \<Rightarrow> Ub
      | v # vs \<Rightarrow>
          Ok (v, g\<lparr>vtr_free := vs, vtr_map := (vtr_map g)(vote_acc \<mapsto> v),
                   vtr_pool := (vtr_pool g)(v \<mapsto> \<lparr>vtr_addr = vote_acc, vtr_prev_stake = 0, vtr_prev_slot = 0,
                                                    vtr_prev_block_id = []\<rparr>)\<rparr>))"

definition unwind_vote :: "nat \<Rightarrow> fd_ghost_vtr \<Rightarrow> fd_ghost \<Rightarrow> fd_ghost res" where
  "unwind_vote v vb g =
     (let prev = blk_map g (vtr_prev_block_id vb);
          g = (case prev of None \<Rightarrow> g
               | Some i \<Rightarrow> g\<lparr>blk_vtr_dlist := (blk_vtr_dlist g)(i := remove1 v (blk_vtr_dlist g i))\<rparr>)
      in sub_stake_loop (blk_pool_max g + 1) (vtr_prev_stake vb) prev g)"

definition record_vote :: "nat \<Rightarrow> nat \<Rightarrow> nat \<Rightarrow> nat \<Rightarrow> fd_ghost \<Rightarrow> (int \<times> fd_ghost) res" where
  "record_vote blk v stake slot g =
     (let g = g\<lparr>blk_vtr_dlist := (blk_vtr_dlist g)(blk := blk_vtr_dlist g blk @ [v])\<rparr> in
      rbind (add_stake_loop (blk_pool_max g + 1) stake (Some blk) g) (\<lambda>g.
      rbind (blk_at g blk) (\<lambda>bb.
      case vtr_pool g v of
        None \<Rightarrow> Ub
      | Some vb \<Rightarrow>
          Ok (FD_GHOST_SUCCESS,
              g\<lparr>vtr_pool := (vtr_pool g)(v \<mapsto> vb\<lparr>vtr_prev_stake := stake, vtr_prev_slot := slot,
                                                  vtr_prev_block_id := blk_id bb\<rparr>)\<rparr>))))"

definition fd_ghost_count_vote :: "nat \<Rightarrow> bytes \<Rightarrow> nat \<Rightarrow> nat \<Rightarrow> fd_ghost \<Rightarrow> (int \<times> fd_ghost) res" where
  "fd_ghost_count_vote blk vote_acc stake slot g =
     (if slot = ULONG_MAX then Ok (FD_GHOST_ERR_NOT_VOTED, g)
      else case fd_ghost_root g of
        None \<Rightarrow> Ub
      | Some root \<Rightarrow>
          rbind (blk_at g root) (\<lambda>rb.
          if slot < blk_slot rb then Ok (FD_GHOST_ERR_VOTE_TOO_OLD, g)
          else case vtr_map g vote_acc of
            None \<Rightarrow> rbind (acquire_vtr vote_acc g) (\<lambda>(v, g). record_vote blk v stake slot g)
          | Some v \<Rightarrow>
              (case vtr_pool g v of
                 None \<Rightarrow> Ub
               | Some vb \<Rightarrow>
                   if \<not> (slot > vtr_prev_slot vb) then Ok (FD_GHOST_ERR_ALREADY_VOTED, g)
                   else rbind (unwind_vote v vb g) (record_vote blk v stake slot))))"

fun publish_children :: "nat \<Rightarrow> nat \<Rightarrow> nat option \<Rightarrow> nat \<Rightarrow> fd_ghost \<Rightarrow> (nat \<times> fd_ghost) res" where
  "publish_children 0 newr child tail g = Ub"
| "publish_children (Suc fuel) newr child tail g =
     (case child of
        None \<Rightarrow> Ok (tail, g)
      | Some c \<Rightarrow>
          rbind (blk_at g c) (\<lambda>cb.
          rbind (if c \<noteq> newr then
                   (let (removed, g) = blk_map_remove (blk_id cb) g in
                    rbind (blk_upd tail (\<lambda>b. b\<lparr>blk_next := removed\<rparr>) g) (\<lambda>g.
                    case removed of
                      None \<Rightarrow> Ub
                    | Some t \<Rightarrow> rbind (blk_upd t (\<lambda>b. b\<lparr>blk_next := None\<rparr>) g) (\<lambda>g. Ok (t, g))))
                 else Ok (tail, g)) (\<lambda>(tail, g).
          let child = blk_sibling cb;
              g = g\<lparr>ghost_width := (if child \<noteq> None then ulong_sub (ghost_width g) 1 else ghost_width g)\<rparr>
          in publish_children fuel newr child tail g)))"

text \<open>Popping every voter off the list \<open>vs\<close> of block \<open>i\<close> and releasing it.\<close>

primrec drain_vtrs :: "nat \<Rightarrow> nat list \<Rightarrow> fd_ghost \<Rightarrow> fd_ghost res" where
  "drain_vtrs i [] g = Ok g"
| "drain_vtrs i (v # vs) g =
     (case vtr_pool g v of
        None \<Rightarrow> Ub
      | Some vb \<Rightarrow>
          drain_vtrs i vs
            (g\<lparr>blk_vtr_dlist := (blk_vtr_dlist g)(i := vs), vtr_map := (vtr_map g)(vtr_addr vb := None),
               vtr_pool := (vtr_pool g)(v := None), vtr_free := v # vtr_free g\<rparr>))"

fun publish_loop :: "nat \<Rightarrow> nat \<Rightarrow> nat option \<Rightarrow> nat \<Rightarrow> fd_ghost \<Rightarrow> fd_ghost res" where
  "publish_loop 0 newr head tail g = Ub"
| "publish_loop (Suc fuel) newr head tail g =
     (case head of
        None \<Rightarrow> Ok g
      | Some i \<Rightarrow>
          rbind (blk_at g i) (\<lambda>hb.
          rbind (publish_children (blk_pool_max g + 1) newr (blk_child hb) tail g) (\<lambda>(tail, g).
          rbind (blk_at g i) (\<lambda>hb.
          rbind (drain_vtrs i (blk_vtr_dlist g i) g) (\<lambda>g.
          publish_loop fuel newr (blk_next hb) tail (blk_release i g))))))"

definition fd_ghost_publish :: "nat \<Rightarrow> fd_ghost \<Rightarrow> fd_ghost res" where
  "fd_ghost_publish newr g =
     (case fd_ghost_root g of
        None \<Rightarrow> Ub
      | Some oldr \<Rightarrow>
          if oldr = newr then Ok g
          else rbind (blk_at g oldr) (\<lambda>ob.
            let (head, g) = blk_map_remove (blk_id ob) g in
            case head of
              None \<Rightarrow> Ub
            | Some h \<Rightarrow>
                rbind (blk_upd h (\<lambda>b. b\<lparr>blk_next := None\<rparr>) g) (\<lambda>g.
                rbind (publish_loop (blk_pool_max g + 1) newr (Some h) h g) (\<lambda>g.
                rbind (blk_upd newr (\<lambda>b. b\<lparr>blk_parent := None, blk_sibling := None\<rparr>) g) (\<lambda>g.
                Ok (g\<lparr>ghost_root := Some newr\<rparr>))))))"

fun backtrack :: "nat \<Rightarrow> fd_ghost \<Rightarrow> nat \<Rightarrow> nat \<Rightarrow> nat res" where
  "backtrack 0 g root cur = Ub"
| "backtrack (Suc fuel) g root cur =
     (if cur = root then Ok cur
      else rbind (blk_at g cur) (\<lambda>b.
        case blk_sibling b of
          Some s \<Rightarrow> Ok s
        | None \<Rightarrow> (case blk_parent b of None \<Rightarrow> Ub | Some p \<Rightarrow> backtrack fuel g root p)))"

fun mark_invalid_loop :: "nat \<Rightarrow> nat \<Rightarrow> nat \<Rightarrow> fd_ghost \<Rightarrow> fd_ghost res" where
  "mark_invalid_loop 0 root cur g = Ub"
| "mark_invalid_loop (Suc fuel) root cur g =
     rbind (blk_upd cur (\<lambda>b. b\<lparr>blk_valid := False\<rparr>) g) (\<lambda>g.
     rbind (blk_at g cur) (\<lambda>b.
     case blk_child b of
       Some c \<Rightarrow> mark_invalid_loop fuel root c g
     | None \<Rightarrow>
         rbind (backtrack (blk_pool_max g + 1) g root cur) (\<lambda>cur.
         if cur = root then Ok g else mark_invalid_loop fuel root cur g)))"

definition mark_invalid :: "nat \<Rightarrow> fd_ghost \<Rightarrow> fd_ghost res" where
  "mark_invalid root g = mark_invalid_loop (blk_pool_max g + 1) root root g"

fun confirm_loop :: "nat \<Rightarrow> nat option \<Rightarrow> fd_ghost \<Rightarrow> fd_ghost res" where
  "confirm_loop 0 anc g = Ub"
| "confirm_loop (Suc fuel) anc g =
     (case anc of
        None \<Rightarrow> Ok g
      | Some a \<Rightarrow>
          rbind (blk_at g a) (\<lambda>ab.
          if blk_valid ab then Ok g
          else confirm_loop fuel (blk_parent ab) (g\<lparr>blk_pool := (blk_pool g)(a \<mapsto> ab\<lparr>blk_valid := True\<rparr>)\<rparr>)))"

definition fd_ghost_confirm :: "bytes \<Rightarrow> fd_ghost \<Rightarrow> fd_ghost res" where
  "fd_ghost_confirm confirmed_block_id g =
     (case blk_map g confirmed_block_id of None \<Rightarrow> Ok g | Some blk \<Rightarrow> confirm_loop (blk_pool_max g + 1) (Some blk) g)"

definition fd_ghost_eqvoc :: "bytes \<Rightarrow> fd_ghost \<Rightarrow> fd_ghost res" where
  "fd_ghost_eqvoc block_id g =
     (case blk_map g block_id of None \<Rightarrow> Ok g | Some blk \<Rightarrow> mark_invalid blk g)"

text \<open>
  The accessors other files walk the tree with.  While a block is out of the map its \<open>next\<close> field is theirs.
\<close>

definition fd_ghost_blk_map_remove :: "fd_ghost \<Rightarrow> nat \<Rightarrow> (nat option \<times> fd_ghost) res" where
  "fd_ghost_blk_map_remove g blk = rbind (blk_at g blk) (\<lambda>b. Ok (blk_map_remove (blk_id b) g))"

definition fd_ghost_blk_map_insert :: "fd_ghost \<Rightarrow> nat \<Rightarrow> fd_ghost res" where
  "fd_ghost_blk_map_insert g blk = rbind (blk_at g blk) (\<lambda>b. Ok (g\<lparr>blk_map := (blk_map g)(blk_id b \<mapsto> blk)\<rparr>))"

definition fd_ghost_blk_child :: "fd_ghost \<Rightarrow> nat \<Rightarrow> nat option res" where
  "fd_ghost_blk_child g blk = rbind (blk_at g blk) (\<lambda>b. Ok (blk_child b))"

definition fd_ghost_blk_sibling :: "fd_ghost \<Rightarrow> nat \<Rightarrow> nat option res" where
  "fd_ghost_blk_sibling g blk = rbind (blk_at g blk) (\<lambda>b. Ok (blk_sibling b))"

definition fd_ghost_blk_next :: "fd_ghost \<Rightarrow> nat \<Rightarrow> nat option res" where
  "fd_ghost_blk_next g blk = rbind (blk_at g blk) (\<lambda>b. Ok (blk_next b))"

lemma blk_map_remove_insert:
  assumes "blk_pool g i = Some b" "blk_map g (blk_id b) = Some i"
  shows "rbind (fd_ghost_blk_map_remove g i) (\<lambda>(r, g'). fd_ghost_blk_map_insert g' i) = Ok g"
  using assms by (simp add: fd_ghost_blk_map_remove_def fd_ghost_blk_map_insert_def blk_map_remove_def blk_at_def fun_upd_idem)

end
