(* ===== verification/Ghost_Tree.thy ===== *)
theory Ghost_Tree
  imports Ghost
begin

text \<open>
  The fork tree behind the block pool.  The links of the blocks are kept apart from their other fields
  (\<open>shape\<close>), so that the updates of stakes, validity and queue links leave the tree as it is.
  \<open>ghost_tree\<close> says that the links form a tree: the parents lead to the root along decreasing depth, and
  the child and sibling links of a block list exactly the blocks that have it as parent.
\<close>

subsection \<open>Links\<close>

record links =
  lk_parent :: "nat option"
  lk_child :: "nat option"
  lk_sibling :: "nat option"

type_synonym shape = "nat \<rightharpoonup> links"

definition links_of :: "fd_ghost_blk \<Rightarrow> links" where
  "links_of b = \<lparr>lk_parent = blk_parent b, lk_child = blk_child b, lk_sibling = blk_sibling b\<rparr>"

definition shape :: "(nat \<rightharpoonup> fd_ghost_blk) \<Rightarrow> shape" where
  "shape h i = map_option links_of (h i)"

lemma links_of_simps [simp]:
  "lk_parent (links_of b) = blk_parent b" "lk_child (links_of b) = blk_child b" "lk_sibling (links_of b) = blk_sibling b"
  "links_of (b\<lparr>blk_next := n\<rparr>) = links_of b" "links_of (b\<lparr>blk_stake := s\<rparr>) = links_of b"
  "links_of (b\<lparr>blk_valid := v\<rparr>) = links_of b"
  by (simp_all add: links_of_def)

lemma dom_shape [simp]: "dom (shape h) = dom h"
  by (auto simp: shape_def)

lemma shape_update [simp]: "shape (h(i \<mapsto> b)) = (shape h)(i \<mapsto> links_of b)"
  by (auto simp: shape_def)

lemma shape_delete [simp]: "shape (h(i := None)) = (shape h)(i := None)"
  by (auto simp: shape_def)

lemma shape_some: "h i = Some b \<Longrightarrow> shape h i = Some (links_of b)"
  by (simp add: shape_def)

lemma shape_eq_Some: "shape h i = Some l \<longleftrightarrow> (\<exists>b. h i = Some b \<and> l = links_of b)"
  by (auto simp: shape_def)

definition parent_of :: "shape \<Rightarrow> nat \<Rightarrow> nat option" where
  "parent_of s i = Option.bind (s i) lk_parent"

definition par :: "shape \<Rightarrow> (nat \<times> nat) set" where
  "par s = {(i, p). parent_of s i = Some p}"

abbreviation anc :: "shape \<Rightarrow> nat \<Rightarrow> nat set" where
  "anc s i \<equiv> {a. (i, a) \<in> (par s)\<^sup>*}"

definition desc :: "shape \<Rightarrow> nat \<Rightarrow> nat set" where
  "desc s a = {i \<in> dom s. a \<in> anc s i}"

fun sibs :: "shape \<Rightarrow> nat option \<Rightarrow> nat list \<Rightarrow> bool" where
  "sibs s q [] \<longleftrightarrow> q = None"
| "sibs s q (i # xs) \<longleftrightarrow> q = Some i \<and> (\<exists>l. s i = Some l \<and> sibs s (lk_sibling l) xs)"

definition ghost_tree :: "shape \<Rightarrow> nat \<Rightarrow> (nat \<Rightarrow> nat list) \<Rightarrow> (nat \<Rightarrow> nat) \<Rightarrow> bool" where
  "ghost_tree s r kids dep \<longleftrightarrow>
     finite (dom s) \<and> r \<in> dom s \<and> parent_of s r = None \<and>
     (\<forall>i \<in> dom s. i \<noteq> r \<longrightarrow> (\<exists>p \<in> dom s. parent_of s i = Some p \<and> dep i = Suc (dep p))) \<and>
     (\<forall>i l. s i = Some l \<longrightarrow> sibs s (lk_child l) (kids i) \<and> distinct (kids i) \<and>
        (\<forall>j. j \<in> set (kids i) \<longleftrightarrow> parent_of s j = Some i))"

subsection \<open>Ancestors and descendants\<close>

lemma parent_dom: "parent_of s i = Some p \<Longrightarrow> i \<in> dom s"
  by (auto simp: parent_of_def bind_eq_Some_conv)

lemma ghost_treeD:
  assumes "ghost_tree s r kids dep"
  shows "finite (dom s)" "r \<in> dom s" "parent_of s r = None"
    "parent_of s i = Some p \<Longrightarrow> p \<in> dom s" "parent_of s i = Some p \<Longrightarrow> dep i = Suc (dep p)"
    "i \<in> dom s \<Longrightarrow> parent_of s i = None \<Longrightarrow> i = r"
    "s i = Some l \<Longrightarrow> sibs s (lk_child l) (kids i)" "i \<in> dom s \<Longrightarrow> distinct (kids i)"
    "i \<in> dom s \<Longrightarrow> j \<in> set (kids i) \<longleftrightarrow> parent_of s j = Some i"
proof -
  note t = assms [unfolded ghost_tree_def]
  show "finite (dom s)" "r \<in> dom s" "parent_of s r = None"
    using t by blast+
  have p: "p \<in> dom s \<and> dep i = Suc (dep p)" if "parent_of s i = Some p" for i p
  proof -
    have "i \<in> dom s" "i \<noteq> r"
      using parent_dom [OF that] that t by auto
    then obtain q where "q \<in> dom s" "parent_of s i = Some q" "dep i = Suc (dep q)"
      using t by blast
    with that show ?thesis
      by simp
  qed
  show "parent_of s i = Some p \<Longrightarrow> p \<in> dom s" "parent_of s i = Some p \<Longrightarrow> dep i = Suc (dep p)"
    using p by simp_all
  show "i \<in> dom s \<Longrightarrow> parent_of s i = None \<Longrightarrow> i = r"
    using t by fastforce
  show "s i = Some l \<Longrightarrow> sibs s (lk_child l) (kids i)"
    using t by blast
  show "i \<in> dom s \<Longrightarrow> distinct (kids i)" "i \<in> dom s \<Longrightarrow> j \<in> set (kids i) \<longleftrightarrow> parent_of s j = Some i"
    using t by (auto simp: dom_def)
qed

lemma anc_self [simp]: "i \<in> anc s i"
  by simp

lemma anc_root: "parent_of s i = None \<Longrightarrow> anc s i = {i}"
  by (auto simp: par_def elim: converse_rtranclE)

lemma anc_step: "parent_of s i = Some p \<Longrightarrow> anc s i = insert i (anc s p)"
  by (auto simp: par_def elim: converse_rtranclE intro: converse_rtrancl_into_rtrancl)

lemma anc_trans: "a \<in> anc s i \<Longrightarrow> c \<in> anc s a \<Longrightarrow> c \<in> anc s i"
  by auto

lemma anc_dom:
  assumes t: "ghost_tree s r kids dep" and i: "i \<in> dom s" and a: "a \<in> anc s i"
  shows "a \<in> dom s"
  using a unfolding mem_Collect_eq
  by (induction rule: rtrancl_induct) (use i ghost_treeD(4) [OF t] in \<open>auto simp: par_def\<close>)

lemma anc_dep:
  assumes t: "ghost_tree s r kids dep" and a: "a \<in> anc s i"
  shows "a = i \<or> dep a < dep i"
  using a unfolding mem_Collect_eq
  by (induction rule: rtrancl_induct) (use ghost_treeD(5) [OF t] in \<open>fastforce simp: par_def\<close>)+

lemma anc_antisym: "ghost_tree s r kids dep \<Longrightarrow> a \<in> anc s i \<Longrightarrow> i \<in> anc s a \<Longrightarrow> a = i"
  using anc_dep [of s r kids dep a i] anc_dep [of s r kids dep i a] by auto

lemma anc_parent_not: "ghost_tree s r kids dep \<Longrightarrow> parent_of s i = Some p \<Longrightarrow> i \<notin> anc s p"
  using anc_dep [of s r kids dep i p] ghost_treeD(5) [of s r kids dep i p] by auto

lemma anc_finite: "ghost_tree s r kids dep \<Longrightarrow> i \<in> dom s \<Longrightarrow> finite (anc s i)"
  using anc_dom [of s r kids dep i] ghost_treeD(1) [of s r kids dep] by (meson finite_subset subsetI)

lemma anc_card: "ghost_tree s r kids dep \<Longrightarrow> i \<in> dom s \<Longrightarrow> card (anc s i) \<le> card (dom s)"
  using anc_dom [of s r kids dep i] ghost_treeD(1) [of s r kids dep] by (meson card_mono subsetI)

lemma anc_card_step:
  "ghost_tree s r kids dep \<Longrightarrow> parent_of s i = Some p \<Longrightarrow> card (anc s i) = Suc (card (anc s p))"
  using anc_parent_not [of s r kids dep i p] anc_finite [of s r kids dep p] ghost_treeD(4) [of s r kids dep i p]
  by (simp add: anc_step)

lemma root_anc:
  assumes "ghost_tree s r kids dep" "i \<in> dom s"
  shows "r \<in> anc s i"
  using assms(2)
proof (induction "dep i" arbitrary: i rule: less_induct)
  case less
  show ?case
  proof (cases "parent_of s i")
    case None
    then show ?thesis
      using ghost_treeD(6) [OF assms(1) less.prems] by simp
  next
    case (Some p)
    then show ?thesis
      using less.hyps [of p] ghost_treeD(4,5) [OF assms(1) Some] anc_step [OF Some] by simp
  qed
qed

text \<open>The ancestors of a block form a chain.\<close>

lemma anc_chain:
  assumes "a \<in> anc s i" and c: "c \<in> anc s i"
  shows "a \<in> anc s c \<or> c \<in> anc s a"
  using assms(1) unfolding mem_Collect_eq
proof (induction rule: rtrancl_induct)
  case base
  then show ?case
    using c by simp
next
  case (step y z)
  from step.IH show ?case
  proof
    assume "(c, y) \<in> (par s)\<^sup>*"
    then show ?thesis
      using step.hyps(2) by (meson rtrancl_into_rtrancl)
  next
    assume "(y, c) \<in> (par s)\<^sup>*"
    then show ?thesis
    proof (cases rule: converse_rtranclE)
      case base
      then show ?thesis
        using step.hyps(2) by blast
    next
      case (step w)
      then have "w = z"
        using \<open>(y, z) \<in> par s\<close> by (simp add: par_def)
      then show ?thesis
        using step by simp
    qed
  qed
qed

lemma desc_self: "i \<in> dom s \<Longrightarrow> i \<in> desc s i"
  by (simp add: desc_def)

lemma desc_dom: "desc s i \<subseteq> dom s"
  by (auto simp: desc_def)

lemma desc_root: "ghost_tree s r kids dep \<Longrightarrow> desc s r = dom s"
  using root_anc [of s r kids dep] by (simp add: desc_def) blast

text \<open>A block's descendants are itself and those of its children.\<close>

lemma desc_kids:
  assumes t: "ghost_tree s r kids dep" and i: "i \<in> dom s"
  shows "desc s i = insert i (\<Union>c \<in> set (kids i). desc s c)"
proof -
  have "(j, i) \<in> (par s)\<^sup>* \<longleftrightarrow> j = i \<or> (\<exists>c. (j, c) \<in> (par s)\<^sup>* \<and> parent_of s c = Some i)" for j
    by (auto simp: par_def elim: rtranclE intro: rtrancl_into_rtrancl)
  then show ?thesis
    using i ghost_treeD(9) [OF t i] by (auto simp: desc_def)
qed

lemma desc_disjoint:
  assumes t: "ghost_tree s r kids dep" and i: "i \<in> dom s"
    and c: "c \<in> set (kids i)" "d \<in> set (kids i)" "c \<noteq> d"
  shows "desc s c \<inter> desc s d = {}"
proof -
  have p: "parent_of s c = Some i" "parent_of s d = Some i"
    using c ghost_treeD(9) [OF t i] by simp_all
  have "c \<notin> anc s d" "d \<notin> anc s c"
    using anc_step [OF p(1)] anc_step [OF p(2)] c(3) anc_parent_not [OF t p(1)] anc_parent_not [OF t p(2)] by auto
  then show ?thesis
    using anc_chain [of c _ s d] by (auto simp: desc_def)
qed

lemma kid_dom: "ghost_tree s r kids dep \<Longrightarrow> i \<in> dom s \<Longrightarrow> c \<in> set (kids i) \<Longrightarrow> c \<in> dom s"
  using ghost_treeD(9) parent_dom by metis

lemma self_not_in_kid: "ghost_tree s r kids dep \<Longrightarrow> i \<in> dom s \<Longrightarrow> c \<in> set (kids i) \<Longrightarrow> i \<notin> desc s c"
  using ghost_treeD(9) [of s r kids dep i c] anc_dep [of s r kids dep c i] ghost_treeD(5) [of s r kids dep c i]
  by (auto simp: desc_def)

lemma length_kids: "ghost_tree s r kids dep \<Longrightarrow> i \<in> dom s \<Longrightarrow> length (kids i) \<le> card (dom s)"
  using kid_dom [of s r kids dep i] ghost_treeD(1,8) [of s r kids dep]
  by (metis card_mono distinct_card subsetI)

text \<open>Siblings only depend on sibling links, ancestors only on parent links.\<close>

lemma sibs_cong:
  "(\<And>i. i \<in> set xs \<Longrightarrow> map_option lk_sibling (s' i) = map_option lk_sibling (s i)) \<Longrightarrow> sibs s' q xs = sibs s q xs"
proof (induction xs arbitrary: q)
  case (Cons i xs)
  have "map_option lk_sibling (s' i) = map_option lk_sibling (s i)"
    using Cons.prems by simp
  moreover have "sibs s' q xs = sibs s q xs" for q
    using Cons by simp
  ultimately show ?case
    by (cases "s i"; cases "s' i") auto
qed simp

lemma sibs_snoc:
  assumes "sibs s q xs" "xs \<noteq> []" "distinct xs" "n \<notin> set xs" "s n = Some m" "lk_sibling m = None" "s (last xs) = Some l"
  shows "sibs (s(last xs \<mapsto> l\<lparr>lk_sibling := Some n\<rparr>)) q (xs @ [n])"
  using assms
proof (induction xs arbitrary: q)
  case (Cons i xs)
  show ?case
  proof (cases "xs = []")
    case False
    then have "i \<noteq> last xs"
      using Cons.prems by auto
    then show ?thesis
      using Cons False by auto
  qed (use Cons.prems in auto)
qed simp

lemma sibs_dom: "sibs s q xs \<Longrightarrow> i \<in> set xs \<Longrightarrow> i \<in> dom s"
  by (induction xs arbitrary: q) auto

lemma sibs_last: "sibs s q xs \<Longrightarrow> xs \<noteq> [] \<Longrightarrow> s (last xs) = Some l \<Longrightarrow> lk_sibling l = None"
  by (induction xs arbitrary: q) (auto split: if_splits)

lemma sibs_hd: "sibs s q xs \<Longrightarrow> q = (case xs of [] \<Rightarrow> None | i # _ \<Rightarrow> Some i)"
  by (cases xs) auto

lemma anc_cong:
  assumes "\<And>x. x \<in> anc s i \<Longrightarrow> parent_of s' x = parent_of s x"
  shows "anc s' i = anc s i"
proof (intro equalityI subsetI; unfold mem_Collect_eq)
  fix a
  show "(i, a) \<in> (par s)\<^sup>*" if "(i, a) \<in> (par s')\<^sup>*"
    using that
  proof (induction rule: rtrancl_induct)
    case (step y z)
    then show ?case
      using assms [of y] by (auto simp: par_def intro: rtrancl_into_rtrancl)
  qed simp
  show "(i, a) \<in> (par s')\<^sup>*" if "(i, a) \<in> (par s)\<^sup>*"
    using that
  proof (induction rule: rtrancl_induct)
    case (step y z)
    then show ?case
      using assms [of y] by (auto simp: par_def intro: rtrancl_into_rtrancl)
  qed simp
qed

end
