(* ===== verification/Ghost_Walk.thy ===== *)
theory Ghost_Walk
  imports Ghost_Tree
begin

text \<open>The loops that follow the parent links from a block to the root.\<close>

abbreviation gshape :: "fd_ghost \<Rightarrow> shape" where
  "gshape g \<equiv> shape (blk_pool g)"

definition upd_on :: "nat set \<Rightarrow> ('b \<Rightarrow> 'b) \<Rightarrow> (nat \<rightharpoonup> 'b) \<Rightarrow> (nat \<rightharpoonup> 'b)" where
  "upd_on A f h i = (if i \<in> A then map_option f (h i) else h i)"

lemma upd_on_simps [simp]:
  "i \<in> A \<Longrightarrow> upd_on A f h i = map_option f (h i)" "i \<notin> A \<Longrightarrow> upd_on A f h i = h i"
  "dom (upd_on A f h) = dom h"
  by (auto simp: upd_on_def split: if_splits)

lemma upd_on_empty [simp]: "upd_on {} f h = h"
  by (simp add: upd_on_def fun_eq_iff)

lemma upd_on_insert: "h i = Some b \<Longrightarrow> i \<notin> A \<Longrightarrow> upd_on A f (h(i \<mapsto> f b)) = upd_on (insert i A) f h"
  by (auto simp: upd_on_def)

lemma upd_on_single: "h i = Some b \<Longrightarrow> upd_on {i} f h = h(i \<mapsto> f b)"
  by (auto simp: upd_on_def)

lemma shape_upd_on: "(\<And>b. links_of (f b) = links_of b) \<Longrightarrow> shape (upd_on A f h) = shape h"
  by (auto simp: shape_def upd_on_def option.map_comp intro!: ext option.map_cong)

lemma shape_same_links: "h i = Some b \<Longrightarrow> links_of b' = links_of b \<Longrightarrow> shape (h(i \<mapsto> b')) = shape h"
  by (auto simp: shape_def)

lemma blk_at_eq: "blk_pool g i = Some b \<Longrightarrow> blk_at g i = Ok b"
  by (simp add: blk_at_def)

lemma blk_upd_eq: "blk_pool g i = Some b \<Longrightarrow> blk_upd i f g = Ok (g\<lparr>blk_pool := (blk_pool g)(i \<mapsto> f b)\<rparr>)"
  by (simp add: blk_upd_def blk_at_eq)

lemma parent_of_shape: "blk_pool g i = Some b \<Longrightarrow> parent_of (gshape g) i = blk_parent b"
  by (simp add: parent_of_def shape_def)

text \<open>Both stake loops are instances of one walk.\<close>

fun walk_up :: "nat \<Rightarrow> (fd_ghost_blk \<Rightarrow> bool) \<Rightarrow> nat \<Rightarrow> (fd_ghost_blk \<Rightarrow> fd_ghost_blk) \<Rightarrow> nat option \<Rightarrow> fd_ghost \<Rightarrow> fd_ghost res" where
  "walk_up 0 bad e F a g = Ub"
| "walk_up (Suc fuel) bad e F a g =
     (case a of None \<Rightarrow> Ok g
      | Some a \<Rightarrow> rbind (blk_at g a) (\<lambda>ab. if bad ab then Err e
          else walk_up fuel bad e F (blk_parent ab) (g\<lparr>blk_pool := (blk_pool g)(a \<mapsto> F ab)\<rparr>)))"

lemma sub_stake_loop_walk:
  "sub_stake_loop fuel stake a g = walk_up fuel (\<lambda>b. blk_stake b < stake) 493 (\<lambda>b. b\<lparr>blk_stake := blk_stake b - stake\<rparr>) a g"
  by (induction fuel stake a g rule: sub_stake_loop.induct) (simp_all add: blk_at_def split: option.split)

lemma add_stake_loop_walk:
  "add_stake_loop fuel stake a g =
     walk_up fuel (\<lambda>b. blk_stake b + stake > ULONG_MAX) 515 (\<lambda>b. b\<lparr>blk_stake := blk_stake b + stake\<rparr>) a g"
  by (induction fuel stake a g rule: add_stake_loop.induct) (simp_all add: blk_at_def split: option.split)

lemma walk_up_spec:
  assumes "ghost_tree (gshape g) r kids dep" "i \<in> dom (blk_pool g)" "card (anc (gshape g) i) < fuel"
    and F: "\<And>b. links_of (F b) = links_of b"
  shows "walk_up fuel bad e F (Some i) g =
    (if \<exists>a \<in> anc (gshape g) i. \<exists>b. blk_pool g a = Some b \<and> bad b then Err e
     else Ok (g\<lparr>blk_pool := upd_on (anc (gshape g) i) F (blk_pool g)\<rparr>))"
  using assms(1-3)
proof (induction fuel arbitrary: i g)
  case (Suc fuel)
  obtain b where b: "blk_pool g i = Some b"
    using Suc.prems(2) by blast
  let ?g = "g\<lparr>blk_pool := (blk_pool g)(i \<mapsto> F b)\<rparr>"
  have sh: "gshape ?g = gshape g"
    using shape_same_links [of "blk_pool g" i b "F b"] b F by simp
  show ?case
  proof (cases "blk_parent b")
    case None
    then have anc: "anc (gshape g) i = {i}"
      using anc_root parent_of_shape [OF b] by simp
    have "fuel > 0"
      using Suc.prems(3) unfolding anc by simp
    then show ?thesis
      using b None unfolding anc by (cases fuel) (auto simp: blk_at_eq upd_on_single)
  next
    case (Some p)
    then have p: "parent_of (gshape g) i = Some p"
      using parent_of_shape [OF b] by simp
    have out: "i \<notin> anc (gshape g) p"
      using anc_parent_not [OF Suc.prems(1) p] .
    have "p \<in> dom (blk_pool ?g)" "card (anc (gshape ?g) p) < fuel"
      using ghost_treeD(4) [OF Suc.prems(1) p] anc_card_step [OF Suc.prems(1) p] Suc.prems(3) sh by simp_all
    from Suc.IH [OF _ this] have "walk_up fuel bad e F (Some p) ?g =
      (if \<exists>a \<in> anc (gshape g) p. \<exists>b. blk_pool ?g a = Some b \<and> bad b then Err e
       else Ok (g\<lparr>blk_pool := upd_on (anc (gshape g) p) F (blk_pool ?g)\<rparr>))"
      using Suc.prems(1) unfolding sh by simp
    moreover have "(\<exists>a \<in> anc (gshape g) p. \<exists>b. blk_pool ?g a = Some b \<and> bad b) =
        (\<exists>a \<in> anc (gshape g) p. \<exists>b. blk_pool g a = Some b \<and> bad b)"
      using out by (intro bex_cong refl) auto
    ultimately show ?thesis
      using b Some upd_on_insert [of "blk_pool g", OF b out, of F] unfolding anc_step [OF p] by (simp add: blk_at_eq)
  qed
qed simp

lemma predicate_ancestor_spec:
  assumes "ghost_tree (gshape g) r kids dep" "i \<in> dom (blk_pool g)" "card (anc (gshape g) i) < fuel"
  shows "\<exists>res. PREDICATE_ANCESTOR fuel P g (Some i) = Ok res \<and>
    (case res of
       None \<Rightarrow> \<forall>a \<in> anc (gshape g) i. \<not> P (the (blk_pool g a))
     | Some a \<Rightarrow> a \<in> anc (gshape g) i \<and> P (the (blk_pool g a)) \<and>
         (\<forall>c \<in> anc (gshape g) i. P (the (blk_pool g c)) \<longrightarrow> c \<in> anc (gshape g) a))"
  using assms(2-3)
proof (induction fuel arbitrary: i)
  case (Suc fuel)
  obtain b where b: "blk_pool g i = Some b"
    using Suc.prems(1) by blast
  show ?case
  proof (cases "P b")
    case True
    then show ?thesis
      using b by (intro exI [of _ "Some i"]) (simp add: blk_at_eq)
  next
    case False
    show ?thesis
    proof (cases "blk_parent b")
      case None
      then have anc: "anc (gshape g) i = {i}"
        using anc_root parent_of_shape [OF b] by simp
      have "fuel > 0"
        using Suc.prems(2) unfolding anc by simp
      then show ?thesis
        using b None False unfolding anc by (cases fuel) (auto simp: blk_at_eq)
    next
      case (Some p)
      then have p: "parent_of (gshape g) i = Some p"
        using parent_of_shape [OF b] by simp
      have "p \<in> dom (blk_pool g)" "card (anc (gshape g) p) < fuel"
        using ghost_treeD(4) [OF assms(1) p] anc_card_step [OF assms(1) p] Suc.prems(2) by simp_all
      from Suc.IH [OF this] show ?thesis
        using b Some False unfolding anc_step [OF p] by (auto simp: blk_at_eq split: option.splits)
    qed
  qed
qed simp

text \<open>\<open>confirm_loop\<close> makes the block and its ancestors up to the first valid one valid.\<close>

definition invalid_run :: "fd_ghost \<Rightarrow> nat \<Rightarrow> nat set" where
  "invalid_run g i = {a \<in> anc (gshape g) i. \<forall>k \<in> anc (gshape g) i. a \<in> anc (gshape g) k \<longrightarrow> \<not> blk_valid (the (blk_pool g k))}"

lemma invalid_run_valid: "blk_pool g i = Some b \<Longrightarrow> blk_valid b \<Longrightarrow> invalid_run g i = {}"
  by (auto simp: invalid_run_def)

lemma invalid_run_root: "parent_of (gshape g) i = None \<Longrightarrow> blk_pool g i = Some b \<Longrightarrow> \<not> blk_valid b \<Longrightarrow> invalid_run g i = {i}"
  using anc_root [of "gshape g" i] by (auto simp: invalid_run_def)

lemma invalid_run_step:
  assumes t: "ghost_tree (gshape g) r kids dep" and p: "parent_of (gshape g) i = Some p"
    and b: "blk_pool g i = Some b" "\<not> blk_valid b"
  shows "invalid_run g i = insert i (invalid_run g p)"
proof -
  have "\<not> blk_valid (the (blk_pool g k))" if "k \<in> anc (gshape g) i" "i \<in> anc (gshape g) k" for k
    using anc_antisym [OF t that(2,1)] b by simp
  then have "i \<in> invalid_run g i"
    by (simp add: invalid_run_def)
  moreover have "a \<in> invalid_run g i \<longleftrightarrow> a \<in> invalid_run g p" if "a \<noteq> i" for a
    using that b unfolding invalid_run_def anc_step [OF p] by auto
  ultimately show ?thesis
    by (metis insert_iff set_eqI)
qed

lemma invalid_run_other:
  assumes "gshape g' = gshape g" "\<And>k. k \<in> anc (gshape g) i \<Longrightarrow> blk_pool g' k = blk_pool g k"
  shows "invalid_run g' i = invalid_run g i"
  using assms by (auto simp: invalid_run_def)

lemma confirm_loop_spec:
  assumes "ghost_tree (gshape g) r kids dep" "i \<in> dom (blk_pool g)" "card (anc (gshape g) i) < fuel"
  shows "confirm_loop fuel (Some i) g = Ok (g\<lparr>blk_pool := upd_on (invalid_run g i) (\<lambda>b. b\<lparr>blk_valid := True\<rparr>) (blk_pool g)\<rparr>)"
  using assms
proof (induction fuel arbitrary: i g)
  case (Suc fuel)
  obtain b where b: "blk_pool g i = Some b"
    using Suc.prems(2) by blast
  let ?F = "\<lambda>b. b\<lparr>blk_valid := True\<rparr>"
  let ?g = "g\<lparr>blk_pool := (blk_pool g)(i \<mapsto> ?F b)\<rparr>"
  have sh: "gshape ?g = gshape g"
    using shape_same_links [of "blk_pool g" i b "?F b"] b by simp
  show ?case
  proof (cases "blk_valid b")
    case True
    then show ?thesis
      using b invalid_run_valid [OF b True] by (simp add: blk_at_eq)
  next
    case False
    show ?thesis
    proof (cases "blk_parent b")
      case None
      then have anc: "anc (gshape g) i = {i}" "parent_of (gshape g) i = None"
        using anc_root parent_of_shape [OF b] by simp_all
      have "fuel > 0"
        using Suc.prems(3) unfolding anc by simp
      then show ?thesis
        using b None False invalid_run_root [OF anc(2) b False] by (cases fuel) (auto simp: blk_at_eq upd_on_single fun_upd_def)
    next
      case (Some p)
      then have p: "parent_of (gshape g) i = Some p"
        using parent_of_shape [OF b] by simp
      have out: "i \<notin> anc (gshape g) p"
        using anc_parent_not [OF Suc.prems(1) p] .
      have A: "invalid_run ?g p = invalid_run g p" "i \<notin> invalid_run g p"
        using out by (auto intro!: invalid_run_other [OF sh]) (simp add: invalid_run_def)
      have "p \<in> dom (blk_pool ?g)" "card (anc (gshape ?g) p) < fuel"
        using ghost_treeD(4) [OF Suc.prems(1) p] anc_card_step [OF Suc.prems(1) p] Suc.prems(3) sh by simp_all
      from Suc.IH [OF Suc.prems(1) [folded sh] this] show ?thesis
        using A b Some False upd_on_insert [of "blk_pool g" i b "invalid_run g p" ?F] invalid_run_step [OF Suc.prems(1) p b False]
        by (simp add: blk_at_eq fun_upd_def)
    qed
  qed
qed simp

end
