(* ===== verification/Ghost_Inv.thy ===== *)
theory Ghost_Inv
  imports Ghost_Walk
begin

text \<open>
  The invariant of a ghost: the blocks form a tree, the pool and the block map agree, every voter is
  parked on the block of its latest vote, the stake of a block is the sum of the stakes of the voters
  parked in its subtree, and the width is one more than the number of extra siblings.
\<close>

definition votes_on :: "fd_ghost \<Rightarrow> nat \<Rightarrow> nat" where
  "votes_on g i = (\<Sum>v \<in> set (blk_vtr_dlist g i). vtr_prev_stake (the (vtr_pool g v)))"

definition ghost_blks_ok :: "fd_ghost \<Rightarrow> bool" where
  "ghost_blks_ok g \<longleftrightarrow>
     blk_pool_max g < 2 ^ 64 \<and> distinct (blk_free g) \<and> dom (blk_pool g) \<inter> set (blk_free g) = {} \<and>
     dom (blk_pool g) \<union> set (blk_free g) = {..<blk_pool_max g} \<and>
     (\<forall>k i. blk_map g k = Some i \<longleftrightarrow> (\<exists>b. blk_pool g i = Some b \<and> blk_id b = k))"

definition ghost_vtrs_ok :: "fd_ghost \<Rightarrow> bool" where
  "ghost_vtrs_ok g \<longleftrightarrow>
     distinct (vtr_free g) \<and> set (vtr_free g) \<inter> dom (vtr_pool g) = {} \<and>
     (\<forall>k v. vtr_map g k = Some v \<longleftrightarrow> (\<exists>w. vtr_pool g v = Some w \<and> vtr_addr w = k)) \<and>
     (\<forall>i. distinct (blk_vtr_dlist g i)) \<and>
     (\<forall>i v. v \<in> set (blk_vtr_dlist g i) \<longleftrightarrow>
        (\<exists>w b. vtr_pool g v = Some w \<and> blk_pool g i = Some b \<and> vtr_prev_block_id w = blk_id b)) \<and>
     (\<forall>v \<in> dom (vtr_pool g). \<exists>i. v \<in> set (blk_vtr_dlist g i))"

definition ghost_stake_ok :: "fd_ghost \<Rightarrow> bool" where
  "ghost_stake_ok g \<longleftrightarrow>
     (\<forall>i b. blk_pool g i = Some b \<longrightarrow> blk_stake b = (\<Sum>j \<in> desc (gshape g) i. votes_on g j))"

definition extra_kids :: "fd_ghost \<Rightarrow> (nat \<Rightarrow> nat list) \<Rightarrow> nat" where
  "extra_kids g kids = (\<Sum>i \<in> dom (blk_pool g). length (kids i) - 1)"

definition ghost_inv :: "fd_ghost \<Rightarrow> nat \<Rightarrow> (nat \<Rightarrow> nat list) \<Rightarrow> (nat \<Rightarrow> nat) \<Rightarrow> bool" where
  "ghost_inv g r kids dep \<longleftrightarrow>
     ghost_root g = Some r \<and> ghost_tree (gshape g) r kids dep \<and> ghost_blks_ok g \<and> ghost_vtrs_ok g \<and>
     ghost_stake_ok g \<and> ghost_width g = 1 + extra_kids g kids"

lemma ghost_invD:
  assumes "ghost_inv g r kids dep"
  shows "ghost_root g = Some r" "ghost_tree (gshape g) r kids dep" "ghost_blks_ok g" "ghost_vtrs_ok g" "ghost_stake_ok g"
    "ghost_width g = 1 + extra_kids g kids"
  using assms by (simp_all add: ghost_inv_def)

lemma blks_okD:
  assumes "ghost_blks_ok g"
  shows "blk_pool_max g < 2 ^ 64" "distinct (blk_free g)" "i \<in> dom (blk_pool g) \<Longrightarrow> i \<notin> set (blk_free g)"
    "dom (blk_pool g) \<union> set (blk_free g) = {..<blk_pool_max g}"
    "blk_map g k = Some i \<longleftrightarrow> (\<exists>b. blk_pool g i = Some b \<and> blk_id b = k)"
  using assms by (auto simp: ghost_blks_ok_def)

lemma card_blks: "ghost_blks_ok g \<Longrightarrow> card (dom (blk_pool g)) \<le> blk_pool_max g"
  by (metis blks_okD(4) card_lessThan card_mono finite_lessThan sup_ge1)

lemma blk_map_of: "ghost_blks_ok g \<Longrightarrow> blk_pool g i = Some b \<Longrightarrow> blk_map g (blk_id b) = Some i"
  by (simp add: blks_okD(5))

lemma blk_map_none: "ghost_blks_ok g \<Longrightarrow> blk_map g k = None \<longleftrightarrow> (\<forall>i b. blk_pool g i = Some b \<longrightarrow> blk_id b \<noteq> k)"
  by (metis blks_okD(5) not_None_eq)

lemma vtrs_okD:
  assumes "ghost_vtrs_ok g"
  shows "distinct (vtr_free g)" "v \<in> dom (vtr_pool g) \<Longrightarrow> v \<notin> set (vtr_free g)"
    "vtr_map g k = Some v \<longleftrightarrow> (\<exists>w. vtr_pool g v = Some w \<and> vtr_addr w = k)" "distinct (blk_vtr_dlist g i)"
    "v \<in> set (blk_vtr_dlist g i) \<longleftrightarrow>
       (\<exists>w b. vtr_pool g v = Some w \<and> blk_pool g i = Some b \<and> vtr_prev_block_id w = blk_id b)"
    "v \<in> dom (vtr_pool g) \<Longrightarrow> \<exists>i. v \<in> set (blk_vtr_dlist g i)"
  using assms unfolding ghost_vtrs_ok_def by blast+

lemma dlist_nil: "ghost_vtrs_ok g \<Longrightarrow> blk_pool g i = None \<Longrightarrow> blk_vtr_dlist g i = []"
  using vtrs_okD(5) [of g _ i] by (cases "blk_vtr_dlist g i") auto

lemma votes_on_nil: "ghost_vtrs_ok g \<Longrightarrow> blk_pool g i = None \<Longrightarrow> votes_on g i = 0"
  by (simp add: votes_on_def dlist_nil)

text \<open>Changes of blocks that keep the ids and the links keep everything but the stakes.\<close>

definition same_blks :: "fd_ghost \<Rightarrow> fd_ghost \<Rightarrow> bool" where
  "same_blks g g' \<longleftrightarrow> (\<forall>i. map_option (\<lambda>b. (blk_id b, links_of b)) (blk_pool g' i) = map_option (\<lambda>b. (blk_id b, links_of b)) (blk_pool g i))"

lemma same_blksD:
  assumes "same_blks g g'"
  shows "gshape g' = gshape g" "dom (blk_pool g') = dom (blk_pool g)"
    "map_option blk_id (blk_pool g' i) = map_option blk_id (blk_pool g i)"
proof -
  have e: "map_option (\<lambda>b. (blk_id b, links_of b)) (blk_pool g' i) = map_option (\<lambda>b. (blk_id b, links_of b)) (blk_pool g i)" for i
    using assms by (simp add: same_blks_def)
  have "map_option links_of (blk_pool g' i) = map_option links_of (blk_pool g i)" for i
    using arg_cong [OF e [of i], of "map_option snd"] by (simp add: option.map_comp o_def)
  then show "gshape g' = gshape g"
    by (auto simp: shape_def)
  then show "dom (blk_pool g') = dom (blk_pool g)"
    by (metis dom_shape)
  show "map_option blk_id (blk_pool g' i) = map_option blk_id (blk_pool g i)"
    using arg_cong [OF e [of i], of "map_option fst"] by (simp add: option.map_comp o_def)
qed

lemma same_blks_id: "same_blks g g' \<Longrightarrow> (\<exists>b. blk_pool g' i = Some b \<and> blk_id b = k) \<longleftrightarrow> (\<exists>b. blk_pool g i = Some b \<and> blk_id b = k)"
  using same_blksD(3) [of g g' i] by (cases "blk_pool g i"; cases "blk_pool g' i") auto

lemma same_blks_ok:
  assumes "same_blks g g'" "blk_map g' = blk_map g" "blk_free g' = blk_free g" "blk_pool_max g' = blk_pool_max g" "ghost_blks_ok g"
  shows "ghost_blks_ok g'"
  using assms(5) unfolding ghost_blks_ok_def assms(2-4) same_blksD(2) [OF assms(1)] same_blks_id [OF assms(1)] .

lemma same_vtrs_ok:
  assumes "same_blks g g'" "vtr_pool g' = vtr_pool g" "vtr_free g' = vtr_free g" "vtr_map g' = vtr_map g"
    "blk_vtr_dlist g' = blk_vtr_dlist g" "ghost_vtrs_ok g"
  shows "ghost_vtrs_ok g'"
proof -
  have eq: "(\<exists>w b. vtr_pool g v = Some w \<and> blk_pool g' i = Some b \<and> vtr_prev_block_id w = blk_id b) \<longleftrightarrow>
      (\<exists>w b. vtr_pool g v = Some w \<and> blk_pool g i = Some b \<and> vtr_prev_block_id w = blk_id b)" for v i
    using same_blks_id [OF assms(1), of i] by metis
  show ?thesis
    using assms(6) unfolding ghost_vtrs_ok_def assms(2-5) eq .
qed

lemma same_blks_upd_on:
  assumes "\<And>b. links_of (F b) = links_of b" "\<And>b. blk_id (F b) = blk_id b"
  shows "same_blks g (g\<lparr>blk_pool := upd_on A F (blk_pool g)\<rparr>)"
  using assms by (auto simp: same_blks_def upd_on_def option.map_comp o_def)

text \<open>Changing only the validity or the queue links of blocks keeps the invariant.\<close>

lemma same_stake_inv:
  assumes inv: "ghost_inv g r kids dep"
    and same: "\<And>i. map_option (\<lambda>b. (blk_id b, links_of b, blk_stake b)) (blk_pool g' i) = map_option (\<lambda>b. (blk_id b, links_of b, blk_stake b)) (blk_pool g i)"
    and rest: "ghost_root g' = ghost_root g" "ghost_width g' = ghost_width g" "blk_pool_max g' = blk_pool_max g"
      "blk_free g' = blk_free g" "blk_map g' = blk_map g" "vtr_pool g' = vtr_pool g" "vtr_free g' = vtr_free g"
      "vtr_map g' = vtr_map g" "blk_vtr_dlist g' = blk_vtr_dlist g"
  shows "ghost_inv g' r kids dep"
proof -
  have sb: "same_blks g g'"
  proof -
    have "map_option (\<lambda>(a, b, c). (a, b)) (map_option (\<lambda>b. (blk_id b, links_of b, blk_stake b)) (blk_pool g' i)) =
        map_option (\<lambda>(a, b, c). (a, b)) (map_option (\<lambda>b. (blk_id b, links_of b, blk_stake b)) (blk_pool g i))" for i
      by (simp only: same)
    then show ?thesis
      by (simp add: same_blks_def option.map_comp o_def)
  qed
  have st: "map_option blk_stake (blk_pool g' i) = map_option blk_stake (blk_pool g i)" for i
    using arg_cong [OF same [of i], of "map_option (snd \<circ> snd)"] by (simp add: option.map_comp o_def)
  have votes: "votes_on g' = votes_on g"
    by (simp add: votes_on_def rest fun_eq_iff)
  have "ghost_stake_ok g'"
    unfolding ghost_stake_ok_def same_blksD(1) [OF sb] votes
  proof (intro allI impI)
    fix i b
    assume "blk_pool g' i = Some b"
    then obtain b0 where "blk_pool g i = Some b0" "blk_stake b0 = blk_stake b"
      using st [of i] by (cases "blk_pool g i") auto
    then show "blk_stake b = (\<Sum>j \<in> desc (gshape g) i. votes_on g j)"
      using ghost_invD(5) [OF inv] by (auto simp: ghost_stake_ok_def)
  qed
  then show ?thesis
    using ghost_invD [OF inv] same_blks_ok [OF sb rest(5,4,3)] same_vtrs_ok [OF sb rest(6-9)] rest same_blksD(1,2) [OF sb]
    by (simp add: ghost_inv_def extra_kids_def)
qed

end
