(* ===== verification/Ghost_Vote.thy ===== *)
theory Ghost_Vote
  imports Ghost_Inv
begin

text \<open>Counting a vote: the previous vote of the voter is unwound and the new one recorded.\<close>

text \<open>The ghost without voter \<open>v\<close>, who is in transit from one block to another.\<close>

definition forget :: "nat \<Rightarrow> bytes \<Rightarrow> fd_ghost \<Rightarrow> fd_ghost" where
  "forget v acc g = g\<lparr>vtr_pool := (vtr_pool g)(v := None), vtr_map := (vtr_map g)(acc := None)\<rparr>"

lemma forget_simps [simp]:
  "blk_pool (forget v acc g) = blk_pool g" "blk_map (forget v acc g) = blk_map g" "blk_free (forget v acc g) = blk_free g"
  "blk_pool_max (forget v acc g) = blk_pool_max g" "ghost_root (forget v acc g) = ghost_root g"
  "ghost_width (forget v acc g) = ghost_width g" "blk_vtr_dlist (forget v acc g) = blk_vtr_dlist g"
  "vtr_pool (forget v acc g) = (vtr_pool g)(v := None)" "vtr_map (forget v acc g) = (vtr_map g)(acc := None)"
  "vtr_free (forget v acc g) = vtr_free g"
  by (simp_all add: forget_def)

lemma desc_iff_anc: "j \<in> dom s \<Longrightarrow> j \<in> desc s i \<longleftrightarrow> i \<in> anc s j"
  by (simp add: desc_def)

lemma finite_desc: "ghost_tree s r kids dep \<Longrightarrow> finite (desc s i)"
  using ghost_treeD(1) desc_dom finite_subset by metis

text \<open>Adding an amount at one block adds it to the sum of each of its ancestors.\<close>

lemma sum_desc_add:
  fixes f f' :: "nat \<Rightarrow> nat"
  assumes t: "ghost_tree s r kids dep" and k: "k \<in> dom s" and f': "f' k = f k + x" "\<And>j. j \<noteq> k \<Longrightarrow> f' j = f j"
  shows "(\<Sum>j \<in> desc s i. f' j) = (\<Sum>j \<in> desc s i. f j) + (if i \<in> anc s k then x else 0)"
proof (cases "k \<in> desc s i")
  case True
  have "(\<Sum>j \<in> desc s i. f' j) = f' k + (\<Sum>j \<in> desc s i - {k}. f' j)"
    using sum.remove [OF finite_desc [OF t] True, of f'] .
  also have "(\<Sum>j \<in> desc s i - {k}. f' j) = (\<Sum>j \<in> desc s i - {k}. f j)"
    using f'(2) by (intro sum.cong) auto
  finally show ?thesis
    using sum.remove [OF finite_desc [OF t] True, of f] f'(1) True desc_iff_anc [OF k] by simp
next
  case False
  then have "(\<Sum>j \<in> desc s i. f' j) = (\<Sum>j \<in> desc s i. f j)"
    by (intro sum.cong refl f'(2)) auto
  then show ?thesis
    using False desc_iff_anc [OF k] by simp
qed

lemma stake_okD: "ghost_stake_ok g \<Longrightarrow> blk_pool g i = Some b \<Longrightarrow> blk_stake b = (\<Sum>j \<in> desc (gshape g) i. votes_on g j)"
  by (simp add: ghost_stake_ok_def)

lemma votes_on_remove:
  assumes "distinct (blk_vtr_dlist g k)" "v \<in> set (blk_vtr_dlist g k)" "vtr_pool g v = Some w"
  shows "votes_on g k = (\<Sum>x \<in> set (remove1 v (blk_vtr_dlist g k)). vtr_prev_stake (the (vtr_pool g x))) + vtr_prev_stake w"
  using sum.remove [of "set (blk_vtr_dlist g k)" v "\<lambda>x. vtr_prev_stake (the (vtr_pool g x))"] assms
  by (simp add: votes_on_def set_remove1_eq)

text \<open>What a change of stakes and voters has to keep.\<close>

lemma ghost_inv_votes:
  assumes inv: "ghost_inv g r kids dep" and sb: "same_blks g g'"
    and rest: "ghost_root g' = ghost_root g" "ghost_width g' = ghost_width g" "blk_pool_max g' = blk_pool_max g"
      "blk_free g' = blk_free g" "blk_map g' = blk_map g"
    and vtrs: "ghost_vtrs_ok g'"
    and stake: "\<And>i b. blk_pool g' i = Some b \<Longrightarrow> blk_stake b = (\<Sum>j \<in> desc (gshape g) i. votes_on g' j)"
  shows "ghost_inv g' r kids dep"
proof -
  have "ghost_stake_ok g'"
    unfolding ghost_stake_ok_def same_blksD(1) [OF sb] using stake by blast
  then show ?thesis
    using ghost_invD(1,2,3,6) [OF inv] same_blks_ok [OF sb rest(5,4,3)] vtrs same_blksD(1,2) [OF sb]
    by (simp add: ghost_inv_def extra_kids_def rest)
qed

text \<open>The block the voter was on, and what its ancestors lose.\<close>

lemma voter_block:
  assumes inv: "ghost_inv g r kids dep" and v: "vtr_pool g v = Some w" and k: "blk_map g (vtr_prev_block_id w) = Some k"
  shows "k \<in> dom (blk_pool g)" "v \<in> set (blk_vtr_dlist g k)" "v \<in> set (blk_vtr_dlist g i) \<Longrightarrow> i = k"
proof -
  note V = vtrs_okD [OF ghost_invD(4) [OF inv]] and B = ghost_invD(3) [OF inv]
  show only: "i = k" if "v \<in> set (blk_vtr_dlist g i)" for i
    using that V(5) [of v i] v k blk_map_of [OF B, of i] by auto
  obtain i where "v \<in> set (blk_vtr_dlist g i)"
    using V(6) [of v] v by blast
  then show "v \<in> set (blk_vtr_dlist g k)"
    using only by auto
  then show "k \<in> dom (blk_pool g)"
    using V(5) [of v k] by auto
qed

lemma voter_stake:
  assumes inv: "ghost_inv g r kids dep" and v: "vtr_pool g v = Some w" and k: "blk_map g (vtr_prev_block_id w) = Some k"
  shows "(\<Sum>j \<in> desc (gshape g) i. votes_on g j) =
      (\<Sum>j \<in> desc (gshape g) i. if j = k then votes_on g k - vtr_prev_stake w else votes_on g j) +
      (if i \<in> anc (gshape g) k then vtr_prev_stake w else 0)"
proof (rule sum_desc_add [OF ghost_invD(2) [OF inv]])
  show "k \<in> dom (gshape g)"
    using voter_block(1) [OF inv v k] by simp
  show "votes_on g k = (if k = k then votes_on g k - vtr_prev_stake w else votes_on g k) + vtr_prev_stake w"
    using votes_on_remove [OF vtrs_okD(4) [OF ghost_invD(4) [OF inv]] voter_block(2) [OF inv v k] v] by simp
qed simp

definition unwound :: "nat \<Rightarrow> fd_ghost_vtr \<Rightarrow> nat \<Rightarrow> fd_ghost \<Rightarrow> fd_ghost" where
  "unwound v w k g = g\<lparr>blk_vtr_dlist := (blk_vtr_dlist g)(k := remove1 v (blk_vtr_dlist g k)),
      blk_pool := upd_on (anc (gshape g) k) (\<lambda>b. b\<lparr>blk_stake := blk_stake b - vtr_prev_stake w\<rparr>) (blk_pool g)\<rparr>"

lemma unwind_vote_run:
  assumes inv: "ghost_inv g r kids dep" and v: "vtr_pool g v = Some w" and k: "blk_map g (vtr_prev_block_id w) = Some k"
  shows "unwind_vote v w g = Ok (unwound v w k g)"
proof -
  note I = ghost_invD [OF inv]
  let ?s = "gshape g" and ?ps = "vtr_prev_stake w"
  let ?g0 = "g\<lparr>blk_vtr_dlist := (blk_vtr_dlist g)(k := remove1 v (blk_vtr_dlist g k))\<rparr>"
  have kd: "k \<in> dom ?s" "k \<in> dom (blk_pool ?g0)"
    using voter_block(1) [OF inv v k] by simp_all
  have enough: "?ps \<le> blk_stake c" if "a \<in> anc ?s k" "blk_pool g a = Some c" for a c
    using voter_stake [OF inv v k, of a] stake_okD [OF I(5) that(2)] that(1) by simp
  have "card (anc ?s k) < blk_pool_max g + 1"
    using anc_card [OF I(2) kd(1)] card_blks [OF I(3)] by simp
  then have "walk_up (blk_pool_max g + 1) (\<lambda>b. blk_stake b < ?ps) 493 (\<lambda>b. b\<lparr>blk_stake := blk_stake b - ?ps\<rparr>) (Some k) ?g0 =
    (if \<exists>a \<in> anc (gshape ?g0) k. \<exists>b. blk_pool ?g0 a = Some b \<and> blk_stake b < ?ps then Err 493
     else Ok (?g0\<lparr>blk_pool := upd_on (anc (gshape ?g0) k) (\<lambda>b. b\<lparr>blk_stake := blk_stake b - ?ps\<rparr>) (blk_pool ?g0)\<rparr>))"
    using I(2) kd by (intro walk_up_spec) simp_all
  moreover have "\<not> (\<exists>a \<in> anc (gshape ?g0) k. \<exists>b. blk_pool ?g0 a = Some b \<and> blk_stake b < ?ps)"
    using enough by (auto simp: not_less)
  ultimately have "sub_stake_loop (blk_pool_max g + 1) ?ps (Some k) ?g0 = Ok (unwound v w k g)"
    unfolding sub_stake_loop_walk unwound_def by simp
  then show ?thesis
    by (simp add: unwind_vote_def k Let_def del: sub_stake_loop.simps)
qed

lemma unwind_vote_vtrs:
  assumes inv: "ghost_inv g r kids dep" and v: "vtr_pool g v = Some w" and k: "blk_map g (vtr_prev_block_id w) = Some k"
  shows "ghost_vtrs_ok (forget v (vtr_addr w) (unwound v w k g))"
    "votes_on (forget v (vtr_addr w) (unwound v w k g)) j = (if j = k then votes_on g k - vtr_prev_stake w else votes_on g j)"
proof -
  note V = vtrs_okD [OF ghost_invD(4) [OF inv]]
  let ?g1 = "forget v (vtr_addr w) (unwound v w k g)"
  have dl: "set (blk_vtr_dlist ?g1 i) = set (blk_vtr_dlist g i) - {v}" "distinct (blk_vtr_dlist ?g1 i)" for i
    using voter_block(3) [OF inv v k, of i] V(4) by (auto simp: unwound_def set_remove1_eq)
  have ids: "(\<exists>b. blk_pool ?g1 i = Some b \<and> x = blk_id b) \<longleftrightarrow> (\<exists>b. blk_pool g i = Some b \<and> x = blk_id b)" for i x
    unfolding unwound_def forget_simps upd_on_def by auto
  show "ghost_vtrs_ok ?g1"
    unfolding ghost_vtrs_ok_def
  proof (intro conjI allI ballI)
    show "distinct (blk_vtr_dlist ?g1 i)" for i
      by (rule dl)
    show "x \<in> set (blk_vtr_dlist ?g1 i) \<longleftrightarrow>
        (\<exists>w b. vtr_pool ?g1 x = Some w \<and> blk_pool ?g1 i = Some b \<and> vtr_prev_block_id w = blk_id b)" for i x
      unfolding dl(1) using V(5) [of x i] ids [of i] by (auto simp: unwound_def)
    show "\<exists>i. x \<in> set (blk_vtr_dlist ?g1 i)" if "x \<in> dom (vtr_pool ?g1)" for x
      unfolding dl(1) using that V(6) [of x] by (auto simp: unwound_def split: if_splits)
    show "vtr_map ?g1 a = Some x \<longleftrightarrow> (\<exists>w. vtr_pool ?g1 x = Some w \<and> vtr_addr w = a)" for a x
      using V(3) [of a x] V(3) [of a v] v by (auto simp: unwound_def)
  qed (use V(1,2) in \<open>auto simp: unwound_def\<close>)
  have "votes_on ?g1 j = (\<Sum>x \<in> set (blk_vtr_dlist g j) - {v}. vtr_prev_stake (the (vtr_pool g x)))"
    unfolding votes_on_def dl(1) by (intro sum.cong) (auto simp: unwound_def)
  moreover have "set (blk_vtr_dlist g j) - {v} = set (blk_vtr_dlist g j)" if "j \<noteq> k"
    using voter_block(3) [OF inv v k, of j] that by auto
  ultimately show "votes_on ?g1 j = (if j = k then votes_on g k - vtr_prev_stake w else votes_on g j)"
    using votes_on_remove [OF V(4) voter_block(2) [OF inv v k] v] V(4)
    by (cases "j = k") (simp_all add: votes_on_def set_remove1_eq)
qed

lemma unwind_vote_inv:
  assumes inv: "ghost_inv g r kids dep" and v: "vtr_pool g v = Some w" and k: "blk_map g (vtr_prev_block_id w) = Some k"
  shows "ghost_inv (forget v (vtr_addr w) (unwound v w k g)) r kids dep"
proof (rule ghost_inv_votes [OF inv _ _ _ _ _ _ unwind_vote_vtrs(1) [OF inv v k]])
  let ?g1 = "forget v (vtr_addr w) (unwound v w k g)"
  show "same_blks g ?g1"
    using same_blks_upd_on [of "\<lambda>b. b\<lparr>blk_stake := blk_stake b - vtr_prev_stake w\<rparr>" g "anc (gshape g) k"]
    by (simp add: same_blks_def unwound_def)
  show "blk_stake c = (\<Sum>j \<in> desc (gshape g) i. votes_on ?g1 j)" if c: "blk_pool ?g1 i = Some c" for i c
  proof -
    obtain c0 where c0: "blk_pool g i = Some c0"
        "blk_stake c = (if i \<in> anc (gshape g) k then blk_stake c0 - vtr_prev_stake w else blk_stake c0)"
      using c unfolding unwound_def forget_simps upd_on_def by (auto split: if_splits)
    show ?thesis
      using stake_okD [OF ghost_invD(5) [OF inv] c0(1)] voter_stake [OF inv v k, of i]
      unfolding c0(2) unwind_vote_vtrs(2) [OF inv v k] by (cases "i \<in> anc (gshape g) k") simp_all
  qed
qed (simp_all add: unwound_def)

text \<open>The ghost after voter \<open>v\<close> has been parked on block \<open>blk\<close>.\<close>

definition recorded :: "nat \<Rightarrow> bytes \<Rightarrow> nat \<Rightarrow> fd_ghost_vtr \<Rightarrow> nat \<Rightarrow> nat \<Rightarrow> fd_ghost \<Rightarrow> fd_ghost" where
  "recorded blk blkid v w stake slot g = g\<lparr>blk_vtr_dlist := (blk_vtr_dlist g)(blk := blk_vtr_dlist g blk @ [v]),
      blk_pool := upd_on (anc (gshape g) blk) (\<lambda>b. b\<lparr>blk_stake := blk_stake b + stake\<rparr>) (blk_pool g),
      vtr_pool := (vtr_pool g)(v \<mapsto> w\<lparr>vtr_prev_stake := stake, vtr_prev_slot := slot, vtr_prev_block_id := blkid\<rparr>)\<rparr>"

lemma record_vote_run:
  assumes t: "ghost_tree (gshape g) r kids dep" and m: "card (dom (blk_pool g)) \<le> blk_pool_max g"
    and bb: "blk_pool g blk = Some bb" and v: "vtr_pool g v = Some w"
  shows "record_vote blk v stake slot g =
    (if \<exists>a \<in> anc (gshape g) blk. \<exists>b. blk_pool g a = Some b \<and> blk_stake b + stake > ULONG_MAX then Err 515
     else Ok (FD_GHOST_SUCCESS, recorded blk (blk_id bb) v w stake slot g))"
proof -
  let ?g0 = "g\<lparr>blk_vtr_dlist := (blk_vtr_dlist g)(blk := blk_vtr_dlist g blk @ [v])\<rparr>"
  have "card (anc (gshape g) blk) < blk_pool_max g + 1"
    using anc_card [OF t, of blk] domI [of "blk_pool g", OF bb] m by simp
  then have "walk_up (blk_pool_max g + 1) (\<lambda>b. blk_stake b + stake > ULONG_MAX) 515 (\<lambda>b. b\<lparr>blk_stake := blk_stake b + stake\<rparr>) (Some blk) ?g0 =
    (if \<exists>a \<in> anc (gshape ?g0) blk. \<exists>b. blk_pool ?g0 a = Some b \<and> blk_stake b + stake > ULONG_MAX then Err 515
     else Ok (?g0\<lparr>blk_pool := upd_on (anc (gshape ?g0) blk) (\<lambda>b. b\<lparr>blk_stake := blk_stake b + stake\<rparr>) (blk_pool ?g0)\<rparr>))"
    using t bb by (intro walk_up_spec) auto
  moreover have "upd_on (anc (gshape g) blk) (\<lambda>b. b\<lparr>blk_stake := blk_stake b + stake\<rparr>) (blk_pool g) blk =
      Some (bb\<lparr>blk_stake := blk_stake bb + stake\<rparr>)"
    using bb by simp
  ultimately show ?thesis
    using v by (simp add: record_vote_def add_stake_loop_walk recorded_def blk_at_eq Let_def del: walk_up.simps)
qed

lemma record_vote_vtrs:
  assumes inv: "ghost_inv (forget v (vtr_addr w) g) r kids dep" and v: "vtr_pool g v = Some w" "vtr_map g (vtr_addr w) = Some v"
      "v \<notin> set (vtr_free g)"
    and bb: "blk_pool g blk = Some bb"
  shows "ghost_vtrs_ok (recorded blk (blk_id bb) v w stake slot g)"
    "votes_on (recorded blk (blk_id bb) v w stake slot g) j =
       (if j = blk then votes_on (forget v (vtr_addr w) g) blk + stake else votes_on (forget v (vtr_addr w) g) j)"
proof -
  let ?g0 = "forget v (vtr_addr w) g" and ?g2 = "recorded blk (blk_id bb) v w stake slot g"
  note V = vtrs_okD [OF ghost_invD(4) [OF inv]] and B = ghost_invD(3) [OF inv]
  have out: "v \<notin> set (blk_vtr_dlist g i)" for i
    using V(5) [of v i] by simp
  have dl: "set (blk_vtr_dlist ?g2 i) = (if i = blk then insert v (set (blk_vtr_dlist g i)) else set (blk_vtr_dlist g i))"
      "distinct (blk_vtr_dlist ?g2 i)" for i
    using V(4) out by (auto simp: recorded_def)
  have ids: "(\<exists>b. blk_pool ?g2 i = Some b \<and> x = blk_id b) \<longleftrightarrow> (\<exists>b. blk_pool g i = Some b \<and> x = blk_id b)" for i x
    by (auto simp: recorded_def upd_on_def)
  have only: "(\<exists>b. blk_pool g i = Some b \<and> blk_id bb = blk_id b) \<longleftrightarrow> i = blk" for i
    using blk_map_of [OF B, of i] blk_map_of [OF B, of blk] bb by auto
  show "ghost_vtrs_ok ?g2"
    unfolding ghost_vtrs_ok_def
  proof (intro conjI allI ballI)
    show "distinct (blk_vtr_dlist ?g2 i)" for i
      by (rule dl)
    show "x \<in> set (blk_vtr_dlist ?g2 i) \<longleftrightarrow>
        (\<exists>w b. vtr_pool ?g2 x = Some w \<and> blk_pool ?g2 i = Some b \<and> vtr_prev_block_id w = blk_id b)" for i x
      unfolding dl(1) using V(5) [of x i] ids [of i] only [of i] out [of i] by (auto simp: recorded_def)
    show "\<exists>i. x \<in> set (blk_vtr_dlist ?g2 i)" if "x \<in> dom (vtr_pool ?g2)" for x
      unfolding dl(1) using that V(6) [of x] by (cases "x = v") (auto simp: recorded_def)
    show "vtr_map ?g2 a = Some x \<longleftrightarrow> (\<exists>w. vtr_pool ?g2 x = Some w \<and> vtr_addr w = a)" for a x
      using V(3) [of a x] v by (cases "x = v"; cases "a = vtr_addr w") (auto simp: recorded_def)
  qed (use V(1,2) v in \<open>auto simp: recorded_def\<close>)
  have "votes_on ?g2 j = (\<Sum>x \<in> set (blk_vtr_dlist g j). vtr_prev_stake (the (vtr_pool g x))) + (if j = blk then stake else 0)"
  proof -
    have "(\<Sum>x \<in> set (blk_vtr_dlist g j). vtr_prev_stake (the (vtr_pool ?g2 x))) =
        (\<Sum>x \<in> set (blk_vtr_dlist g j). vtr_prev_stake (the (vtr_pool g x)))"
      using out [of j] by (intro sum.cong) (auto simp: recorded_def)
    then show ?thesis
      using out [of j] unfolding votes_on_def dl(1) by (auto simp: recorded_def)
  qed
  moreover have "votes_on ?g0 j = (\<Sum>x \<in> set (blk_vtr_dlist g j). vtr_prev_stake (the (vtr_pool g x)))" for j
    unfolding votes_on_def using out [of j] by (intro sum.cong) auto
  ultimately show "votes_on ?g2 j = (if j = blk then votes_on ?g0 blk + stake else votes_on ?g0 j)"
    by simp
qed

lemma record_vote_inv:
  assumes inv: "ghost_inv (forget v (vtr_addr w) g) r kids dep" and v: "vtr_pool g v = Some w" "vtr_map g (vtr_addr w) = Some v"
      "v \<notin> set (vtr_free g)"
    and bb: "blk_pool g blk = Some bb"
  shows "ghost_inv (recorded blk (blk_id bb) v w stake slot g) r kids dep"
proof (rule ghost_inv_votes [OF inv _ _ _ _ _ _ record_vote_vtrs(1) [OF assms]])
  let ?g0 = "forget v (vtr_addr w) g" and ?g2 = "recorded blk (blk_id bb) v w stake slot g"
  show "same_blks ?g0 ?g2"
    using same_blks_upd_on [of "\<lambda>b. b\<lparr>blk_stake := blk_stake b + stake\<rparr>" g "anc (gshape g) blk"]
    by (simp add: same_blks_def recorded_def)
  show "blk_stake c = (\<Sum>j \<in> desc (gshape ?g0) i. votes_on ?g2 j)" if c: "blk_pool ?g2 i = Some c" for i c
  proof -
    obtain c0 where c0: "blk_pool ?g0 i = Some c0"
        "blk_stake c = blk_stake c0 + (if i \<in> anc (gshape g) blk then stake else 0)"
      using c unfolding recorded_def upd_on_def by (auto split: if_splits)
    have "(\<Sum>j \<in> desc (gshape g) i. votes_on ?g2 j) = (\<Sum>j \<in> desc (gshape g) i. votes_on ?g0 j) + (if i \<in> anc (gshape g) blk then stake else 0)"
      using ghost_invD(2) [OF inv] bb record_vote_vtrs(2) [OF assms, of stake slot] by (intro sum_desc_add) auto
    then show ?thesis
      using stake_okD [OF ghost_invD(5) [OF inv] c0(1)] c0(2) by simp
  qed
qed (simp_all add: recorded_def)

subsection \<open>Counting a vote\<close>

text \<open>The latest vote of an account: its slot, its stake and the id of its block.\<close>

definition latest_vote :: "fd_ghost \<Rightarrow> bytes \<rightharpoonup> (nat \<times> nat \<times> bytes)" where
  "latest_vote g acc =
     Option.bind (vtr_map g acc) (\<lambda>v. map_option (\<lambda>w. (vtr_prev_slot w, vtr_prev_stake w, vtr_prev_block_id w)) (vtr_pool g v))"

text \<open>What counting a vote leaves alone.\<close>

definition same_tree :: "fd_ghost \<Rightarrow> fd_ghost \<Rightarrow> bool" where
  "same_tree g g' \<longleftrightarrow> ghost_root g' = ghost_root g \<and> ghost_width g' = ghost_width g \<and> blk_pool_max g' = blk_pool_max g \<and>
     blk_free g' = blk_free g \<and> blk_map g' = blk_map g \<and> same_blks g g'"

lemma same_blks_trans: "same_blks g g' \<Longrightarrow> same_blks g' g'' \<Longrightarrow> same_blks g g''"
  by (simp add: same_blks_def)

lemma unwound_tree: "same_tree g (unwound v w k g)"
  using same_blks_upd_on [of "\<lambda>b. b\<lparr>blk_stake := blk_stake b - vtr_prev_stake w\<rparr>" g "anc (gshape g) k"]
  by (simp add: same_tree_def unwound_def same_blks_def)

lemma recorded_tree: "same_tree g (recorded blk blkid v w stake slot g)"
  using same_blks_upd_on [of "\<lambda>b. b\<lparr>blk_stake := blk_stake b + stake\<rparr>" g "anc (gshape g) blk"]
  by (simp add: same_tree_def recorded_def same_blks_def)

lemma same_tree_trans: "same_tree g g' \<Longrightarrow> same_tree g' g'' \<Longrightarrow> same_tree g g''"
  using same_blks_trans by (auto simp: same_tree_def)

text \<open>A block's stake is at most the root's.\<close>

lemma stake_le_root:
  assumes inv: "ghost_inv g r kids dep" and "blk_pool g i = Some b" "blk_pool g r = Some rb"
  shows "blk_stake b \<le> blk_stake rb"
proof -
  have "desc (gshape g) i \<subseteq> desc (gshape g) r"
    using desc_root [OF ghost_invD(2) [OF inv]] desc_dom [of "gshape g" i] by simp
  then show ?thesis
    using assms(2,3) stake_okD [OF ghost_invD(5) [OF inv]] finite_desc [OF ghost_invD(2) [OF inv]]
    by (simp add: sum_mono2)
qed

lemma record_latest:
  assumes "vtr_map g acc = Some v" "vtr_pool g v = Some w" "\<And>a. vtr_map g a = Some v \<Longrightarrow> a = acc"
  shows "latest_vote (recorded blk blkid v w stake slot g) = (latest_vote g)(acc \<mapsto> (slot, stake, blkid))"
proof
  fix a
  show "latest_vote (recorded blk blkid v w stake slot g) a = ((latest_vote g)(acc \<mapsto> (slot, stake, blkid))) a"
    using assms(1,2) assms(3) [of a] by (cases "vtr_map g a") (auto simp: latest_vote_def recorded_def)
qed

text \<open>The outcome of recording, from a ghost in which the voter is in transit.\<close>

lemma record_vote_outcome:
  assumes inv: "ghost_inv (forget v acc g) r kids dep" and v: "vtr_pool g v = Some w" "vtr_map g acc = Some v" "v \<notin> set (vtr_free g)"
      "vtr_addr w = acc"
    and bb: "blk_pool g blk = Some bb" and rb: "blk_pool g r = Some rb"
  shows "(record_vote blk v stake slot g = Err 515 \<and> blk_stake rb + stake > ULONG_MAX) \<or>
    (\<exists>g'. record_vote blk v stake slot g = Ok (FD_GHOST_SUCCESS, g') \<and> ghost_inv g' r kids dep \<and> same_tree g g' \<and>
       latest_vote g' = (latest_vote g)(acc \<mapsto> (slot, stake, blk_id bb)))"
proof -
  have t: "ghost_tree (gshape g) r kids dep" "card (dom (blk_pool g)) \<le> blk_pool_max g"
    using ghost_invD(2) [OF inv] card_blks [OF ghost_invD(3) [OF inv]] by simp_all
  have uniq: "a = acc" if "vtr_map g a = Some v" for a
    using that vtrs_okD(3) [OF ghost_invD(4) [OF inv], of a v] by (auto split: if_splits)
  show ?thesis
  proof (cases "\<exists>a \<in> anc (gshape g) blk. \<exists>b. blk_pool g a = Some b \<and> blk_stake b + stake > ULONG_MAX")
    case True
    then obtain a b where "blk_pool g a = Some b" "blk_stake b + stake > ULONG_MAX"
      by blast
    moreover from this(1) have "blk_stake b \<le> blk_stake rb"
      using stake_le_root [OF inv, of a b rb] rb by simp
    ultimately have "blk_stake rb + stake > ULONG_MAX"
      by simp
    then show ?thesis
      using record_vote_run [OF t bb v(1)] True by simp
  next
    case False
    then have "record_vote blk v stake slot g = Ok (FD_GHOST_SUCCESS, recorded blk (blk_id bb) v w stake slot g)"
      using record_vote_run [OF t bb v(1)] by simp
    moreover have "ghost_inv (recorded blk (blk_id bb) v w stake slot g) r kids dep"
      using record_vote_inv [of v w g r kids dep blk bb] inv v bb by simp
    ultimately show ?thesis
      using recorded_tree record_latest [OF v(2,1) uniq] by blast
  qed
qed

text \<open>The part of the vote count behind the checks.\<close>

lemma count_new_voter:
  assumes inv: "ghost_inv g r kids dep" and new: "vtr_map g acc = None" and free: "vtr_free g = v # vs"
  defines "g1 \<equiv> g\<lparr>vtr_free := vs, vtr_map := (vtr_map g)(acc \<mapsto> v),
      vtr_pool := (vtr_pool g)(v \<mapsto> \<lparr>vtr_addr = acc, vtr_prev_stake = 0, vtr_prev_slot = 0, vtr_prev_block_id = []\<rparr>)\<rparr>"
  shows "acquire_vtr acc g = Ok (v, g1)" "ghost_inv (forget v acc g1) r kids dep" "same_tree g g1" "v \<notin> set vs"
    "latest_vote g1 = (latest_vote g)(acc \<mapsto> (0, 0, []))"
proof -
  note V = vtrs_okD [OF ghost_invD(4) [OF inv]]
  show "acquire_vtr acc g = Ok (v, g1)" "same_tree g g1"
    by (simp_all add: acquire_vtr_def free g1_def same_tree_def same_blks_def)
  show "v \<notin> set vs"
    using V(1) free by simp
  have none: "vtr_pool g v = None"
    using V(2) [of v] free by auto
  have fg: "forget v acc g1 = g\<lparr>vtr_free := vs\<rparr>"
    using none new by (simp add: forget_def g1_def fun_upd_idem)
  have "ghost_vtrs_ok (g\<lparr>vtr_free := vs\<rparr>)"
  proof -
    have vs: "distinct vs" "set vs \<inter> dom (vtr_pool g) = {}"
      using V(1,2) free by auto
    show ?thesis
      unfolding ghost_vtrs_ok_def
    proof (intro conjI allI ballI)
      show "\<exists>i. x \<in> set (blk_vtr_dlist (g\<lparr>vtr_free := vs\<rparr>) i)" if "x \<in> dom (vtr_pool (g\<lparr>vtr_free := vs\<rparr>))" for x
        using V(6) [of x] that by simp
    qed (use vs V(3-5) in simp_all)
  qed
  moreover have "votes_on (g\<lparr>vtr_free := vs\<rparr>) = votes_on g"
    by (simp add: votes_on_def fun_eq_iff)
  ultimately show "ghost_inv (forget v acc g1) r kids dep"
    unfolding fg using stake_okD [OF ghost_invD(5) [OF inv]] by (intro ghost_inv_votes [OF inv]) (auto simp: same_blks_def)
  show "latest_vote g1 = (latest_vote g)(acc \<mapsto> (0, 0, []))"
  proof
    fix a
    show "latest_vote g1 a = ((latest_vote g)(acc \<mapsto> (0, 0, []))) a"
      using V(3) [of a v] none by (cases "vtr_map g a") (auto simp: latest_vote_def g1_def)
  qed
qed

text \<open>The three ways a vote is turned down, and the outcome of one that counts.\<close>

lemma latest_vote_iff:
  assumes inv: "ghost_inv g r kids dep"
  shows "latest_vote g acc = Some (s, st, k) \<longleftrightarrow>
    (\<exists>v w. vtr_map g acc = Some v \<and> vtr_pool g v = Some w \<and> s = vtr_prev_slot w \<and> st = vtr_prev_stake w \<and> k = vtr_prev_block_id w)"
  by (auto simp: latest_vote_def bind_eq_Some_conv)

lemma latest_vote_none: "ghost_inv g r kids dep \<Longrightarrow> latest_vote g acc = None \<longleftrightarrow> vtr_map g acc = None"
  using vtrs_okD(3) [OF ghost_invD(4), of g r kids dep acc] by (cases "vtr_map g acc") (auto simp: latest_vote_def)

lemma count_vote_turned_down:
  assumes inv: "ghost_inv g r kids dep" and rb: "blk_pool g r = Some rb"
  shows "slot = ULONG_MAX \<Longrightarrow> fd_ghost_count_vote blk acc stake slot g = Ok (FD_GHOST_ERR_NOT_VOTED, g)"
    "slot \<noteq> ULONG_MAX \<Longrightarrow> slot < blk_slot rb \<Longrightarrow> fd_ghost_count_vote blk acc stake slot g = Ok (FD_GHOST_ERR_VOTE_TOO_OLD, g)"
    "slot \<noteq> ULONG_MAX \<Longrightarrow> \<not> slot < blk_slot rb \<Longrightarrow> latest_vote g acc = Some (s, st, k) \<Longrightarrow> slot \<le> s \<Longrightarrow>
       fd_ghost_count_vote blk acc stake slot g = Ok (FD_GHOST_ERR_ALREADY_VOTED, g)"
  using ghost_invD(1) [OF inv] rb
  by (auto simp: fd_ghost_count_vote_def fd_ghost_root_def blk_at_eq latest_vote_iff [OF inv])

lemma count_vote_counted:
  assumes inv: "ghost_inv g r kids dep" and rb: "blk_pool g r = Some rb" and bb: "blk_pool g blk = Some bb"
    and slot: "slot \<noteq> ULONG_MAX" "\<not> slot < blk_slot rb" and newer: "\<And>s st k. latest_vote g acc = Some (s, st, k) \<Longrightarrow> s < slot"
    and room: "latest_vote g acc = None \<Longrightarrow> vtr_free g \<noteq> []"
  shows "(fd_ghost_count_vote blk acc stake slot g = Err 515 \<and> blk_stake rb + stake > ULONG_MAX) \<or>
    (\<exists>g'. fd_ghost_count_vote blk acc stake slot g = Ok (FD_GHOST_SUCCESS, g') \<and> ghost_inv g' r kids dep \<and> same_tree g g' \<and>
       latest_vote g' = (latest_vote g)(acc \<mapsto> (slot, stake, blk_id bb)))"
proof (cases "vtr_map g acc")
  case None
  then obtain v vs where free: "vtr_free g = v # vs"
    using room latest_vote_none [OF inv] by (cases "vtr_free g") auto
  note N = count_new_voter [OF inv None free]
  let ?g1 = "g\<lparr>vtr_free := vs, vtr_map := (vtr_map g)(acc \<mapsto> v),
      vtr_pool := (vtr_pool g)(v \<mapsto> \<lparr>vtr_addr = acc, vtr_prev_stake = 0, vtr_prev_slot = 0, vtr_prev_block_id = []\<rparr>)\<rparr>"
  have run: "fd_ghost_count_vote blk acc stake slot g = record_vote blk v stake slot ?g1"
    using ghost_invD(1) [OF inv] rb slot None N(1) by (simp add: fd_ghost_count_vote_def fd_ghost_root_def blk_at_eq)
  have "(latest_vote ?g1)(acc \<mapsto> (slot, stake, blk_id bb)) = (latest_vote g)(acc \<mapsto> (slot, stake, blk_id bb))"
    using N(5) by simp
  then show ?thesis
    unfolding run using record_vote_outcome [OF N(2), of _ blk bb rb stake slot] N(4) rb bb same_tree_trans [OF N(3)] by force
next
  case (Some v)
  then obtain w where w: "vtr_pool g v = Some w" "vtr_addr w = acc"
    using vtrs_okD(3) [OF ghost_invD(4) [OF inv], of acc v] by auto
  obtain k where k: "blk_map g (vtr_prev_block_id w) = Some k"
    using vtrs_okD(5,6) [OF ghost_invD(4) [OF inv], of v] w(1) blk_map_of [OF ghost_invD(3) [OF inv]] by (metis domI option.inject)
  let ?g1 = "unwound v w k g"
  have v1: "vtr_pool ?g1 v = Some w" "vtr_map ?g1 acc = Some v" "v \<notin> set (vtr_free ?g1)" "vtr_free ?g1 = vtr_free g"
      "latest_vote ?g1 = latest_vote g"
    using w Some vtrs_okD(2) [OF ghost_invD(4) [OF inv], of v] by (auto simp: unwound_def latest_vote_def)
  have "vtr_prev_slot w < slot"
    using newer [of "vtr_prev_slot w"] Some w by (simp add: latest_vote_def)
  then have run: "fd_ghost_count_vote blk acc stake slot g = record_vote blk v stake slot ?g1"
    using ghost_invD(1) [OF inv] rb slot Some w unwind_vote_run [OF inv w(1) k]
    by (simp add: fd_ghost_count_vote_def fd_ghost_root_def blk_at_eq)
  obtain bb1 where bb1: "blk_pool ?g1 blk = Some bb1" "blk_id bb1 = blk_id bb"
    using bb by (cases "blk \<in> anc (gshape g) k") (auto simp: unwound_def)
  obtain rb1 where rb1: "blk_pool ?g1 r = Some rb1" "blk_stake rb1 \<le> blk_stake rb"
    using rb by (cases "r \<in> anc (gshape g) k") (auto simp: unwound_def)
  have inv1: "ghost_inv (forget v acc ?g1) r kids dep"
    using unwind_vote_inv [OF inv w(1) k] w(2) by simp
  show ?thesis
    unfolding run using record_vote_outcome [OF inv1 v1(1-3) w(2) bb1(1) rb1(1), of stake slot] rb1(2) bb1(2) v1(5)
      same_tree_trans [OF unwound_tree] by force
qed

end
