(* ===== verification/Ghost_Queue.thy ===== *)
theory Ghost_Queue
  imports Ghost_Vote
begin

text \<open>
  The breadth-first traversals: blocks waiting in the queue are linked through \<open>blk_next\<close> and are taken
  out of the block map while they wait.
\<close>

definition view :: "fd_ghost_blk \<Rightarrow> fd_ghost_blk" where
  "view b = b\<lparr>blk_next := None\<rparr>"

lemma view_simps [simp]:
  "blk_id (view b) = blk_id b" "blk_slot (view b) = blk_slot b" "links_of (view b) = links_of b" "blk_stake (view b) = blk_stake b"
  "blk_valid (view b) = blk_valid b" "view (b\<lparr>blk_next := n\<rparr>) = view b" "blk_parent (view b) = blk_parent b"
  "blk_child (view b) = blk_child b" "blk_sibling (view b) = blk_sibling b"
  by (simp_all add: view_def links_of_def)

definition same_view :: "(nat \<rightharpoonup> fd_ghost_blk) \<Rightarrow> (nat \<rightharpoonup> fd_ghost_blk) \<Rightarrow> bool" where
  "same_view h h' \<longleftrightarrow> (\<forall>i. map_option view (h' i) = map_option view (h i))"

lemma same_view_refl [simp]: "same_view h h"
  by (simp add: same_view_def)

lemma same_view_trans: "same_view h h' \<Longrightarrow> same_view h' h'' \<Longrightarrow> same_view h h''"
  by (simp add: same_view_def)

lemma same_viewD:
  assumes "same_view h h'"
  shows "shape h' = shape h" "dom h' = dom h" "h i = Some b \<Longrightarrow> \<exists>b'. h' i = Some b' \<and> view b' = view b"
    "h' i = Some b' \<Longrightarrow> \<exists>b. h i = Some b \<and> view b' = view b"
proof -
  have v: "map_option view (h' i) = map_option view (h i)" for i
    using assms by (simp add: same_view_def)
  have "map_option links_of (h' i) = map_option links_of (h i)" for i
    using arg_cong [OF v [of i], of "map_option links_of"] by (simp add: option.map_comp o_def)
  then show s: "shape h' = shape h"
    by (auto simp: shape_def)
  then show "dom h' = dom h"
    by (metis dom_shape)
  show "h i = Some b \<Longrightarrow> \<exists>b'. h' i = Some b' \<and> view b' = view b" "h' i = Some b' \<Longrightarrow> \<exists>b. h i = Some b \<and> view b' = view b"
    using v [of i] by (cases "h i"; cases "h' i"; simp)+
qed

lemma same_view_id:
  assumes "same_view h h'"
  shows "(\<exists>b. h' i = Some b \<and> blk_id b = k) \<longleftrightarrow> (\<exists>b. h i = Some b \<and> blk_id b = k)"
proof -
  have "map_option view (h' i) = map_option view (h i)"
    using assms by (simp add: same_view_def)
  from arg_cong [OF this, of "map_option blk_id"] have "map_option blk_id (h' i) = map_option blk_id (h i)"
    by (simp add: option.map_comp o_def)
  then show ?thesis
    by (cases "h i"; cases "h' i") auto
qed

lemma same_view_next: "h i = Some b \<Longrightarrow> same_view h (h(i \<mapsto> b\<lparr>blk_next := n\<rparr>))"
  by (simp add: same_view_def)

lemma view_fields: "view b' = view b \<Longrightarrow> blk_id b' = blk_id b \<and> links_of b' = links_of b \<and> blk_stake b' = blk_stake b \<and>
    blk_valid b' = blk_valid b \<and> blk_slot b' = blk_slot b"
  by (metis view_simps(1,2,3,4,5))

text \<open>The queue.\<close>

fun qseg :: "(nat \<rightharpoonup> fd_ghost_blk) \<Rightarrow> nat option \<Rightarrow> nat list \<Rightarrow> bool" where
  "qseg h q [] \<longleftrightarrow> q = None"
| "qseg h q (i # xs) \<longleftrightarrow> q = Some i \<and> (\<exists>b. h i = Some b \<and> qseg h (blk_next b) xs)"

lemma qseg_other: "i \<notin> set xs \<Longrightarrow> qseg (h(i := v)) q xs = qseg h q xs"
  by (induction xs arbitrary: q) auto

lemma qseg_enqueue:
  assumes "qseg h q xs" "xs \<noteq> []" "distinct xs" "c \<notin> set xs" "h (last xs) = Some tb" "h c = Some cb"
  shows "qseg ((h(last xs \<mapsto> tb\<lparr>blk_next := Some c\<rparr>))(c \<mapsto> cb\<lparr>blk_next := None\<rparr>)) q (xs @ [c])"
  using assms
proof (induction xs arbitrary: q)
  case (Cons x xs)
  show ?case
  proof (cases "xs = []")
    case True
    then show ?thesis
      using Cons.prems by auto
  next
    case False
    then have x: "x \<noteq> last xs" "x \<noteq> c"
      using Cons.prems(3,4) by auto
    obtain xb where xb: "q = Some x" "h x = Some xb" "qseg h (blk_next xb) xs"
      using Cons.prems(1) by auto
    have "qseg ((h(last xs \<mapsto> tb\<lparr>blk_next := Some c\<rparr>))(c \<mapsto> cb\<lparr>blk_next := None\<rparr>)) (blk_next xb) (xs @ [c])"
      using Cons.prems False by (intro Cons.IH [OF xb(3)]) simp_all
    then show ?thesis
      using xb(1,2) x False by (simp add: fun_upd_def)
  qed
qed simp

text \<open>The block map without the blocks in the queue.\<close>

definition queued_map :: "fd_ghost \<Rightarrow> nat set \<Rightarrow> bool" where
  "queued_map g Q \<longleftrightarrow> (\<forall>k i. blk_map g k = Some i \<longleftrightarrow> (\<exists>b. blk_pool g i = Some b \<and> blk_id b = k) \<and> i \<notin> Q)"

definition ids_inj :: "(nat \<rightharpoonup> fd_ghost_blk) \<Rightarrow> bool" where
  "ids_inj h \<longleftrightarrow> (\<forall>i j k. (\<exists>b. h i = Some b \<and> blk_id b = k) \<longrightarrow> (\<exists>b. h j = Some b \<and> blk_id b = k) \<longrightarrow> i = j)"

lemma ids_injD: "ids_inj h \<Longrightarrow> h i = Some b \<Longrightarrow> h j = Some c \<Longrightarrow> blk_id b = blk_id c \<Longrightarrow> i = j"
  unfolding ids_inj_def by blast

lemma queued_map_remove:
  assumes "queued_map g Q" "ids_inj (blk_pool g)" "blk_pool g i = Some b" "i \<notin> Q"
  shows "blk_map g (blk_id b) = Some i" "queued_map (g\<lparr>blk_map := (blk_map g)(blk_id b := None)\<rparr>) (insert i Q)"
proof -
  show "blk_map g (blk_id b) = Some i"
    using assms(1,3,4) by (simp add: queued_map_def)
  show "queued_map (g\<lparr>blk_map := (blk_map g)(blk_id b := None)\<rparr>) (insert i Q)"
    unfolding queued_map_def
  proof (intro allI)
    fix k j
    have "blk_map g k = Some j \<longleftrightarrow> (\<exists>c. blk_pool g j = Some c \<and> blk_id c = k) \<and> j \<notin> Q"
      using assms(1) by (simp add: queued_map_def)
    moreover have "j = i" if "blk_pool g j = Some c" "blk_id c = blk_id b" for c
      using ids_injD [OF assms(2) that(1) assms(3) that(2)] .
    ultimately show "blk_map (g\<lparr>blk_map := (blk_map g)(blk_id b := None)\<rparr>) k = Some j \<longleftrightarrow>
        (\<exists>c. blk_pool (g\<lparr>blk_map := (blk_map g)(blk_id b := None)\<rparr>) j = Some c \<and> blk_id c = k) \<and> j \<notin> insert i Q"
      using assms(3) by (cases "k = blk_id b") auto
  qed
qed

lemma queued_map_view:
  assumes "queued_map g Q" "same_view (blk_pool g) (blk_pool g')" "blk_map g' = blk_map g"
  shows "queued_map g' Q"
  using assms(1) unfolding queued_map_def assms(3) same_view_id [OF assms(2)] .

lemma ids_inj_view:
  assumes "ids_inj h" "same_view h h'"
  shows "ids_inj h'"
  using assms(1) unfolding ids_inj_def same_view_id [OF assms(2)] .

text \<open>The blocks of the queue have disjoint subtrees.\<close>

definition antichain :: "shape \<Rightarrow> nat list \<Rightarrow> bool" where
  "antichain s xs \<longleftrightarrow> distinct xs \<and> set xs \<subseteq> dom s \<and> (\<forall>x \<in> set xs. \<forall>y \<in> set xs. x \<noteq> y \<longrightarrow> desc s x \<inter> desc s y = {})"

lemma antichain_next:
  assumes t: "ghost_tree s r kids dep" and a: "antichain s (i # xs)" and ks: "set ks \<subseteq> set (kids i)" "distinct ks"
  shows "antichain s (xs @ ks)" "set (i # xs) \<inter> set ks = {}"
proof -
  have i: "i \<in> dom s" "distinct (i # xs)" "set xs \<subseteq> dom s"
    using a by (simp_all add: antichain_def)
  have kd: "k \<in> dom s" "desc s k \<subseteq> desc s i" "k \<in> desc s k" "i \<notin> desc s k" if "k \<in> set ks" for k
    using that ks(1) kid_dom [OF t i(1), of k] desc_kids [OF t i(1)] self_not_in_kid [OF t i(1), of k] desc_self [of k s] by auto
  have other: "desc s i \<inter> desc s x = {}" "x \<in> desc s x" if "x \<in> set xs" for x
    using that a i desc_self [of x s] by (auto simp: antichain_def)
  show "set (i # xs) \<inter> set ks = {}"
    using kd other i(1) desc_self [OF i(1)] by fastforce
  then have "distinct (xs @ ks)"
    using i(2) ks(2) by auto
  moreover have "desc s x \<inter> desc s y = {}" if xy: "x \<in> set (xs @ ks)" "y \<in> set (xs @ ks)" "x \<noteq> y" for x y
  proof -
    consider "x \<in> set xs" "y \<in> set xs" | "x \<in> set ks" "y \<in> set xs" | "x \<in> set xs" "y \<in> set ks" | "x \<in> set ks" "y \<in> set ks"
      using xy by auto
    then show ?thesis
    proof cases
      case 1
      then show ?thesis
        using a xy(3) by (simp add: antichain_def)
    next
      case 2
      then show ?thesis
        using kd(2) [of x] other(1) [of y] by blast
    next
      case 3
      then show ?thesis
        using kd(2) [of y] other(1) [of x] by blast
    next
      case 4
      then show ?thesis
        using desc_disjoint [OF t i(1), of x y] ks(1) xy(3) by blast
    qed
  qed
  moreover have "set (xs @ ks) \<subseteq> dom s"
    using i(3) kd(1) by (simp add: subset_iff)
  ultimately show "antichain s (xs @ ks)"
    unfolding antichain_def by blast
qed

subsection \<open>Enqueuing a block\<close>

definition queue_ok :: "fd_ghost \<Rightarrow> nat option \<Rightarrow> nat list \<Rightarrow> bool" where
  "queue_ok g q xs \<longleftrightarrow> qseg (blk_pool g) q xs \<and> distinct xs \<and> set xs \<subseteq> dom (blk_pool g) \<and>
     queued_map g (set xs) \<and> ids_inj (blk_pool g)"

definition same_rest :: "fd_ghost \<Rightarrow> fd_ghost \<Rightarrow> bool" where
  "same_rest g g' \<longleftrightarrow> same_view (blk_pool g) (blk_pool g') \<and> ghost_root g' = ghost_root g \<and>
     blk_pool_max g' = blk_pool_max g \<and> blk_free g' = blk_free g \<and> vtr_pool g' = vtr_pool g \<and> vtr_free g' = vtr_free g \<and>
     vtr_map g' = vtr_map g \<and> blk_vtr_dlist g' = blk_vtr_dlist g"

lemma same_rest_refl [simp]: "same_rest g g"
  by (simp add: same_rest_def)

lemma same_rest_trans: "same_rest g g' \<Longrightarrow> same_rest g' g'' \<Longrightarrow> same_rest g g''"
  using same_view_trans by (auto simp: same_rest_def)

definition enqueued :: "nat \<Rightarrow> nat \<Rightarrow> fd_ghost \<Rightarrow> fd_ghost" where
  "enqueued t c g = g\<lparr>blk_map := (blk_map g)(blk_id (the (blk_pool g c)) := None),
     blk_pool := ((blk_pool g)(t \<mapsto> (the (blk_pool g t))\<lparr>blk_next := Some c\<rparr>))(c \<mapsto> (the (blk_pool g c))\<lparr>blk_next := None\<rparr>)\<rparr>"

lemma enqueue:
  assumes q: "queue_ok g q xs" and xs: "xs \<noteq> []" "c \<notin> set xs" and c: "blk_pool g c = Some cb"
  shows "blk_map g (blk_id cb) = Some c"
    "rbind (blk_upd (last xs) (\<lambda>b. b\<lparr>blk_next := Some c\<rparr>) (g\<lparr>blk_map := (blk_map g)(blk_id cb := None)\<rparr>))
       (\<lambda>g. rbind (blk_upd c (\<lambda>b. b\<lparr>blk_next := None\<rparr>) g) k) = k (enqueued (last xs) c g)"
    "queue_ok (enqueued (last xs) c g) q (xs @ [c])" "same_rest g (enqueued (last xs) c g)"
    "ghost_width (enqueued (last xs) c g) = ghost_width g"
proof -
  have qs: "qseg (blk_pool g) q xs" "distinct xs" "set xs \<subseteq> dom (blk_pool g)" "queued_map g (set xs)" "ids_inj (blk_pool g)"
    using q by (simp_all add: queue_ok_def)
  have "last xs \<in> dom (blk_pool g)" "last xs \<noteq> c"
    using qs(3) xs last_in_set [OF xs(1)] by blast+
  then obtain tb where tb: "blk_pool g (last xs) = Some tb" "last xs \<noteq> c"
    by blast
  let ?h = "((blk_pool g)(last xs \<mapsto> tb\<lparr>blk_next := Some c\<rparr>))(c \<mapsto> cb\<lparr>blk_next := None\<rparr>)"
  let ?g1 = "g\<lparr>blk_map := (blk_map g)(blk_id cb := None)\<rparr>"
  have e: "enqueued (last xs) c g = g\<lparr>blk_map := (blk_map g)(blk_id cb := None), blk_pool := ?h\<rparr>"
    by (simp add: enqueued_def c tb(1))
  note rm = queued_map_remove [OF qs(4,5) c xs(2)]
  show "blk_map g (blk_id cb) = Some c"
    by (rule rm)
  show "rbind (blk_upd (last xs) (\<lambda>b. b\<lparr>blk_next := Some c\<rparr>) ?g1) (\<lambda>g. rbind (blk_upd c (\<lambda>b. b\<lparr>blk_next := None\<rparr>) g) k) =
      k (enqueued (last xs) c g)"
    unfolding e using tb c by (simp add: blk_upd_def blk_at_def)
  have view: "same_view (blk_pool g) ?h"
    using tb c by (simp add: same_view_def)
  have "queued_map (enqueued (last xs) c g) (set (xs @ [c]))"
    using queued_map_view [OF rm(2), of "enqueued (last xs) c g"] view e by simp
  then show "queue_ok (enqueued (last xs) c g) q (xs @ [c])"
    unfolding queue_ok_def using qseg_enqueue [OF qs(1) xs(1) qs(2) xs(2) tb(1) c] qs(2,3) xs(2) c ids_inj_view [OF qs(5) view] e
      same_viewD(2) [OF view] by auto
  show "same_rest g (enqueued (last xs) c g)" "ghost_width (enqueued (last xs) c g) = ghost_width g"
    unfolding e using view by (simp_all add: same_rest_def)
qed

end
