(* ===== verification/Ghost_Insert.thy ===== *)
theory Ghost_Insert
  imports Ghost_Vote
begin

text \<open>Creating the root and inserting a block.\<close>

subsection \<open>A tree with a new leaf\<close>

lemma tree_insert:
  assumes t: "ghost_tree s r kids dep" and p: "p \<in> dom s" and n: "n \<notin> dom s"
    and par: "\<And>j. parent_of s' j = (if j = n then Some p else parent_of s j)" and dom: "dom s' = insert n (dom s)"
    and N: "s' n = Some N" "lk_child N = None"
    and child: "\<And>i. i \<noteq> n \<Longrightarrow> i \<noteq> p \<Longrightarrow> map_option lk_child (s' i) = map_option lk_child (s i)"
    and sib: "\<And>i. i \<in> dom s \<Longrightarrow> i \<notin> set (kids p) \<Longrightarrow> map_option lk_sibling (s' i) = map_option lk_sibling (s i)"
    and P: "s' p = Some P" "sibs s' (lk_child P) (kids p @ [n])"
  shows "ghost_tree s' r (kids(p := kids p @ [n], n := [])) (dep(n := Suc (dep p)))"
proof -
  note T = ghost_treeD [OF t]
  have pn: "p \<noteq> n"
    using p n by auto
  have par_n: "parent_of s j \<noteq> Some n" for j
    using T(4) n by auto
  have kids_n: "n \<notin> set (kids i)" if "i \<in> dom s" for i
    using kid_dom [OF t that] n by auto
  have sibs': "sibs s' (lk_child l) ((kids(p := kids p @ [n], n := [])) i) \<and> distinct ((kids(p := kids p @ [n], n := [])) i) \<and>
      (\<forall>j. j \<in> set ((kids(p := kids p @ [n], n := [])) i) \<longleftrightarrow> parent_of s' j = Some i)" if l: "s' i = Some l" for i l
  proof -
    consider "i = n" | "i = p" | "i \<noteq> n" "i \<noteq> p" "i \<in> dom s"
      using l dom by auto
    then show ?thesis
    proof cases
      case 1
      then show ?thesis
        using l N par_n pn by (auto simp: par)
    next
      case 2
      then show ?thesis
        using l P pn T(8,9) [OF p] kids_n [OF p] by (auto simp: par)
    next
      case 3
      then obtain l0 where l0: "s i = Some l0" "lk_child l0 = lk_child l"
        using child [of i] l by auto
      have "j \<notin> set (kids p)" "j \<in> dom s" if "j \<in> set (kids i)" for j
        using that 3 T(9) [OF p, of j] T(9) [OF 3(3), of j] kid_dom [OF t 3(3)] by auto
      then have "sibs s' (lk_child l) (kids i)"
        using T(7) [OF l0(1)] l0(2) sib by (subst sibs_cong [of _ _ s]) auto
      then show ?thesis
        using 3 T(8,9) [OF 3(3)] kids_n [OF 3(3)] pn by (auto simp: par)
    qed
  qed
  have parents: "\<exists>q \<in> dom s'. parent_of s' i = Some q \<and> (dep(n := Suc (dep p))) i = Suc ((dep(n := Suc (dep p))) q)"
    if i: "i \<in> dom s'" "i \<noteq> r" for i
  proof (cases "i = n")
    case True
    then show ?thesis
      using p pn dom by (auto simp: par)
  next
    case False
    then have "i \<in> dom s"
      using i dom by auto
    then obtain q where "parent_of s i = Some q"
      using T(6) i(2) by (cases "parent_of s i") auto
    then show ?thesis
      using False T(4,5) [of i q] n dom par by auto
  qed
  show ?thesis
    unfolding ghost_tree_def using T(1-3) dom n par parents sibs' by auto
qed

lemma desc_insert:
  assumes t: "ghost_tree s r kids dep" and p: "p \<in> dom s" and n: "n \<notin> dom s"
    and par: "\<And>j. parent_of s' j = (if j = n then Some p else parent_of s j)" and dom: "dom s' = insert n (dom s)"
  shows "i \<in> dom s \<Longrightarrow> desc s' i = (if i \<in> anc s p then insert n (desc s i) else desc s i)" "desc s' n = {n}"
proof -
  have anc: "anc s' j = anc s j" if "j \<in> dom s" for j
    using anc_dom [OF t that] n by (intro anc_cong) (auto simp: par)
  have ancn: "anc s' n = insert n (anc s p)"
    using anc_step [of s' n p] anc [OF p] by (simp add: par)
  have anc': "(j, a) \<in> (par s')\<^sup>* \<longleftrightarrow> (j, a) \<in> (par s)\<^sup>*" if "j \<in> dom s" for j a
    using anc [OF that] by blast
  have ancn': "(n, a) \<in> (par s')\<^sup>* \<longleftrightarrow> a = n \<or> (p, a) \<in> (par s)\<^sup>*" for a
    using ancn by blast
  show "desc s' i = (if i \<in> anc s p then insert n (desc s i) else desc s i)" if "i \<in> dom s"
    using anc' ancn' n that unfolding desc_def dom by auto
  have "(j, n) \<notin> (par s)\<^sup>*" if "j \<in> dom s" for j
    using anc_dom [OF t that, of n] n by auto
  then show "desc s' n = {n}"
    using anc' ancn' unfolding desc_def dom by auto
qed

subsection \<open>Inserting a block\<close>

lemma last_sibling_run:
  "sibs (gshape g) (Some c) xs \<Longrightarrow> xs \<noteq> [] \<Longrightarrow> length xs \<le> fuel \<Longrightarrow> last_sibling fuel g c = Ok (last xs)"
proof (induction fuel arbitrary: c xs)
  case (Suc fuel)
  then obtain ys where xs: "xs = c # ys"
    by (cases xs) auto
  then obtain b where b: "blk_pool g c = Some b" "sibs (gshape g) (blk_sibling b) ys"
    using Suc.prems(1) by (auto simp: shape_eq_Some)
  show ?case
  proof (cases ys)
    case Nil
    then show ?thesis
      using b xs by (simp add: blk_at_eq)
  next
    case (Cons d zs)
    then have "blk_sibling b = Some d"
      using b(2) by simp
    then show ?thesis
      using Suc.IH [of d ys] b xs Cons Suc.prems(3) by (simp add: blk_at_eq)
  qed
qed simp

definition new_blk :: "nat \<Rightarrow> nat \<Rightarrow> bytes \<Rightarrow> nat option \<Rightarrow> fd_ghost_blk" where
  "new_blk bank_seq slot block_id p =
     \<lparr>blk_id = block_id, blk_slot = slot, blk_next = None, blk_parent = p, blk_child = None, blk_sibling = None,
      blk_stake = 0, blk_total_stake = 0, blk_valid = True, blk_bank_seq = bank_seq\<rparr>"

text \<open>The pool after the new block \<open>n\<close> has been linked below \<open>p\<close>, whose children are \<open>ks\<close>.\<close>

definition linked :: "nat \<Rightarrow> fd_ghost_blk \<Rightarrow> nat \<Rightarrow> nat list \<Rightarrow> (nat \<rightharpoonup> fd_ghost_blk) \<Rightarrow> (nat \<rightharpoonup> fd_ghost_blk)" where
  "linked n nb p ks h =
     (if ks = [] then (h(n \<mapsto> nb))(p \<mapsto> (the (h p))\<lparr>blk_child := Some n\<rparr>)
      else (h(n \<mapsto> nb))(last ks \<mapsto> (the (h (last ks)))\<lparr>blk_sibling := Some n\<rparr>))"

definition inserted :: "nat \<Rightarrow> fd_ghost_blk \<Rightarrow> nat \<Rightarrow> nat list \<Rightarrow> fd_ghost \<Rightarrow> fd_ghost" where
  "inserted n nb p ks g =
     g\<lparr>blk_free := tl (blk_free g), blk_map := (blk_map g)(blk_id nb \<mapsto> n), blk_pool := linked n nb p ks (blk_pool g),
       ghost_width := (if ks = [] then ghost_width g else ulong_add (ghost_width g) 1)\<rparr>"

lemma fd_ghost_insert_run:
  assumes inv: "ghost_inv g r kids dep" and new: "blk_map g block_id = None" "blk_free g = n # fs"
    and p: "blk_map g parent_block_id = Some p"
  shows "fd_ghost_insert bank_seq slot block_id parent_block_id g =
    Ok (n, inserted n (new_blk bank_seq slot block_id (Some p)) p (kids p) g)"
proof -
  note B = blks_okD [OF ghost_invD(3) [OF inv]] and T = ghost_treeD [OF ghost_invD(2) [OF inv]]
  obtain pb where pb: "blk_pool g p = Some pb"
    using p B(5) by blast
  have pd: "p \<in> dom (blk_pool g)" "n \<notin> dom (blk_pool g)" "p \<noteq> n"
    using pb B(3) [of n] B(3) [of p] new(2) by auto
  have ids: "parent_block_id \<noteq> block_id"
    using p new(1) by auto
  let ?nb = "new_blk bank_seq slot block_id (Some p)"
  let ?ob = "new_blk bank_seq slot block_id None"
  let ?g0 = "g\<lparr>blk_free := fs, blk_map := (blk_map g)(block_id \<mapsto> n), blk_pool := (blk_pool g)(n \<mapsto> ?ob)\<rparr>"
  let ?g1 = "g\<lparr>blk_free := fs, blk_map := (blk_map g)(block_id \<mapsto> n), blk_pool := (blk_pool g)(n \<mapsto> ?nb)\<rparr>"
  have ins: "ghost_insert bank_seq slot block_id g = Ok (n, ?g0)"
    using new by (simp add: ghost_insert_def CHECK_def new_blk_def)
  have nbs: "?ob\<lparr>blk_parent := Some p\<rparr> = ?nb"
    by (simp add: new_blk_def)
  have upd: "blk_upd n (\<lambda>b. b\<lparr>blk_parent := Some p\<rparr>) ?g0 = Ok ?g1"
    using blk_upd_eq [of ?g0 n ?ob "\<lambda>b. b\<lparr>blk_parent := Some p\<rparr>"] nbs by simp
  have at: "blk_at ?g1 p = Ok pb" "blk_map ?g0 parent_block_id = Some p"
    using pb pd(3) p ids by (simp_all add: blk_at_def)
  have run: "fd_ghost_insert bank_seq slot block_id parent_block_id g =
    (case blk_child pb of
       None \<Rightarrow> rbind (blk_upd p (\<lambda>b. b\<lparr>blk_child := Some n\<rparr>) ?g1) (\<lambda>g. Ok (n, g))
     | Some child \<Rightarrow>
         rbind (last_sibling (blk_pool_max ?g1 + 1) ?g1 child) (\<lambda>sibling.
         rbind (blk_upd sibling (\<lambda>b. b\<lparr>blk_sibling := Some n\<rparr>) ?g1) (\<lambda>g.
         Ok (n, g\<lparr>ghost_width := ulong_add (ghost_width g) 1\<rparr>))))"
    unfolding fd_ghost_insert_def ins rbind.simps prod.case at(2) option.case upd at(1) ..
  have sibs: "sibs (gshape g) (blk_child pb) (kids p)"
    using T(7) [OF shape_some [of "blk_pool g", OF pb]] by simp
  show ?thesis
  proof (cases "kids p = []")
    case True
    then have "blk_child pb = None"
      using sibs by simp
    then show ?thesis
      using run True pb pd(3) new(2) blk_upd_eq [of ?g1 p pb] by (simp add: inserted_def linked_def new_blk_def)
  next
    case False
    let ?l = "last (kids p)"
    have ld: "?l \<in> dom (blk_pool g)" "n \<notin> set (kids p)"
      using kid_dom [OF ghost_invD(2) [OF inv], of p] pd False by auto
    then obtain lb where lb: "blk_pool g ?l = Some lb" "?l \<noteq> n"
      using pd(2) by auto
    obtain c where c: "blk_child pb = Some c"
      using sibs False by (cases "kids p") auto
    have "sibs (gshape ?g1) (Some c) (kids p)"
      using sibs c ld(2) by (subst sibs_cong [of _ _ "gshape g"]) auto
    then have "last_sibling (blk_pool_max ?g1 + 1) ?g1 c = Ok ?l"
      using length_kids [OF ghost_invD(2) [OF inv], of p] pd(1) card_blks [OF ghost_invD(3) [OF inv]] False
      by (intro last_sibling_run) simp_all
    then show ?thesis
      using run False c lb new(2) blk_upd_eq [of ?g1 ?l lb]
      by (simp add: inserted_def linked_def new_blk_def del: last_sibling.simps)
  qed
qed

lemma linked_new:
  assumes "n \<notin> dom h" "p \<in> dom h" "set ks \<subseteq> dom h"
  shows "linked n nb p ks h n = Some nb" "dom (linked n nb p ks h) = insert n (dom h)"
    "i \<noteq> n \<Longrightarrow> map_option blk_id (linked n nb p ks h i) = map_option blk_id (h i)"
    "i \<noteq> n \<Longrightarrow> map_option blk_stake (linked n nb p ks h i) = map_option blk_stake (h i)"
    "i \<noteq> n \<Longrightarrow> map_option blk_parent (linked n nb p ks h i) = map_option blk_parent (h i)"
    "i \<noteq> n \<Longrightarrow> i \<noteq> p \<Longrightarrow> map_option blk_child (linked n nb p ks h i) = map_option blk_child (h i)"
    "i \<noteq> n \<Longrightarrow> i \<notin> set ks \<Longrightarrow> map_option blk_sibling (linked n nb p ks h i) = map_option blk_sibling (h i)"
proof -
  obtain x f xb where x: "h x = Some xb" "x \<noteq> n" "linked n nb p ks h = (h(n \<mapsto> nb))(x \<mapsto> f xb)"
      and f: "blk_id (f xb) = blk_id xb" "blk_stake (f xb) = blk_stake xb" "blk_parent (f xb) = blk_parent xb"
      and links: "x = p \<and> blk_sibling (f xb) = blk_sibling xb \<or> x \<in> set ks \<and> blk_child (f xb) = blk_child xb"
  proof (cases "ks = []")
    case True
    obtain pb where "h p = Some pb"
      using assms(2) by blast
    with True show thesis
      using assms(1) by (intro that [of p pb "\<lambda>b. b\<lparr>blk_child := Some n\<rparr>"]) (auto simp: linked_def)
  next
    case False
    then have "last ks \<in> set ks"
      by simp
    moreover obtain lb where "h (last ks) = Some lb"
      using calculation assms(3) by blast
    ultimately show thesis
      using False assms(1) by (intro that [of "last ks" lb "\<lambda>b. b\<lparr>blk_sibling := Some n\<rparr>"]) (auto simp: linked_def)
  qed
  show "linked n nb p ks h n = Some nb" "dom (linked n nb p ks h) = insert n (dom h)"
    using x by auto
  show "i \<noteq> n \<Longrightarrow> map_option blk_id (linked n nb p ks h i) = map_option blk_id (h i)"
    "i \<noteq> n \<Longrightarrow> map_option blk_stake (linked n nb p ks h i) = map_option blk_stake (h i)"
    "i \<noteq> n \<Longrightarrow> map_option blk_parent (linked n nb p ks h i) = map_option blk_parent (h i)"
    using x f by simp_all
  show "i \<noteq> n \<Longrightarrow> i \<noteq> p \<Longrightarrow> map_option blk_child (linked n nb p ks h i) = map_option blk_child (h i)"
    "i \<noteq> n \<Longrightarrow> i \<notin> set ks \<Longrightarrow> map_option blk_sibling (linked n nb p ks h i) = map_option blk_sibling (h i)"
    using x links by auto
qed

lemma shape_field: "map_option lk_parent (shape h i) = map_option blk_parent (h i)"
  "map_option lk_child (shape h i) = map_option blk_child (h i)" "map_option lk_sibling (shape h i) = map_option blk_sibling (h i)"
  by (simp_all add: shape_def option.map_comp o_def)

lemma parent_of_field: "parent_of s i = Option.bind (map_option lk_parent (s i)) (\<lambda>p. p)"
  by (cases "s i") (simp_all add: parent_of_def)

lemma linked_sibs:
  assumes t: "ghost_tree (shape h) r kids dep" and p: "h p = Some pb" and n: "n \<notin> dom h"
    and nb: "blk_sibling nb = None"
  shows "\<exists>P. shape (linked n nb p (kids p) h) p = Some P \<and> sibs (shape (linked n nb p (kids p) h)) (lk_child P) (kids p @ [n])"
proof -
  have pn: "p \<noteq> n"
    using p n by auto
  have sibs: "sibs (shape h) (blk_child pb) (kids p)" and d: "distinct (kids p)" and kn: "n \<notin> set (kids p)"
    using ghost_treeD(7) [OF t shape_some [of h, OF p]] ghost_treeD(8) [OF t, of p] kid_dom [OF t, of p n] p n by auto
  show ?thesis
  proof (cases "kids p = []")
    case True
    then show ?thesis
      using pn nb by (auto simp: linked_def)
  next
    case False
    then have lk: "last (kids p) \<in> set (kids p)"
      by simp
    have pd: "p \<in> dom (shape h)"
      using p by auto
    obtain lb where lb: "h (last (kids p)) = Some lb" "last (kids p) \<noteq> n"
      using kid_dom [OF t pd lk] kn lk by auto
    have lp: "last (kids p) \<noteq> p"
      using self_not_in_kid [OF t pd lk] desc_self [OF kid_dom [OF t pd lk]] by auto
    have "sibs ((shape h)(n \<mapsto> links_of nb)) (blk_child pb) (kids p)"
      using sibs kn by (subst sibs_cong [of _ _ "shape h"]) auto
    then have "sibs (((shape h)(n \<mapsto> links_of nb))(last (kids p) \<mapsto> (links_of lb)\<lparr>lk_sibling := Some n\<rparr>)) (blk_child pb) (kids p @ [n])"
      using False d kn nb lb by (intro sibs_snoc [where m = "links_of nb"]) (auto simp: shape_def)
    moreover have "(links_of lb)\<lparr>lk_sibling := Some n\<rparr> = links_of (lb\<lparr>blk_sibling := Some n\<rparr>)"
      by (simp add: links_of_def)
    ultimately show ?thesis
      using False lb p pn lp by (auto simp: linked_def shape_def)
  qed
qed

lemma inserted_tree:
  assumes t: "ghost_tree (gshape g) r kids dep" and p: "blk_pool g p = Some pb" and n: "n \<notin> dom (blk_pool g)"
    and nb: "blk_parent nb = Some p" "blk_child nb = None" "blk_sibling nb = None"
  defines "s' \<equiv> gshape (inserted n nb p (kids p) g)"
  shows "ghost_tree s' r (kids(p := kids p @ [n], n := [])) (dep(n := Suc (dep p)))"
    "parent_of s' j = (if j = n then Some p else parent_of (gshape g) j)" "dom s' = insert n (dom (gshape g))"
proof -
  let ?h = "blk_pool g"
  have pd: "p \<in> dom ?h" "set (kids p) \<subseteq> dom ?h"
    using p kid_dom [OF t, of p] by auto
  note L = linked_new [OF n pd, where nb = nb]
  have s': "s' = shape (linked n nb p (kids p) ?h)"
    by (simp add: s'_def inserted_def)
  show par: "parent_of s' j = (if j = n then Some p else parent_of (gshape g) j)" for j
    using L(1) L(5) [of j] nb(1) unfolding parent_of_field [of _ j] s' shape_field by simp
  show dom: "dom s' = insert n (dom (gshape g))"
    using L(2) by (simp add: s')
  obtain P where P: "s' p = Some P" "sibs s' (lk_child P) (kids p @ [n])"
    using linked_sibs [OF t p n nb(3)] unfolding s' by blast
  show "ghost_tree s' r (kids(p := kids p @ [n], n := [])) (dep(n := Suc (dep p)))"
  proof (rule tree_insert [OF t _ _ par dom _ _ _ _ P])
    show "s' n = Some (links_of nb)" "lk_child (links_of nb) = None"
      using L(1) nb(2) by (simp_all add: s' shape_some)
    show "map_option lk_child (s' i) = map_option lk_child (gshape g i)" if "i \<noteq> n" "i \<noteq> p" for i
      unfolding s' shape_field using L(6) that .
    show "map_option lk_sibling (s' i) = map_option lk_sibling (gshape g i)" if "i \<in> dom (gshape g)" "i \<notin> set (kids p)" for i
      unfolding s' shape_field using L(7) [of i] that n by auto
  qed (use pd n in simp_all)
qed

lemma inserted_ok:
  assumes inv: "ghost_inv g r kids dep" and p: "blk_pool g p = Some pb" and free: "blk_free g = n # fs"
    and fresh: "blk_map g (blk_id nb) = None"
  shows "n \<notin> dom (blk_pool g)" "ghost_blks_ok (inserted n nb p (kids p) g)" "ghost_vtrs_ok (inserted n nb p (kids p) g)"
    "votes_on (inserted n nb p (kids p) g) = votes_on g"
proof -
  note B = blks_okD [OF ghost_invD(3) [OF inv]] and V = vtrs_okD [OF ghost_invD(4) [OF inv]]
  let ?g = "inserted n nb p (kids p) g"
  show n: "n \<notin> dom (blk_pool g)"
    using B(3) [of n] free by auto
  have pd: "p \<in> dom (blk_pool g)" "set (kids p) \<subseteq> dom (blk_pool g)"
    using p kid_dom [OF ghost_invD(2) [OF inv], of p] by auto
  note L = linked_new [OF n pd, where nb = nb]
  have ids: "(\<exists>b. blk_pool ?g i = Some b \<and> blk_id b = k) \<longleftrightarrow> (if i = n then k = blk_id nb else \<exists>b. blk_pool g i = Some b \<and> blk_id b = k)" for i k
    using L(1) L(3) [of i] by (cases "blk_pool g i"; cases "linked n nb p (kids p) (blk_pool g) i") (auto simp: inserted_def)
  have free': "distinct fs" "n \<notin> set fs" "dom (blk_pool g) \<inter> set fs = {}" "insert n (dom (blk_pool g)) \<union> set fs = {..<blk_pool_max g}"
    using B(2,3,4) free by auto
  have "(\<exists>b. blk_pool g i = Some b \<and> blk_id b = k) \<longleftrightarrow> blk_map g k = Some i" for i k
    using B(5) by simp
  then have "blk_map ?g k = Some i \<longleftrightarrow> (\<exists>b. blk_pool ?g i = Some b \<and> blk_id b = k)" for k i
    unfolding ids using fresh n B(5) [of k n] by (auto simp: inserted_def)
  then show "ghost_blks_ok ?g"
    unfolding ghost_blks_ok_def using B(1) L(2) free free' by (auto simp: inserted_def)
  have nodes: "blk_vtr_dlist g n = []"
    using dlist_nil [OF ghost_invD(4) [OF inv], of n] n by auto
  have id_used: "vtr_prev_block_id w \<noteq> blk_id nb" if "vtr_pool g v = Some w" for v w
    using that V(5,6) [of v] fresh blk_map_none [OF ghost_invD(3) [OF inv]] by (metis domI option.inject)
  have eq: "(\<exists>w b. vtr_pool ?g v = Some w \<and> blk_pool ?g i = Some b \<and> vtr_prev_block_id w = blk_id b) \<longleftrightarrow>
      (\<exists>w b. vtr_pool g v = Some w \<and> blk_pool g i = Some b \<and> vtr_prev_block_id w = blk_id b)" for v i
  proof -
    have "(\<exists>b. blk_pool ?g i = Some b \<and> vtr_prev_block_id w = blk_id b) \<longleftrightarrow> (\<exists>b. blk_pool g i = Some b \<and> vtr_prev_block_id w = blk_id b)"
      if "vtr_pool g v = Some w" for w
      using ids [of i "vtr_prev_block_id w"] id_used [OF that] n by (auto split: if_splits)
    then show ?thesis
      by (auto simp: inserted_def)
  qed
  have same: "vtr_pool ?g = vtr_pool g" "vtr_free ?g = vtr_free g" "vtr_map ?g = vtr_map g" "blk_vtr_dlist ?g = blk_vtr_dlist g"
    by (simp_all add: inserted_def)
  show "ghost_vtrs_ok ?g"
    using ghost_invD(4) [OF inv] unfolding ghost_vtrs_ok_def same(2-4) eq unfolding same(1) .
  show "votes_on ?g = votes_on g"
    by (simp add: votes_on_def fun_eq_iff same)
qed

lemma extra_kids_insert:
  assumes "finite D" "n \<notin> D" "p \<in> D"
  shows "(\<Sum>i \<in> insert n D. length ((kids(p := kids p @ [n], n := [])) i) - 1) =
    (\<Sum>i \<in> D. length (kids i) - 1) + (if kids p = [] then 0 else 1)"
proof -
  have "(\<Sum>i \<in> insert n D. length ((kids(p := kids p @ [n], n := [])) i) - 1) =
      (\<Sum>i \<in> D. length ((kids(p := kids p @ [n])) i) - 1)"
    using assms by (auto intro: sum.cong)
  also have "\<dots> = length (kids p) + (\<Sum>i \<in> D - {p}. length (kids i) - 1)"
    using sum.remove [OF assms(1,3), of "\<lambda>i. length ((kids(p := kids p @ [n])) i) - 1"] by simp
  finally show ?thesis
    using sum.remove [OF assms(1,3), of "\<lambda>i. length (kids i) - 1"] by simp
qed

text \<open>The number of extra siblings is below the size of the pool, so the width never wraps around.\<close>

lemma sum_kids:
  assumes t: "ghost_tree s r kids dep"
  shows "(\<Sum>i \<in> dom s. length (kids i)) + 1 = card (dom s)"
proof -
  have "(\<Sum>i \<in> dom s. length (kids i)) = (\<Sum>i \<in> dom s. card (set (kids i)))"
    using ghost_treeD(8) [OF t] by (intro sum.cong) (simp_all add: distinct_card)
  also have "\<dots> = card (\<Union>i \<in> dom s. set (kids i))"
  proof (rule card_UN_disjoint [symmetric])
    show "\<forall>i \<in> dom s. \<forall>j \<in> dom s. i \<noteq> j \<longrightarrow> set (kids i) \<inter> set (kids j) = {}"
    proof (intro ballI impI)
      fix i j
      assume "i \<in> dom s" "j \<in> dom s" "i \<noteq> j"
      then show "set (kids i) \<inter> set (kids j) = {}"
        using ghost_treeD(9) [OF t, of i] ghost_treeD(9) [OF t, of j] by (auto simp: set_eq_iff)
    qed
  qed (use ghost_treeD(1) [OF t] in auto)
  also have "(\<Union>i \<in> dom s. set (kids i)) = dom s - {r}"
  proof (intro equalityI subsetI)
    show "x \<in> dom s - {r}" if x: "x \<in> (\<Union>i \<in> dom s. set (kids i))" for x
    proof -
      obtain i where "parent_of s x = Some i"
        using x ghost_treeD(9) [OF t] by auto
      then show ?thesis
        using parent_dom ghost_treeD(3) [OF t] by auto
    qed
    show "x \<in> (\<Union>i \<in> dom s. set (kids i))" if x: "x \<in> dom s - {r}" for x
    proof -
      obtain i where "parent_of s x = Some i"
        using x ghost_treeD(6) [OF t, of x] by (cases "parent_of s x") auto
      then show ?thesis
        using ghost_treeD(4) [OF t, of x i] ghost_treeD(9) [OF t, of i x] by auto
    qed
  qed
  finally show ?thesis
    using card_Suc_Diff1 [OF ghost_treeD(1,2) [OF t]] by simp
qed

lemma extra_kids_less:
  assumes "ghost_inv g r kids dep"
  shows "1 + extra_kids g kids \<le> card (dom (blk_pool g))"
proof -
  have "extra_kids g kids \<le> (\<Sum>i \<in> dom (blk_pool g). length (kids i))"
    unfolding extra_kids_def by (intro sum_mono) simp
  then show ?thesis
    using sum_kids [OF ghost_invD(2) [OF assms]] by simp
qed

lemma inserted_inv:
  assumes inv: "ghost_inv g r kids dep" and p: "blk_pool g p = Some pb" and free: "blk_free g = n # fs"
    and fresh: "blk_map g (blk_id nb) = None" and nb: "blk_parent nb = Some p" "blk_child nb = None" "blk_sibling nb = None" "blk_stake nb = 0"
  shows "ghost_inv (inserted n nb p (kids p) g) r (kids(p := kids p @ [n], n := [])) (dep(n := Suc (dep p)))"
proof -
  let ?g = "inserted n nb p (kids p) g"
  note I = ghost_invD [OF inv] and O = inserted_ok [OF inv p free fresh]
  have pd: "p \<in> dom (gshape g)" "n \<notin> dom (gshape g)" "set (kids p) \<subseteq> dom (blk_pool g)"
    using p O(1) kid_dom [OF I(2), of p] by auto
  note T = inserted_tree [OF I(2) p O(1) nb(1-3)]
  note L = linked_new [OF O(1) pd(1) [simplified] pd(3), where nb = nb]
  note D = desc_insert [OF I(2) pd(1,2) T(2,3)]
  have votes: "votes_on ?g = votes_on g" "votes_on g n = 0"
    using O(4) votes_on_nil [OF I(4), of n] O(1) by (simp_all add: domIff)
  have "ghost_stake_ok ?g"
    unfolding ghost_stake_ok_def
  proof (intro allI impI)
    fix i b
    assume b: "blk_pool ?g i = Some b"
    show "blk_stake b = (\<Sum>j \<in> desc (gshape ?g) i. votes_on ?g j)"
    proof (cases "i = n")
      case True
      then show ?thesis
        using b L(1) nb(4) D(2) votes by (simp add: inserted_def)
    next
      case False
      then obtain b0 where b0: "blk_pool g i = Some b0" "blk_stake b = blk_stake b0"
        using L(4) [OF False] b by (cases "blk_pool g i") (auto simp: inserted_def)
      have i: "i \<in> dom (gshape g)"
        using b0(1) by auto
      have "n \<notin> desc (gshape g) i"
        using desc_dom [of "gshape g" i] O(1) by auto
      then have "(\<Sum>j \<in> desc (gshape ?g) i. votes_on g j) = (\<Sum>j \<in> desc (gshape g) i. votes_on g j)"
        using D(1) [OF i] votes(2) finite_desc [OF I(2)] by auto
      then show ?thesis
        using stake_okD [OF I(5) b0(1)] b0(2) votes(1) by simp
    qed
  qed
  moreover have "ghost_width ?g = 1 + extra_kids ?g (kids(p := kids p @ [n], n := []))"
  proof -
    have "extra_kids ?g (kids(p := kids p @ [n], n := [])) = extra_kids g kids + (if kids p = [] then 0 else 1)"
      unfolding extra_kids_def using extra_kids_insert [of "dom (blk_pool g)" n p kids] ghost_treeD(1) [OF I(2)] pd L(2)
      by (simp add: inserted_def)
    moreover have "ghost_width g + 1 < 2 ^ 64"
      using extra_kids_less [OF inv] card_blks [OF O(2)] blks_okD(1) [OF O(2)] I(6) L(2) pd(2) ghost_treeD(1) [OF I(2)]
      by (simp add: inserted_def)
    ultimately show ?thesis
      using I(6) by (simp add: inserted_def ulong_add_small)
  qed
  ultimately show ?thesis
    unfolding ghost_inv_def using I(1) T(1) O(2,3) by (simp add: inserted_def)
qed

end
