(* ===== verification/Ghost_Deepest.thy ===== *)
theory Ghost_Deepest
  imports Ghost_Queue Ghost_Insert
begin

text \<open>The level-order traversal returns a block of maximal depth and leaves the ghost as it was.\<close>

lemma deepest_children_spec:
  assumes "queue_ok g q xs" "xs \<noteq> []" "sibs (gshape g) child ks" "length ks < fuel" "set xs \<inter> set ks = {}" "distinct ks"
  shows "\<exists>g'. deepest_children fuel child (last xs) g = Ok (last (xs @ ks), g') \<and> queue_ok g' q (xs @ ks) \<and> same_rest g g' \<and>
    ghost_width g' = ghost_width g"
  using assms
proof (induction ks arbitrary: g child xs fuel)
  case Nil
  then show ?case
    by (cases fuel) auto
next
  case (Cons c ks)
  obtain f where f: "fuel = Suc f"
    using Cons.prems(4) by (cases fuel) auto
  obtain cb where cb: "blk_pool g c = Some cb" "child = Some c" "sibs (gshape g) (blk_sibling cb) ks"
    using Cons.prems(3) by (auto simp: shape_eq_Some)
  have c: "c \<notin> set xs" "set (xs @ [c]) \<inter> set ks = {}" "distinct ks"
    using Cons.prems(5,6) by auto
  note e = enqueue [OF Cons.prems(1,2) c(1) cb(1)]
  let ?g = "enqueued (last xs) c g"
  have run: "deepest_children fuel child (last xs) g = deepest_children f (blk_sibling cb) c ?g"
    using f cb e(1) e(2) [of "deepest_children f (blk_sibling cb) c"]
    by (simp add: blk_at_eq blk_map_remove_def CHECK_def del: deepest_children.simps add: deepest_children.simps(2))
  have sh: "gshape ?g = gshape g"
    using e(4) same_viewD(1) by (simp add: same_rest_def)
  have "\<exists>g'. deepest_children f (blk_sibling cb) (last (xs @ [c])) ?g = Ok (last ((xs @ [c]) @ ks), g') \<and>
      queue_ok g' q ((xs @ [c]) @ ks) \<and> same_rest ?g g' \<and> ghost_width g' = ghost_width ?g"
    using cb(3) Cons.prems(4) f c(2,3) e(3) sh by (intro Cons.IH) simp_all
  then obtain g' where "deepest_children f (blk_sibling cb) c ?g = Ok (last (xs @ c # ks), g')"
      "queue_ok g' q (xs @ c # ks)" "same_rest ?g g'" "ghost_width g' = ghost_width ?g"
    by auto
  then show ?case
    unfolding run using same_rest_trans [OF e(4)] e(5) by auto
qed

lemma queue_pop:
  assumes q: "queue_ok g (Some i) (i # xs)" and b: "blk_pool g i = Some b"
  shows "queue_ok (g\<lparr>blk_map := (blk_map g)(blk_id b \<mapsto> i)\<rparr>) (blk_next b) xs"
proof -
  have qs: "qseg (blk_pool g) (blk_next b) xs" "distinct (i # xs)" "set (i # xs) \<subseteq> dom (blk_pool g)"
      "queued_map g (set (i # xs))" "ids_inj (blk_pool g)"
    using q b by (simp_all add: queue_ok_def)
  have "queued_map (g\<lparr>blk_map := (blk_map g)(blk_id b \<mapsto> i)\<rparr>) (set xs)"
    unfolding queued_map_def
  proof (intro allI)
    fix k j
    have "blk_map g k = Some j \<longleftrightarrow> (\<exists>c. blk_pool g j = Some c \<and> blk_id c = k) \<and> j \<notin> set (i # xs)"
      using qs(4) by (simp add: queued_map_def)
    moreover have "j = i" if "blk_pool g j = Some c" "blk_id c = blk_id b" for c
      using ids_injD [OF qs(5) that(1) b that(2)] .
    ultimately show "blk_map (g\<lparr>blk_map := (blk_map g)(blk_id b \<mapsto> i)\<rparr>) k = Some j \<longleftrightarrow>
        (\<exists>c. blk_pool (g\<lparr>blk_map := (blk_map g)(blk_id b \<mapsto> i)\<rparr>) j = Some c \<and> blk_id c = k) \<and> j \<notin> set xs"
      using b qs(2) by (cases "k = blk_id b") auto
  qed
  then show ?thesis
    using qs by (simp add: queue_ok_def)
qed

definition level_order :: "(nat \<Rightarrow> nat) \<Rightarrow> nat list \<Rightarrow> bool" where
  "level_order dep xs \<longleftrightarrow> sorted (map dep xs) \<and> (\<forall>x \<in> set xs. dep x \<le> dep (hd xs) + 1)"

lemma level_order_next:
  assumes "level_order dep (i # xs)" "\<And>k. k \<in> set ks \<Longrightarrow> dep k = Suc (dep i)"
  shows "level_order dep (xs @ ks)" "x \<in> set (xs @ ks) \<Longrightarrow> dep i \<le> dep x"
proof -
  have xs: "sorted (map dep xs)" "\<And>x. x \<in> set xs \<Longrightarrow> dep i \<le> dep x \<and> dep x \<le> dep i + 1"
    using assms(1) by (auto simp: level_order_def)
  show ge: "dep i \<le> dep x" if "x \<in> set (xs @ ks)" for x
    using that xs(2) assms(2) by fastforce
  have "sorted (map dep ks)"
    using assms(2) by (auto simp: sorted_iff_nth_mono)
  then have "sorted (map dep (xs @ ks))"
    using xs assms(2) by (fastforce simp: sorted_append)
  moreover have "dep x \<le> dep (hd (xs @ ks)) + 1" if "x \<in> set (xs @ ks)" for x
  proof -
    have "hd (xs @ ks) \<in> set (xs @ ks)"
      using that by (intro hd_in_set) auto
    then have "dep i \<le> dep (hd (xs @ ks))"
      using ge by simp
    moreover have "dep x \<le> dep i + 1"
      using that xs(2) assms(2) by auto
    ultimately show ?thesis
      by simp
  qed
  ultimately show "level_order dep (xs @ ks)"
    by (simp add: level_order_def)
qed

abbreviation subtrees :: "shape \<Rightarrow> nat list \<Rightarrow> nat set" where
  "subtrees s xs \<equiv> (\<Union>x \<in> set xs. desc s x)"

lemma subtrees_next:
  assumes t: "ghost_tree s r kids dep" and a: "antichain s (i # xs)"
  shows "subtrees s (i # xs) = insert i (subtrees s (xs @ kids i))" "i \<notin> subtrees s (xs @ kids i)"
    "card (subtrees s (i # xs)) = Suc (card (subtrees s (xs @ kids i)))"
proof -
  have i: "i \<in> dom s"
    using a by (simp add: antichain_def)
  show eq: "subtrees s (i # xs) = insert i (subtrees s (xs @ kids i))"
    using desc_kids [OF t i] by auto
  have "i \<notin> desc s x" if "x \<in> set xs" for x
  proof -
    have "x \<noteq> i" "desc s i \<inter> desc s x = {}"
      using a that by (auto simp: antichain_def)
    then show ?thesis
      using desc_self [OF i] by blast
  qed
  then show out: "i \<notin> subtrees s (xs @ kids i)"
    using self_not_in_kid [OF t i] by auto
  have "finite (subtrees s (xs @ kids i))"
    using finite_desc [OF t] by simp
  then show "card (subtrees s (i # xs)) = Suc (card (subtrees s (xs @ kids i)))"
    unfolding eq using out by simp
qed

abbreviation hd_opt :: "'a list \<Rightarrow> 'a option" where
  "hd_opt xs \<equiv> (case xs of [] \<Rightarrow> None | x # _ \<Rightarrow> Some x)"

lemma qseg_hd: "qseg h q xs \<Longrightarrow> q = hd_opt xs"
  by (cases xs) auto

lemma deepest_first:
  assumes t: "ghost_tree s r kids dep" and a: "antichain s ys" and first: "\<And>x. x \<in> set ys \<Longrightarrow> dep i \<le> dep x"
    and p: "if ys = [] then p = i else p \<in> subtrees s ys \<and> (\<forall>v \<in> subtrees s ys. dep v \<le> dep p)"
  shows "p \<in> insert i (subtrees s ys) \<and> (\<forall>v \<in> insert i (subtrees s ys). dep v \<le> dep p)"
proof (cases ys)
  case Nil
  then show ?thesis
    using p by simp
next
  case (Cons y zs)
  then have "y \<in> subtrees s ys" "y \<in> set ys"
    using a desc_self [of y s] by (auto simp: antichain_def)
  then have "dep i \<le> dep p"
    using first [of y] p Cons by (auto intro: le_trans)
  then show ?thesis
    using p Cons by auto
qed

lemma deepest_loop_spec:
  assumes t: "ghost_tree s r kids dep"
  shows "gshape g = s \<Longrightarrow> card (dom s) \<le> blk_pool_max g \<Longrightarrow> queue_ok g (hd_opt xs) xs \<Longrightarrow> antichain s xs \<Longrightarrow> level_order dep xs \<Longrightarrow>
    (xs \<noteq> [] \<longrightarrow> tail = last xs) \<Longrightarrow> card (subtrees s xs) < fuel \<Longrightarrow>
    \<exists>p g'. deepest_loop fuel (hd_opt xs) tail prev g = Ok (p, g') \<and> queue_ok g' None [] \<and> same_rest g g' \<and>
      ghost_width g' = ghost_width g \<and> (if xs = [] then p = prev else p \<in> subtrees s xs \<and> (\<forall>v \<in> subtrees s xs. dep v \<le> dep p))"
proof (induction fuel arbitrary: g xs tail prev)
  case (Suc fuel)
  show ?case
  proof (cases xs)
    case Nil
    then show ?thesis
      using Suc.prems(3) by simp
  next
    case (Cons i ys)
    have id: "i \<in> dom (gshape g)" "i \<in> dom s"
      using Suc.prems(1,4) Cons by (auto simp: antichain_def)
    obtain b where b: "blk_pool g i = Some b"
      using id by auto
    have sibs: "sibs (gshape g) (blk_child b) (kids i)"
      using ghost_treeD(7) [OF t, of i] shape_some [of "blk_pool g", OF b] Suc.prems(1) by auto
    have ks: "distinct (kids i)" "length (kids i) < blk_pool_max g + 1"
      using ghost_treeD(8) [OF t id(2)] length_kids [OF t id(2)] Suc.prems(2) by simp_all
    note a = antichain_next [OF t Suc.prems(4) [unfolded Cons] subset_refl ks(1)]
    obtain g1 where g1: "deepest_children (blk_pool_max g + 1) (blk_child b) tail g = Ok (last (xs @ kids i), g1)"
        "queue_ok g1 (Some i) (xs @ kids i)" "same_rest g g1" "ghost_width g1 = ghost_width g"
      using deepest_children_spec [OF Suc.prems(3) _ sibs ks(2)] a(2) ks(1) Suc.prems(6) Cons by auto
    obtain b1 where b1: "blk_pool g1 i = Some b1"
      using same_viewD(3) [of "blk_pool g" "blk_pool g1" i b] g1(3) b by (auto simp: same_rest_def)
    let ?g2 = "g1\<lparr>blk_map := (blk_map g1)(blk_id b1 \<mapsto> i)\<rparr>" and ?ys = "ys @ kids i"
    have q2: "queue_ok ?g2 (blk_next b1) ?ys"
      using queue_pop [of g1 i ?ys, OF _ b1] g1(2) Cons by simp
    then have nx: "blk_next b1 = hd_opt ?ys"
      using qseg_hd [of "blk_pool ?g2" "blk_next b1" ?ys] by (simp add: queue_ok_def)
    have run: "deepest_loop (Suc fuel) (hd_opt xs) tail prev g = deepest_loop fuel (hd_opt ?ys) (last (xs @ kids i)) i ?g2"
      using b g1(1) b1 Cons nx by (simp add: blk_at_eq del: deepest_children.simps)
    have rest: "same_rest g ?g2" "ghost_width ?g2 = ghost_width g"
      using g1(3,4) by (simp_all add: same_rest_def)
    have kd: "dep k = Suc (dep i)" if "k \<in> set (kids i)" for k
      using that ghost_treeD(5,9) [OF t] id(2) by blast
    note lo = level_order_next [OF Suc.prems(5) [unfolded Cons], of "kids i", OF kd]
    note st = subtrees_next [OF t Suc.prems(4) [unfolded Cons]]
    have "\<exists>p g'. deepest_loop fuel (hd_opt ?ys) (last (xs @ kids i)) i ?g2 = Ok (p, g') \<and> queue_ok g' None [] \<and> same_rest ?g2 g' \<and>
      ghost_width g' = ghost_width ?g2 \<and> (if ?ys = [] then p = i else p \<in> subtrees s ?ys \<and> (\<forall>v \<in> subtrees s ?ys. dep v \<le> dep p))"
    proof (rule Suc.IH)
      show "gshape ?g2 = s" "card (dom s) \<le> blk_pool_max ?g2"
        using rest(1) Suc.prems(1,2) same_viewD(1) [of "blk_pool g" "blk_pool ?g2"] by (simp_all add: same_rest_def)
      show "queue_ok ?g2 (hd_opt ?ys) ?ys"
        using q2 nx by simp
      show "card (subtrees s ?ys) < fuel"
        using st(3) Suc.prems(7) Cons by simp
    qed (use a lo(1) Cons in auto)
    then obtain p g' where p: "deepest_loop fuel (hd_opt ?ys) (last (xs @ kids i)) i ?g2 = Ok (p, g')" "queue_ok g' None []"
        "same_rest ?g2 g'" "ghost_width g' = ghost_width ?g2"
        "if ?ys = [] then p = i else p \<in> subtrees s ?ys \<and> (\<forall>v \<in> subtrees s ?ys. dep v \<le> dep p)"
      by blast
    have "p \<in> subtrees s xs \<and> (\<forall>v \<in> subtrees s xs. dep v \<le> dep p)"
      using deepest_first [OF t a(1) _ p(5)] st(1) lo(2) Cons by auto
    then show ?thesis
      unfolding run using p(1-4) same_rest_trans [OF rest(1)] rest(2) Cons by auto
  qed
qed simp

lemma ids_inj_blks: "ghost_blks_ok g \<Longrightarrow> ids_inj (blk_pool g)"
  unfolding ids_inj_def blks_okD(5) [symmetric] by auto

lemma queued_map_blks: "ghost_blks_ok g \<Longrightarrow> queued_map g {}"
  by (simp add: queued_map_def blks_okD(5))

text \<open>Starting a traversal at block \<open>i\<close>.\<close>

lemma queue_start:
  assumes ok: "ghost_blks_ok g" and b: "blk_pool g i = Some b"
  defines "g1 \<equiv> g\<lparr>blk_map := (blk_map g)(blk_id b := None), blk_pool := (blk_pool g)(i \<mapsto> b\<lparr>blk_next := None\<rparr>)\<rparr>"
  shows "blk_map g (blk_id b) = Some i"
    "blk_upd i (\<lambda>b. b\<lparr>blk_next := None\<rparr>) (g\<lparr>blk_map := (blk_map g)(blk_id b := None)\<rparr>) = Ok g1"
    "queue_ok g1 (Some i) [i]" "same_rest g g1" "ghost_width g1 = ghost_width g"
proof -
  note rm = queued_map_remove [OF queued_map_blks [OF ok] ids_inj_blks [OF ok] b]
  have view: "same_view (blk_pool g) (blk_pool g1)"
    using b by (simp add: g1_def same_view_def)
  show "blk_map g (blk_id b) = Some i"
    using rm by simp
  show "blk_upd i (\<lambda>b. b\<lparr>blk_next := None\<rparr>) (g\<lparr>blk_map := (blk_map g)(blk_id b := None)\<rparr>) = Ok g1"
    using b by (simp add: blk_upd_def blk_at_def g1_def)
  show "same_rest g g1" "ghost_width g1 = ghost_width g"
    using view by (simp_all add: same_rest_def g1_def)
  have "queued_map g1 {i}"
    using queued_map_view [OF rm(2), of g1] view by (simp add: g1_def)
  then show "queue_ok g1 (Some i) [i]"
    using ids_inj_view [OF ids_inj_blks [OF ok] view] by (simp add: queue_ok_def g1_def)
qed

lemma same_rest_inv:
  assumes inv: "ghost_inv g r kids dep" and rest: "same_rest g g'" "ghost_width g' = ghost_width g" and q: "queue_ok g' None []"
  shows "ghost_inv g' r kids dep" "blk_map g' = blk_map g"
proof -
  have view: "same_view (blk_pool g) (blk_pool g')"
    using rest(1) by (simp add: same_rest_def)
  have "blk_map g' k = Some i \<longleftrightarrow> blk_map g k = Some i" for k i
    using q same_view_id [OF view, of i k] blks_okD(5) [OF ghost_invD(3) [OF inv], of k i] by (simp add: queue_ok_def queued_map_def)
  then show map: "blk_map g' = blk_map g"
    by (metis option.exhaust ext)
  have same: "map_option (\<lambda>b. (blk_id b, links_of b, blk_stake b)) (blk_pool g' i) = map_option (\<lambda>b. (blk_id b, links_of b, blk_stake b)) (blk_pool g i)" for i
  proof -
    have "map_option view (blk_pool g' i) = map_option view (blk_pool g i)"
      using view by (simp add: same_view_def)
    from arg_cong [OF this, of "map_option (\<lambda>b. (blk_id b, links_of b, blk_stake b))"] show ?thesis
      by (simp add: option.map_comp o_def)
  qed
  show "ghost_inv g' r kids dep"
    using rest map by (intro same_stake_inv [OF inv same]) (simp_all add: same_rest_def)
qed

lemma fd_ghost_deepest_spec:
  assumes inv: "ghost_inv g r kids dep" and i: "i \<in> dom (blk_pool g)"
  shows "\<exists>p g'. fd_ghost_deepest g i = Ok (p, g') \<and> p \<in> desc (gshape g) i \<and> (\<forall>v \<in> desc (gshape g) i. dep v \<le> dep p) \<and>
    ghost_inv g' r kids dep \<and> same_rest g g' \<and> blk_map g' = blk_map g"
proof -
  note I = ghost_invD [OF inv]
  obtain b where b: "blk_pool g i = Some b"
    using i by blast
  note S = queue_start [OF I(3) b]
  let ?g1 = "g\<lparr>blk_map := (blk_map g)(blk_id b := None), blk_pool := (blk_pool g)(i \<mapsto> b\<lparr>blk_next := None\<rparr>)\<rparr>"
  have sh: "gshape ?g1 = gshape g"
    using S(4) same_viewD(1) [of "blk_pool g" "blk_pool ?g1"] by (simp add: same_rest_def)
  have cd: "card (dom (gshape g)) \<le> blk_pool_max g" "card (subtrees (gshape g) [i]) \<le> blk_pool_max g"
    using card_blks [OF I(3)] card_mono [OF ghost_treeD(1) [OF I(2)] desc_dom, of i] by simp_all
  have "\<exists>p g'. deepest_loop (blk_pool_max ?g1 + 1) (hd_opt [i]) i i ?g1 = Ok (p, g') \<and> queue_ok g' None [] \<and> same_rest ?g1 g' \<and>
      ghost_width g' = ghost_width ?g1 \<and>
      (if [i] = [] then p = i else p \<in> subtrees (gshape g) [i] \<and> (\<forall>v \<in> subtrees (gshape g) [i]. dep v \<le> dep p))"
    using sh cd S(3) i by (intro deepest_loop_spec [OF I(2)]) (auto simp: antichain_def level_order_def)
  then obtain p g' where p: "deepest_loop (blk_pool_max ?g1 + 1) (Some i) i i ?g1 = Ok (p, g')" "queue_ok g' None []" "same_rest ?g1 g'"
      "ghost_width g' = ghost_width ?g1" "p \<in> desc (gshape g) i" "\<forall>v \<in> desc (gshape g) i. dep v \<le> dep p"
    by auto
  have "fd_ghost_deepest g i = deepest_loop (blk_pool_max ?g1 + 1) (Some i) i i ?g1"
    unfolding fd_ghost_deepest_def blk_at_eq [OF b] rbind.simps blk_map_remove_def Let_def prod.case S(1) option.case S(2) ..
  moreover have "same_rest g g'" "ghost_width g' = ghost_width g"
    using same_rest_trans [OF S(4) p(3)] p(4) S(5) by simp_all
  ultimately show ?thesis
    using p same_rest_inv [OF inv _ _ p(2)] by auto
qed

end
