(* ===== verification/Ghost_Publish.thy ===== *)
theory Ghost_Publish
  imports Ghost_Deepest
begin

text \<open>Publishing a new root prunes the blocks outside its subtree, with the voters parked on them.\<close>

subsection \<open>One block of the traversal\<close>

lemma publish_children_spec:
  assumes "queue_ok g q xs" "xs \<noteq> []" "sibs (gshape g) child ks" "length ks < fuel" "set xs \<inter> set ks = {}" "distinct ks"
    "length ks - 1 \<le> ghost_width g" "ghost_width g < 2 ^ 64"
  shows "\<exists>g'. publish_children fuel newr child (last xs) g = Ok (last (xs @ filter (\<lambda>c. c \<noteq> newr) ks), g') \<and>
    queue_ok g' q (xs @ filter (\<lambda>c. c \<noteq> newr) ks) \<and> same_rest g g' \<and> ghost_width g' = ghost_width g - (length ks - 1)"
  using assms
proof (induction ks arbitrary: g child xs fuel)
  case Nil
  then show ?case
    by (cases fuel) auto
next
  case (Cons c ks)
  obtain f where f: "fuel = Suc f"
    using Cons.prems(4) by (cases fuel) auto
  obtain cb where cb: "blk_pool g c = Some cb" "child = Some c" "sibs (gshape g) (blk_sibling cb) ks"
    using Cons.prems(3) by (auto simp: shape_eq_Some)
  have c: "c \<notin> set xs" "set (xs @ [c]) \<inter> set ks = {}" "distinct ks" "length ks < f"
    using Cons.prems(4,5,6) f by auto
  have sib: "blk_sibling cb \<noteq> None \<longleftrightarrow> ks \<noteq> []"
    using cb(3) by (cases ks) auto
  let ?w = "\<lambda>g. g\<lparr>ghost_width := (if blk_sibling cb \<noteq> None then ulong_sub (ghost_width g) 1 else ghost_width g)\<rparr>"
  note e = enqueue [OF Cons.prems(1,2) c(1) cb(1)]
  define ys g1 where "ys = (if c \<noteq> newr then xs @ [c] else xs)" and "g1 = ?w (if c \<noteq> newr then enqueued (last xs) c g else g)"
  have run: "publish_children fuel newr child (last xs) g = publish_children f newr (blk_sibling cb) (last ys) g1"
  proof (cases "c = newr")
    case False
    have "rbind (let (removed, g) = blk_map_remove (blk_id cb) g in
        rbind (blk_upd (last xs) (\<lambda>b. b\<lparr>blk_next := removed\<rparr>) g) (\<lambda>g.
        case removed of None \<Rightarrow> Ub | Some t \<Rightarrow> rbind (blk_upd t (\<lambda>b. b\<lparr>blk_next := None\<rparr>) g) (\<lambda>g. Ok (t, g)))) k =
      k (c, enqueued (last xs) c g)" for k :: "nat \<times> fd_ghost \<Rightarrow> (nat \<times> fd_ghost) res"
      unfolding blk_map_remove_def e(1) Let_def prod.case option.case e(2) rbind.simps ..
    then show ?thesis
      using False f cb by (simp add: blk_at_eq ys_def g1_def Let_def del: publish_children.simps add: publish_children.simps(2))
  qed (use f cb in \<open>simp add: blk_at_eq ys_def g1_def Let_def\<close>)
  have g1: "queue_ok g1 q ys" "same_rest g g1" "ys \<noteq> []" "set ys \<inter> set ks = {}"
    using e(3,4) Cons.prems(1,2) c(2) by (auto simp: g1_def ys_def queue_ok_def queued_map_def same_rest_def)
  have w1: "ghost_width g1 = (if ks = [] then ghost_width g else ghost_width g - 1)"
    using sib e(5) Cons.prems(7,8) by (cases ks) (auto simp: g1_def ulong_sub_le)
  have sh: "gshape g1 = gshape g"
    using g1(2) same_viewD(1) [of "blk_pool g" "blk_pool g1"] by (simp add: same_rest_def)
  have "\<exists>g'. publish_children f newr (blk_sibling cb) (last ys) g1 = Ok (last (ys @ filter (\<lambda>c. c \<noteq> newr) ks), g') \<and>
    queue_ok g' q (ys @ filter (\<lambda>c. c \<noteq> newr) ks) \<and> same_rest g1 g' \<and> ghost_width g' = ghost_width g1 - (length ks - 1)"
    using g1 cb(3) c(3,4) w1 Cons.prems(7,8) sh by (intro Cons.IH) (auto split: if_splits)
  then obtain g' where "publish_children f newr (blk_sibling cb) (last ys) g1 = Ok (last (ys @ filter (\<lambda>c. c \<noteq> newr) ks), g')"
      "queue_ok g' q (ys @ filter (\<lambda>c. c \<noteq> newr) ks)" "same_rest g1 g'" "ghost_width g' = ghost_width g1 - (length ks - 1)"
    by blast
  moreover have "ys @ filter (\<lambda>c. c \<noteq> newr) ks = xs @ filter (\<lambda>c. c \<noteq> newr) (c # ks)"
    by (simp add: ys_def)
  moreover have "ghost_width g1 - (length ks - 1) = ghost_width g - (length (c # ks) - 1)"
    using w1 by (cases ks) auto
  ultimately show ?case
    unfolding run using same_rest_trans [OF g1(2)] by auto
qed

text \<open>Releasing the voters of a block.\<close>

definition drained :: "nat \<Rightarrow> nat list \<Rightarrow> fd_ghost \<Rightarrow> fd_ghost" where
  "drained i vs g = g\<lparr>blk_vtr_dlist := (blk_vtr_dlist g)(i := []),
     vtr_map := (\<lambda>a. if \<exists>v \<in> set vs. vtr_addr (the (vtr_pool g v)) = a then None else vtr_map g a),
     vtr_pool := (\<lambda>v. if v \<in> set vs then None else vtr_pool g v), vtr_free := rev vs @ vtr_free g\<rparr>"

lemma drain_vtrs_spec:
  "blk_vtr_dlist g i = vs \<Longrightarrow> distinct vs \<Longrightarrow> set vs \<subseteq> dom (vtr_pool g) \<Longrightarrow> drain_vtrs i vs g = Ok (drained i vs g)"
proof (induction vs arbitrary: g)
  case Nil
  then have "(blk_vtr_dlist g)(i := []) = blk_vtr_dlist g"
    by auto
  then show ?case
    by (simp add: drained_def)
next
  case (Cons v vs)
  then obtain w where w: "vtr_pool g v = Some w"
    by auto
  let ?g = "g\<lparr>blk_vtr_dlist := (blk_vtr_dlist g)(i := vs), vtr_map := (vtr_map g)(vtr_addr w := None),
      vtr_pool := (vtr_pool g)(v := None), vtr_free := v # vtr_free g\<rparr>"
  have "drain_vtrs i vs ?g = Ok (drained i vs ?g)"
    using Cons.prems by (intro Cons.IH) auto
  moreover have "drained i vs ?g = drained i (v # vs) g"
  proof -
    have "(\<lambda>a. if \<exists>x \<in> set vs. vtr_addr (the (vtr_pool ?g x)) = a then None else vtr_map ?g a) =
        (\<lambda>a. if \<exists>x \<in> set (v # vs). vtr_addr (the (vtr_pool g x)) = a then None else vtr_map g a)"
    proof
      fix a
      have "(\<exists>x \<in> set vs. vtr_addr (the (vtr_pool ?g x)) = a) = (\<exists>x \<in> set vs. vtr_addr (the (vtr_pool g x)) = a)"
        using Cons.prems(2) by (intro bex_cong) auto
      then show "(if \<exists>x \<in> set vs. vtr_addr (the (vtr_pool ?g x)) = a then None else vtr_map ?g a) =
        (if \<exists>x \<in> set (v # vs). vtr_addr (the (vtr_pool g x)) = a then None else vtr_map g a)"
        using w by auto
    qed
    moreover have "(\<lambda>x. if x \<in> set vs then None else vtr_pool ?g x) = (\<lambda>x. if x \<in> set (v # vs) then None else vtr_pool g x)"
      by auto
    ultimately show ?thesis
      unfolding drained_def by simp
  qed
  ultimately show ?case
    using w by simp
qed

subsection \<open>The traversal\<close>

definition dropped :: "nat \<Rightarrow> fd_ghost \<Rightarrow> fd_ghost" where
  "dropped i g = blk_release i (drained i (blk_vtr_dlist g i) g)"

lemma dropped_simps [simp]:
  "blk_pool (dropped i g) = (blk_pool g)(i := None)" "blk_free (dropped i g) = i # blk_free g" "blk_map (dropped i g) = blk_map g"
  "blk_pool_max (dropped i g) = blk_pool_max g" "ghost_root (dropped i g) = ghost_root g" "ghost_width (dropped i g) = ghost_width g"
  "blk_vtr_dlist (dropped i g) = (blk_vtr_dlist g)(i := [])"
  "vtr_pool (dropped i g) v = (if v \<in> set (blk_vtr_dlist g i) then None else vtr_pool g v)"
  "vtr_map (dropped i g) a = (if \<exists>v \<in> set (blk_vtr_dlist g i). vtr_addr (the (vtr_pool g v)) = a then None else vtr_map g a)"
  "vtr_free (dropped i g) = rev (blk_vtr_dlist g i) @ vtr_free g"
  by (simp_all add: dropped_def blk_release_def drained_def)

lemma drain_run:
  assumes ok: "ghost_vtrs_ok g"
  shows "drain_vtrs i (blk_vtr_dlist g i) g = Ok (drained i (blk_vtr_dlist g i) g)"
proof -
  have "v \<in> dom (vtr_pool g)" if "v \<in> set (blk_vtr_dlist g i)" for v
    using that vtrs_okD(5) [OF ok, of v i] by auto
  then show ?thesis
    using drain_vtrs_spec [of g i "blk_vtr_dlist g i"] vtrs_okD(4) [OF ok, of i] by (simp add: subset_iff)
qed

lemma dropped_vtrs:
  assumes ok: "ghost_vtrs_ok g" and inj: "ids_inj (blk_pool g)"
  shows "ghost_vtrs_ok (dropped i g)"
proof -
  note V = vtrs_okD [OF ok]
  have only: "j = i" if v: "v \<in> set (blk_vtr_dlist g i)" "v \<in> set (blk_vtr_dlist g j)" for v j
  proof -
    obtain b c where "blk_pool g i = Some b" "blk_pool g j = Some c" "blk_id b = blk_id c"
      using v V(5) [of v i] V(5) [of v j] by auto
    then show ?thesis
      using ids_injD [OF inj] by metis
  qed
  show ?thesis
    unfolding ghost_vtrs_ok_def
  proof (intro conjI allI ballI)
    show "distinct (blk_vtr_dlist (dropped i g) j)" for j
      using V(4) by simp
    show "v \<in> set (blk_vtr_dlist (dropped i g) j) \<longleftrightarrow>
        (\<exists>w b. vtr_pool (dropped i g) v = Some w \<and> blk_pool (dropped i g) j = Some b \<and> vtr_prev_block_id w = blk_id b)" for j v
      using V(5) [of v j] only [of v j] by (cases "j = i") auto
    show "\<exists>j. v \<in> set (blk_vtr_dlist (dropped i g) j)" if "v \<in> dom (vtr_pool (dropped i g))" for v
    proof -
      have "v \<in> dom (vtr_pool g)" "v \<notin> set (blk_vtr_dlist g i)"
        using that by (auto split: if_splits)
      then obtain j where "v \<in> set (blk_vtr_dlist g j)" "j \<noteq> i"
        using V(6) by blast
      then show ?thesis
        by auto
    qed
    show "vtr_map (dropped i g) a = Some v \<longleftrightarrow> (\<exists>w. vtr_pool (dropped i g) v = Some w \<and> vtr_addr w = a)" for a v
    proof -
      have one: "v' = v" if v': "v' \<in> set (blk_vtr_dlist g i)" "vtr_addr (the (vtr_pool g v')) = a" and v: "vtr_map g a = Some v" for v'
      proof -
        obtain w' where "vtr_pool g v' = Some w'"
          using v'(1) V(5) [of v' i] by auto
        then have "vtr_map g a = Some v'"
          using V(3) [of a v'] v'(2) by simp
        then show ?thesis
          using v by simp
      qed
      show ?thesis
      proof (cases "v \<in> set (blk_vtr_dlist g i)")
        case True
        then show ?thesis
          using V(3) [of a v] by auto
      next
        case False
        then have "vtr_map (dropped i g) a = Some v \<longleftrightarrow> vtr_map g a = Some v"
          using one by auto
        then show ?thesis
          using V(3) [of a v] False by simp
      qed
    qed
    show "distinct (vtr_free (dropped i g))"
      using V(1,2,4,5) by (auto simp: disjoint_iff)
    show "set (vtr_free (dropped i g)) \<inter> dom (vtr_pool (dropped i g)) = {}"
    proof -
      have "vtr_pool g x = None" if "x \<in> set (vtr_free g)" for x
        using V(2) [of x] that by blast
      then show ?thesis
        by (auto split: if_splits)
    qed
  qed
qed

definition prune_inv :: "fd_ghost \<Rightarrow> (nat \<Rightarrow> nat list) \<Rightarrow> fd_ghost \<Rightarrow> nat set \<Rightarrow> nat list \<Rightarrow> bool" where
  "prune_inv g0 kids g R xs \<longleftrightarrow>
     (\<forall>i. map_option view (blk_pool g i) = (if i \<in> R then None else map_option view (blk_pool g0 i))) \<and>
     queue_ok g (hd_opt xs) xs \<and> ghost_vtrs_ok g \<and> vtr_pool g \<subseteq>\<^sub>m vtr_pool g0 \<and>
     (\<forall>i. i \<notin> R \<longrightarrow> blk_vtr_dlist g i = blk_vtr_dlist g0 i) \<and>
     distinct (blk_free g) \<and> set (blk_free g) = set (blk_free g0) \<union> R \<and>
     blk_pool_max g = blk_pool_max g0 \<and> ghost_root g = ghost_root g0 \<and>
     ghost_width g = 1 + (\<Sum>i \<in> dom (blk_pool g0) - R. length (kids i) - 1)"

lemma prune_invD:
  assumes "prune_inv g0 kids g R xs"
  shows "map_option view (blk_pool g i) = (if i \<in> R then None else map_option view (blk_pool g0 i))"
    "queue_ok g (hd_opt xs) xs" "ghost_vtrs_ok g" "vtr_pool g \<subseteq>\<^sub>m vtr_pool g0" "i \<notin> R \<Longrightarrow> blk_vtr_dlist g i = blk_vtr_dlist g0 i"
    "distinct (blk_free g)" "set (blk_free g) = set (blk_free g0) \<union> R" "blk_pool_max g = blk_pool_max g0" "ghost_root g = ghost_root g0"
    "ghost_width g = 1 + (\<Sum>i \<in> dom (blk_pool g0) - R. length (kids i) - 1)"
  using assms by (simp_all add: prune_inv_def)

lemma prune_blk:
  assumes "prune_inv g0 kids g R xs" "i \<notin> R"
  shows "gshape g i = gshape g0 i" "blk_pool g i = None \<longleftrightarrow> blk_pool g0 i = None"
proof -
  have "map_option view (blk_pool g i) = map_option view (blk_pool g0 i)"
    using prune_invD(1) [OF assms(1), of i] assms(2) by simp
  from arg_cong [OF this, of "map_option links_of"] show "gshape g i = gshape g0 i"
    by (simp add: shape_def option.map_comp o_def)
  then show "blk_pool g i = None \<longleftrightarrow> blk_pool g0 i = None"
    by (cases "blk_pool g i"; cases "blk_pool g0 i") (simp_all add: shape_def)
qed

lemma queue_drop:
  assumes q: "queue_ok g (Some i) (i # zs)"
  shows "queue_ok (dropped i g) (hd_opt zs) zs"
proof -
  obtain b where b: "blk_pool g i = Some b" "qseg (blk_pool g) (blk_next b) zs"
    using q by (auto simp: queue_ok_def)
  have q': "i \<notin> set zs" "distinct zs" "set zs \<subseteq> dom (blk_pool g)" "queued_map g (set (i # zs))" "ids_inj (blk_pool g)"
    using q by (simp_all add: queue_ok_def)
  have "qseg (blk_pool (dropped i g)) (hd_opt zs) zs"
    using b(2) qseg_hd [OF b(2)] qseg_other [OF q'(1), of "blk_pool g" None] by simp
  moreover have "queued_map (dropped i g) (set zs)"
    unfolding queued_map_def
  proof (intro allI)
    fix k j
    show "blk_map (dropped i g) k = Some j \<longleftrightarrow> (\<exists>b. blk_pool (dropped i g) j = Some b \<and> blk_id b = k) \<and> j \<notin> set zs"
      using q'(4) by (cases "j = i") (auto simp: queued_map_def)
  qed
  moreover have "ids_inj (blk_pool (dropped i g))"
    using q'(5) by (auto simp: ids_inj_def)
  moreover have "set zs \<subseteq> dom (blk_pool (dropped i g))"
    using q'(1,3) by auto
  ultimately show ?thesis
    using q'(2) by (simp add: queue_ok_def)
qed

text \<open>One round of the loop: the children of the head are queued, then the head is dropped.\<close>

lemma same_rest_prune:
  assumes ok0: "ghost_blks_ok g0" and p: "prune_inv g0 kids g R xs" and rest: "same_rest g g'"
    and q: "queue_ok g' (Some i) (i # zs)" and i: "i \<in> dom (blk_pool g)" "i \<notin> R"
    and w: "ghost_width g' = 1 + (\<Sum>i \<in> dom (blk_pool g0) - insert i R. length (kids i) - 1)"
  shows "prune_inv g0 kids (dropped i g') (insert i R) zs"
proof -
  note P = prune_invD [OF p]
  have view: "same_view (blk_pool g) (blk_pool g')" and same: "ghost_root g' = ghost_root g" "blk_pool_max g' = blk_pool_max g"
      "blk_free g' = blk_free g" "vtr_pool g' = vtr_pool g" "vtr_free g' = vtr_free g" "vtr_map g' = vtr_map g"
      "blk_vtr_dlist g' = blk_vtr_dlist g"
    using rest by (simp_all add: same_rest_def)
  have inj': "ids_inj (blk_pool g')"
    using q by (simp add: queue_ok_def)
  have sb: "same_blks g g'"
  proof -
    have "map_option (\<lambda>b. (blk_id b, links_of b)) (map_option view (blk_pool g' j)) =
        map_option (\<lambda>b. (blk_id b, links_of b)) (map_option view (blk_pool g j))" for j
      using view by (simp add: same_view_def)
    then show ?thesis
      by (simp add: same_blks_def option.map_comp o_def)
  qed
  have "ghost_vtrs_ok g'"
    using same_vtrs_ok [OF sb same(4-7) P(3)] .
  then have "ghost_vtrs_ok (dropped i g')"
    using dropped_vtrs inj' by blast
  moreover have "map_option view (blk_pool (dropped i g') j) = (if j \<in> insert i R then None else map_option view (blk_pool g0 j))" for j
  proof -
    have "map_option view (blk_pool g' j) = (if j \<in> R then None else map_option view (blk_pool g0 j))"
      using view P(1) [of j] by (simp only: same_view_def)
    then show ?thesis
      by (cases "j = i") auto
  qed
  moreover have "vtr_pool (dropped i g') \<subseteq>\<^sub>m vtr_pool g0"
    using P(4) same(4,7) by (auto simp: map_le_def split: if_splits)
  moreover have "distinct (i # blk_free g)"
    using P(6,7) i prune_blk(2) [OF p i(2)] blks_okD(3) [OF ok0, of i] by auto
  ultimately show ?thesis
    unfolding prune_inv_def using queue_drop [OF q] P(5-9) same w by simp
qed

subsection \<open>The loop\<close>

lemma same_rest_vtrs:
  assumes rest: "same_rest g g'" and ok: "ghost_vtrs_ok g"
  shows "ghost_vtrs_ok g'"
proof -
  have "map_option (\<lambda>b. (blk_id b, links_of b)) (map_option view (blk_pool g' j)) =
      map_option (\<lambda>b. (blk_id b, links_of b)) (map_option view (blk_pool g j))" for j
    using rest by (simp add: same_rest_def same_view_def)
  then have sb: "same_blks g g'"
    by (simp add: same_blks_def option.map_comp o_def)
  show ?thesis
    using rest by (intro same_vtrs_ok [OF sb _ _ _ _ ok]) (simp_all add: same_rest_def)
qed

text \<open>The blocks to prune: queued subtrees without the new root's.\<close>

lemma outside_kids:
  assumes t: "ghost_tree s r kids dep" and i: "i \<in> dom s - desc s newr" and c: "c \<in> set (kids i)"
  shows "c \<in> desc s newr \<longleftrightarrow> c = newr"
proof -
  have id: "i \<in> dom s" "newr \<notin> anc s i"
    using i by (auto simp: desc_def)
  have "parent_of s c = Some i"
    using ghost_treeD(9) [OF t id(1)] c by simp
  then have "newr \<in> anc s c \<longleftrightarrow> newr = c"
    using anc_step [of s c i] id(2) by auto
  then show ?thesis
    using kid_dom [OF t id(1) c] by (auto simp: desc_def)
qed

lemma prune_next:
  assumes t: "ghost_tree s r kids dep" and a: "antichain s (i # xs)" and N: "set (i # xs) \<subseteq> dom s - desc s newr"
  defines "ks \<equiv> filter (\<lambda>c. c \<noteq> newr) (kids i)"
  shows "antichain s (xs @ ks)" "set (xs @ ks) \<subseteq> dom s - desc s newr"
    "subtrees s (i # xs) - desc s newr = insert i (subtrees s (xs @ ks) - desc s newr)" "i \<notin> subtrees s (xs @ ks)"
proof -
  have i: "i \<in> dom s" "i \<in> dom s - desc s newr"
    using N by auto
  show "antichain s (xs @ ks)"
    using antichain_next(1) [OF t a, of ks] ghost_treeD(8) [OF t i(1)] by (auto simp: ks_def)
  show "set (xs @ ks) \<subseteq> dom s - desc s newr"
    using N kid_dom [OF t i(1)] outside_kids [OF t i(2)] by (auto simp: ks_def)
  show "i \<notin> subtrees s (xs @ ks)"
    using subtrees_next(2) [OF t a] by (auto simp: ks_def)
  have "subtrees s (kids i) - desc s newr = subtrees s ks - desc s newr"
    by (auto simp: ks_def)
  then show "subtrees s (i # xs) - desc s newr = insert i (subtrees s (xs @ ks) - desc s newr)"
    using subtrees_next(1) [OF t a] i(2) by auto
qed

text \<open>The head of the queue in the partly pruned ghost.\<close>

lemma prune_head_links:
  assumes t: "ghost_tree (gshape g0) r kids dep" and p: "prune_inv g0 kids g R xs" and i: "i \<in> dom (gshape g0)" "i \<notin> R"
    and kids: "\<And>c. c \<in> set (kids i) \<Longrightarrow> c \<notin> R"
  obtains b where "blk_pool g i = Some b" "sibs (gshape g) (blk_child b) (kids i)"
proof -
  obtain b where b: "blk_pool g i = Some b"
    using i(1) prune_blk(2) [OF p i(2)] by auto
  have "sibs (gshape g0) (blk_child b) (kids i)"
    using ghost_treeD(7) [OF t, of i "links_of b"] prune_blk(1) [OF p i(2)] shape_some [of "blk_pool g", OF b] by simp
  moreover have "sibs (gshape g) (blk_child b) (kids i) = sibs (gshape g0) (blk_child b) (kids i)"
    using prune_blk(1) [OF p] kids by (intro sibs_cong) simp
  ultimately show thesis
    using that [OF b] by simp
qed

lemma prune_head_width:
  assumes inv: "ghost_inv g0 r kids dep" and p: "prune_inv g0 kids g R xs" and i: "i \<in> dom (blk_pool g0)" "i \<notin> R"
  shows "length (kids i) - 1 \<le> ghost_width g" "ghost_width g < 2 ^ 64"
    "ghost_width g - (length (kids i) - 1) = 1 + (\<Sum>i \<in> dom (blk_pool g0) - insert i R. length (kids i) - 1)"
proof -
  note I = ghost_invD [OF inv] and P = prune_invD [OF p]
  have fin: "finite (dom (blk_pool g0))" "i \<in> dom (blk_pool g0) - R"
    using ghost_treeD(1) [OF I(2)] i by simp_all
  have rem: "(\<Sum>i \<in> dom (blk_pool g0) - R. length (kids i) - 1) =
      (length (kids i) - 1) + (\<Sum>i \<in> dom (blk_pool g0) - insert i R. length (kids i) - 1)"
    using sum.remove [OF finite_Diff [OF fin(1)] fin(2), of "\<lambda>i. length (kids i) - 1"]
    by (simp only: Diff_insert [of "dom (blk_pool g0)" i R])
  have "(\<Sum>i \<in> dom (blk_pool g0) - R. length (kids i) - 1) \<le> extra_kids g0 kids"
    unfolding extra_kids_def using fin(1) by (intro sum_mono2) auto
  then have "ghost_width g \<le> card (dom (blk_pool g0))"
    using P(10) extra_kids_less [OF inv] by linarith
  then show "ghost_width g < 2 ^ 64"
    using card_blks [OF I(3)] blks_okD(1) [OF I(3)] by linarith
  show "length (kids i) - 1 \<le> ghost_width g"
    "ghost_width g - (length (kids i) - 1) = 1 + (\<Sum>i \<in> dom (blk_pool g0) - insert i R. length (kids i) - 1)"
    unfolding P(10) rem by simp_all
qed

lemma publish_round:
  fixes newr :: nat
  assumes inv: "ghost_inv g0 r kids dep" and p: "prune_inv g0 kids g R (i # ys)" and a: "antichain (gshape g0) (i # ys)"
    and i: "i \<notin> R" "\<And>c. c \<in> set (kids i) \<Longrightarrow> c \<notin> R" and tail: "tail = last (i # ys)"
  defines "ks \<equiv> filter (\<lambda>c. c \<noteq> newr) (kids i)"
  shows "\<exists>g'. publish_loop (Suc fuel) newr (Some i) tail g = publish_loop fuel newr (hd_opt (ys @ ks)) (last (i # ys @ ks)) g' \<and>
    prune_inv g0 kids g' (insert i R) (ys @ ks)"
proof -
  note I = ghost_invD [OF inv] and P = prune_invD [OF p]
  have id: "i \<in> dom (gshape g0)" "i \<in> dom (blk_pool g0)"
    using a by (simp_all add: antichain_def)
  obtain b where b: "blk_pool g i = Some b" "sibs (gshape g) (blk_child b) (kids i)"
    using prune_head_links [OF I(2) p id(1) i] .
  note W = prune_head_width [OF inv p id(2) i(1)]
  have ks: "distinct (kids i)" "length (kids i) < blk_pool_max g + 1"
    using ghost_treeD(8) [OF I(2) id(1)] length_kids [OF I(2) id(1)] card_blks [OF I(3)] P(8) by simp_all
  have dis: "set (i # ys) \<inter> set (kids i) = {}"
    using antichain_next(2) [OF I(2) a subset_refl ks(1)] .
  obtain g1 where g1: "publish_children (blk_pool_max g + 1) newr (blk_child b) tail g = Ok (last (i # ys @ ks), g1)"
      "queue_ok g1 (Some i) (i # ys @ ks)" "same_rest g g1" "ghost_width g1 = ghost_width g - (length (kids i) - 1)"
    using publish_children_spec [OF P(2) _ b(2) ks(2) dis ks(1) W(1,2), of newr] tail by (auto simp: ks_def)
  obtain b1 where b1: "blk_pool g1 i = Some b1"
    using same_viewD(3) [of "blk_pool g" "blk_pool g1" i b] g1(3) b(1) by (auto simp: same_rest_def)
  have nx: "blk_next b1 = hd_opt (ys @ ks)"
    using g1(2) b1 qseg_hd [of "blk_pool g1" "blk_next b1" "ys @ ks"] by (simp add: queue_ok_def)
  have "publish_loop (Suc fuel) newr (Some i) tail g = publish_loop fuel newr (hd_opt (ys @ ks)) (last (i # ys @ ks)) (dropped i g1)"
    using b(1) g1(1) b1 nx drain_run [OF same_rest_vtrs [OF g1(3) P(3)], of i]
    by (simp add: blk_at_eq dropped_def del: publish_children.simps)
  moreover have "prune_inv g0 kids (dropped i g1) (insert i R) (ys @ ks)"
    using b(1) W(3) g1(4) by (intro same_rest_prune [OF I(3) p g1(3,2) _ i(1)]) auto
  ultimately show ?thesis
    by blast
qed

lemma publish_loop_spec:
  assumes inv: "ghost_inv g0 r kids dep"
  defines "s \<equiv> gshape g0"
  shows "prune_inv g0 kids g R xs \<Longrightarrow> antichain s xs \<Longrightarrow> set xs \<subseteq> dom s - desc s newr \<Longrightarrow> R \<inter> subtrees s xs = {} \<Longrightarrow>
    R \<union> (subtrees s xs - desc s newr) = dom s - desc s newr \<Longrightarrow> (xs \<noteq> [] \<longrightarrow> tail = last xs) \<Longrightarrow>
    card (subtrees s xs - desc s newr) < fuel \<Longrightarrow>
    \<exists>g'. publish_loop fuel newr (hd_opt xs) tail g = Ok g' \<and> prune_inv g0 kids g' (dom s - desc s newr) []"
proof (induction fuel arbitrary: g R xs tail)
  case (Suc fuel)
  have t: "ghost_tree s r kids dep"
    using ghost_invD(2) [OF inv] by (simp add: s_def)
  show ?case
  proof (cases xs)
    case Nil
    then show ?thesis
      using Suc.prems(1,5) by simp
  next
    case (Cons i ys)
    let ?ks = "filter (\<lambda>c. c \<noteq> newr) (kids i)"
    have id: "i \<in> dom s" "i \<notin> R"
      using Suc.prems(3,4) Cons desc_self [of i s] by auto
    have kd: "c \<notin> R" if "c \<in> set (kids i)" for c
      using Suc.prems(4) Cons desc_kids [OF t id(1)] desc_self [OF kid_dom [OF t id(1) that]] that by auto
    obtain g1 where g1: "publish_loop (Suc fuel) newr (Some i) tail g = publish_loop fuel newr (hd_opt (ys @ ?ks)) (last (i # ys @ ?ks)) g1"
        "prune_inv g0 kids g1 (insert i R) (ys @ ?ks)"
      using publish_round [OF inv Suc.prems(1,2) [unfolded Cons s_def] id(2) kd, of tail fuel newr] Suc.prems(6) Cons
      by (auto simp del: publish_loop.simps)
    note N = prune_next [OF t Suc.prems(2,3) [unfolded Cons]]
    have run: "publish_loop (Suc fuel) newr (hd_opt xs) tail g = publish_loop fuel newr (hd_opt (ys @ ?ks)) (last (i # ys @ ?ks)) g1"
      using g1(1) Cons by (simp del: publish_loop.simps)
    show ?thesis
      unfolding run
    proof (rule Suc.IH [OF g1(2) N(1,2)])
      show "insert i R \<inter> subtrees s (ys @ ?ks) = {}"
        using N(4) Suc.prems(4) desc_kids [OF t id(1)] Cons by auto
      show "insert i R \<union> (subtrees s (ys @ ?ks) - desc s newr) = dom s - desc s newr"
        using Suc.prems(5) N(3) Cons by auto
      show "card (subtrees s (ys @ ?ks) - desc s newr) < fuel"
        using Suc.prems(7) N(3,4) Cons finite_desc [OF t] by simp
    qed auto
  qed
qed simp

end
