(* ===== verification/Ghost_Root.thy ===== *)
theory Ghost_Root
  imports Ghost_Publish
begin

text \<open>
  Publishing a new root: what is left is the new root's subtree, with the voters parked on it.
\<close>

subsection \<open>Subtrees\<close>

definition subtree :: "shape \<Rightarrow> nat \<Rightarrow> shape" where
  "subtree s n i = (if i \<notin> desc s n then None else if i = n then map_option (\<lambda>l. l\<lparr>lk_parent := None, lk_sibling := None\<rparr>) (s i) else s i)"

lemma dom_subtree: "dom (subtree s n) = desc s n"
  using desc_dom [of s n] by (auto simp: subtree_def split: if_splits)

lemma parent_subtree: "parent_of (subtree s n) i = Some p \<longleftrightarrow> i \<in> desc s n \<and> i \<noteq> n \<and> parent_of s i = Some p"
  by (cases "s i") (auto simp: subtree_def parent_of_def)

lemma parent_in_desc: "parent_of s j = Some i \<Longrightarrow> i \<in> desc s n \<Longrightarrow> j \<in> desc s n"
  using parent_dom [of s j i] anc_step [of s j i] by (auto simp: desc_def)

lemma parent_below: "ghost_tree s r kids dep \<Longrightarrow> parent_of s j = Some i \<Longrightarrow> i \<in> desc s n \<Longrightarrow> j \<noteq> n"
  using anc_parent_not [of s r kids dep j i] by (auto simp: desc_def)

lemma desc_subtree:
  assumes t: "ghost_tree s r kids dep" and i: "i \<in> desc s n"
  shows "desc (subtree s n) i = desc s i"
proof -
  have n: "n \<in> anc s i"
    using i by (simp add: desc_def)
  have "par (subtree s n) \<subseteq> par s"
    by (auto simp: par_def parent_subtree)
  then have up: "(j, i) \<in> (par (subtree s n))\<^sup>* \<Longrightarrow> (j, i) \<in> (par s)\<^sup>*" for j
    using rtrancl_mono by blast
  have down: "(j, i) \<in> (par (subtree s n))\<^sup>*" if "(j, i) \<in> (par s)\<^sup>*" for j
    using that
  proof (induction rule: converse_rtrancl_induct)
    case (step j k)
    have jk: "parent_of s j = Some k" "n \<in> anc s k"
      using step.hyps n by (auto simp: par_def)
    then have "k \<in> desc s n"
      using ghost_treeD(4) [OF t jk(1)] by (simp add: desc_def)
    then have "parent_of (subtree s n) j = Some k"
      using parent_in_desc [OF jk(1)] parent_below [OF t jk(1)] jk(1) by (simp add: parent_subtree)
    then show ?case
      using step.IH by (auto simp: par_def intro: converse_rtrancl_into_rtrancl)
  qed simp
  have "j \<in> desc s n" if "j \<in> desc s i" for j
    using that n anc_trans [of i j s n] by (auto simp: desc_def)
  then show ?thesis
    using up down dom_subtree [of s n] desc_dom [of s n] by (auto simp: desc_def)
qed

lemma subtree_tree:
  assumes t: "ghost_tree s r kids dep" and n: "n \<in> dom s"
  shows "ghost_tree (subtree s n) n kids dep"
  unfolding ghost_tree_def dom_subtree
proof (intro conjI ballI allI impI)
  show "finite (desc s n)"
    using finite_desc [OF t] .
  show "n \<in> desc s n" "parent_of (subtree s n) n = None"
    using desc_self [OF n] parent_subtree [of s n n] by (simp, metis not_None_eq)
  show "\<exists>p \<in> desc s n. parent_of (subtree s n) i = Some p \<and> dep i = Suc (dep p)" if i: "i \<in> desc s n" "i \<noteq> n" for i
  proof -
    have "n \<in> anc s i"
      using i(1) by (simp add: desc_def)
    then obtain p where p: "parent_of s i = Some p" "n \<in> anc s p"
      using i(2) anc_root [of s i] anc_step [of s i] by (cases "parent_of s i") auto
    then have "p \<in> desc s n"
      using ghost_treeD(4) [OF t p(1)] by (simp add: desc_def)
    then show ?thesis
      using p(1) i ghost_treeD(5) [OF t p(1)] parent_subtree [of s n i p] by blast
  qed
next
  fix i l
  assume l: "subtree s n i = Some l"
  then obtain l0 where l0: "s i = Some l0" "lk_child l = lk_child l0" "i \<in> desc s n"
    by (auto simp: subtree_def split: if_splits)
  then have d: "i \<in> dom s"
    by blast
  have kid: "j \<in> desc s n \<and> j \<noteq> n" if "j \<in> set (kids i)" for j
    using that ghost_treeD(9) [OF t d, of j] parent_in_desc [of s j i n] parent_below [OF t, of j i n] l0(3) by blast
  then have "sibs (subtree s n) (lk_child l0) (kids i) = sibs s (lk_child l0) (kids i)"
    by (intro sibs_cong) (simp add: subtree_def)
  then show "sibs (subtree s n) (lk_child l) (kids i)" "distinct (kids i)"
    using ghost_treeD(7) [OF t l0(1)] ghost_treeD(8) [OF t d] l0(2) by simp_all
  show "j \<in> set (kids i) \<longleftrightarrow> parent_of (subtree s n) j = Some i" for j
    using kid [of j] ghost_treeD(9) [OF t d, of j] parent_subtree [of s n j i] by blast
qed

subsection \<open>The ghost that is left\<close>

definition rerooted :: "nat \<Rightarrow> fd_ghost \<Rightarrow> fd_ghost" where
  "rerooted n g = g\<lparr>blk_pool := upd_on {n} (\<lambda>b. b\<lparr>blk_parent := None, blk_sibling := None\<rparr>) (blk_pool g), ghost_root := Some n\<rparr>"

lemma rerooted_simps [simp]:
  "ghost_root (rerooted n g) = Some n" "ghost_width (rerooted n g) = ghost_width g" "blk_pool_max (rerooted n g) = blk_pool_max g"
  "blk_free (rerooted n g) = blk_free g" "blk_map (rerooted n g) = blk_map g" "vtr_pool (rerooted n g) = vtr_pool g"
  "vtr_free (rerooted n g) = vtr_free g" "vtr_map (rerooted n g) = vtr_map g" "blk_vtr_dlist (rerooted n g) = blk_vtr_dlist g"
  by (simp_all add: rerooted_def)

lemma rerooted_blk:
  "blk_pool (rerooted n g) i = map_option (\<lambda>b. if i = n then b\<lparr>blk_parent := None, blk_sibling := None\<rparr> else b) (blk_pool g i)"
  by (simp add: rerooted_def upd_on_def option.map_id0 id_def [symmetric])

lemma rerooted_id: "(\<exists>b. blk_pool (rerooted n g) i = Some b \<and> blk_id b = k) \<longleftrightarrow> (\<exists>b. blk_pool g i = Some b \<and> blk_id b = k)"
  by (cases "blk_pool g i") (auto simp: rerooted_blk)

lemma rerooted_vtrs_ok: "ghost_vtrs_ok g \<Longrightarrow> ghost_vtrs_ok (rerooted n g)"
proof -
  assume ok: "ghost_vtrs_ok g"
  have eq: "(\<exists>w b. vtr_pool g v = Some w \<and> blk_pool (rerooted n g) i = Some b \<and> vtr_prev_block_id w = blk_id b) \<longleftrightarrow>
      (\<exists>w b. vtr_pool g v = Some w \<and> blk_pool g i = Some b \<and> vtr_prev_block_id w = blk_id b)" for v i
    using rerooted_id [of n g i] by metis
  show ?thesis
    using ok unfolding ghost_vtrs_ok_def rerooted_simps eq .
qed

text \<open>The pruned ghost, seen from the one before.\<close>

lemma pruned_blk:
  assumes p: "prune_inv g0 kids g (dom (gshape g0) - desc (gshape g0) n) []"
  shows "map_option view (blk_pool g i) = (if i \<in> desc (gshape g0) n then map_option view (blk_pool g0 i) else None)"
  using prune_invD(1) [OF p, of i] by (auto simp: domIff)

lemma pruned_shape:
  assumes p: "prune_inv g0 kids g (dom (gshape g0) - desc (gshape g0) n) []"
  shows "gshape (rerooted n g) = subtree (gshape g0) n" "dom (blk_pool (rerooted n g)) = desc (gshape g0) n"
proof -
  show s: "gshape (rerooted n g) = subtree (gshape g0) n"
  proof
    fix i
    have "gshape g i = (if i \<in> desc (gshape g0) n then gshape g0 i else None)"
      using arg_cong [OF pruned_blk [OF p, of i], of "map_option links_of"] by (auto simp: shape_def option.map_comp o_def)
    then show "gshape (rerooted n g) i = subtree (gshape g0) n i"
      by (cases "blk_pool g i"; cases "blk_pool g0 i") (auto simp: shape_def rerooted_blk subtree_def links_of_def split: if_splits)
  qed
  show "dom (blk_pool (rerooted n g)) = desc (gshape g0) n"
    using dom_shape [of "blk_pool (rerooted n g)"] dom_subtree [of "gshape g0" n] by (simp only: s)
qed

lemma pruned_blks_ok:
  assumes p: "prune_inv g0 kids g (dom (gshape g0) - desc (gshape g0) n) []" and ok: "ghost_blks_ok g0"
  shows "ghost_blks_ok (rerooted n g)"
proof -
  note P = prune_invD [OF p]
  have d: "desc (gshape g0) n \<subseteq> dom (blk_pool g0)"
    using desc_dom [of "gshape g0" n] by simp
  have "queued_map g {}"
    using P(2) by (simp add: queue_ok_def)
  then have "blk_map g k = Some i \<longleftrightarrow> (\<exists>b. blk_pool (rerooted n g) i = Some b \<and> blk_id b = k)" for k i
    unfolding rerooted_id by (simp add: queued_map_def)
  moreover have "desc (gshape g0) n \<inter> set (blk_free g) = {}" "desc (gshape g0) n \<union> set (blk_free g) = {..<blk_pool_max g}"
    using P(7,8) d blks_okD(3,4) [OF ok] by auto
  ultimately show ?thesis
    using P(6,8) blks_okD(1) [OF ok] by (simp add: ghost_blks_ok_def pruned_shape(2) [OF p])
qed

text \<open>A voter stays exactly when it is parked in the kept subtree.\<close>

lemma pruned_vtr:
  assumes p: "prune_inv g0 kids g (dom (gshape g0) - desc (gshape g0) n) []" and ok: "ghost_vtrs_ok g0"
  shows "vtr_pool g v = Some w \<longleftrightarrow>
    vtr_pool g0 v = Some w \<and> (\<exists>i \<in> desc (gshape g0) n. \<exists>b. blk_pool g0 i = Some b \<and> blk_id b = vtr_prev_block_id w)"
proof
  note P = prune_invD [OF p]
  assume v: "vtr_pool g v = Some w"
  then obtain i b where i: "blk_pool g i = Some b" "vtr_prev_block_id w = blk_id b"
    using vtrs_okD(6) [OF P(3), of v] vtrs_okD(5) [OF P(3), of v] by auto
  have "i \<in> desc (gshape g0) n" "\<exists>b0. blk_pool g0 i = Some b0 \<and> view b0 = view b"
    using pruned_blk [OF p, of i] i(1) by (cases "blk_pool g0 i"; simp split: if_splits)+
  then show "vtr_pool g0 v = Some w \<and> (\<exists>i \<in> desc (gshape g0) n. \<exists>b. blk_pool g0 i = Some b \<and> blk_id b = vtr_prev_block_id w)"
    using P(4) v i(2) view_fields by (metis domI map_le_def)
next
  note P = prune_invD [OF p]
  assume v: "vtr_pool g0 v = Some w \<and> (\<exists>i \<in> desc (gshape g0) n. \<exists>b. blk_pool g0 i = Some b \<and> blk_id b = vtr_prev_block_id w)"
  then obtain i b where i: "i \<in> desc (gshape g0) n" "blk_pool g0 i = Some b" "blk_id b = vtr_prev_block_id w"
    by blast
  have "v \<in> set (blk_vtr_dlist g0 i)"
    using vtrs_okD(5) [OF ok, of v i] v i by auto
  then have "v \<in> dom (vtr_pool g)"
    using P(5) [of i] i(1) vtrs_okD(5) [OF P(3), of v i] by auto
  then show "vtr_pool g v = Some w"
    using P(4) v by (metis map_le_def)
qed

lemma pruned_votes:
  assumes p: "prune_inv g0 kids g (dom (gshape g0) - desc (gshape g0) n) []" and j: "j \<in> desc (gshape g0) n"
  shows "votes_on (rerooted n g) j = votes_on g0 j"
proof -
  note P = prune_invD [OF p]
  have d: "blk_vtr_dlist g j = blk_vtr_dlist g0 j"
    using P(5) [of j] j by simp
  have "vtr_pool g v = vtr_pool g0 v" if "v \<in> set (blk_vtr_dlist g j)" for v
    using P(4) that vtrs_okD(5) [OF P(3), of v j] by (auto simp: map_le_def)
  then show ?thesis
    by (simp add: votes_on_def d)
qed

lemma pruned_stake:
  assumes p: "prune_inv g0 kids g (dom (gshape g0) - desc (gshape g0) n) []" and i: "i \<in> desc (gshape g0) n"
    and b: "blk_pool (rerooted n g) i = Some b"
  shows "\<exists>b0. blk_pool g0 i = Some b0 \<and> blk_stake b0 = blk_stake b"
proof -
  have "map_option blk_stake (blk_pool g i) = map_option blk_stake (blk_pool g0 i)"
    using arg_cong [OF pruned_blk [OF p, of i], of "map_option blk_stake"] i by (simp add: option.map_comp o_def)
  then show ?thesis
    using b by (cases "blk_pool g0 i") (auto simp: rerooted_blk)
qed

lemma pruned_inv:
  assumes inv: "ghost_inv g0 r kids dep" and p: "prune_inv g0 kids g (dom (gshape g0) - desc (gshape g0) n) []"
    and n: "n \<in> dom (blk_pool g0)"
  shows "ghost_inv (rerooted n g) n kids dep"
proof -
  note I = ghost_invD [OF inv] and P = prune_invD [OF p] and S = pruned_shape [OF p]
  let ?D = "desc (gshape g0) n"
  have "ghost_stake_ok (rerooted n g)"
    unfolding ghost_stake_ok_def S(1)
  proof (intro allI impI)
    fix i b
    assume b: "blk_pool (rerooted n g) i = Some b"
    then have i: "i \<in> ?D"
      using S(2) by blast
    obtain b0 where b0: "blk_pool g0 i = Some b0" "blk_stake b0 = blk_stake b"
      using pruned_stake [OF p i b] by blast
    have "desc (gshape g0) i \<subseteq> ?D"
      using i by (auto simp: desc_def)
    then have "(\<Sum>j \<in> desc (gshape g0) i. votes_on (rerooted n g) j) = (\<Sum>j \<in> desc (gshape g0) i. votes_on g0 j)"
      using pruned_votes [OF p] by (intro sum.cong) auto
    then show "blk_stake b = (\<Sum>j \<in> desc (subtree (gshape g0) n) i. votes_on (rerooted n g) j)"
      unfolding desc_subtree [OF I(2) i] using b0 stake_okD [OF I(5), of i b0] by simp
  qed
  moreover have "dom (blk_pool g0) - (dom (gshape g0) - ?D) = ?D"
    using desc_dom [of "gshape g0" n] by auto
  then have "ghost_width (rerooted n g) = 1 + extra_kids (rerooted n g) kids"
    using P(10) by (simp add: extra_kids_def S(2))
  ultimately show ?thesis
    using subtree_tree [OF I(2), of n] n pruned_blks_ok [OF p I(3)] rerooted_vtrs_ok [OF P(3)] by (simp add: ghost_inv_def S(1))
qed

lemma pruned_latest:
  assumes inv: "ghost_inv g0 r kids dep" and p: "prune_inv g0 kids g (dom (gshape g0) - desc (gshape g0) n) []"
  shows "latest_vote (rerooted n g) acc = Some (s, st, k) \<longleftrightarrow>
    latest_vote g0 acc = Some (s, st, k) \<and> (\<exists>i \<in> desc (gshape g0) n. \<exists>b. blk_pool g0 i = Some b \<and> blk_id b = k)"
proof -
  have latest: "latest_vote h acc = Some (s, st, k) \<longleftrightarrow>
      (\<exists>v w. vtr_pool h v = Some w \<and> vtr_addr w = acc \<and> s = vtr_prev_slot w \<and> st = vtr_prev_stake w \<and> k = vtr_prev_block_id w)"
    if "ghost_vtrs_ok h" for h
  proof -
    have "latest_vote h acc = Some (s, st, k) \<longleftrightarrow>
        (\<exists>v w. vtr_map h acc = Some v \<and> vtr_pool h v = Some w \<and> s = vtr_prev_slot w \<and> st = vtr_prev_stake w \<and> k = vtr_prev_block_id w)"
      by (auto simp: latest_vote_def bind_eq_Some_conv)
    moreover have "vtr_map h acc = Some v \<and> vtr_pool h v = Some w \<longleftrightarrow> vtr_pool h v = Some w \<and> vtr_addr w = acc" for v w
      using vtrs_okD(3) [OF that, of acc v] by auto
    ultimately show ?thesis
      by blast
  qed
  show ?thesis
    unfolding latest [OF ghost_invD(4) [OF inv]] latest [OF rerooted_vtrs_ok [OF prune_invD(3) [OF p]]] rerooted_simps
      pruned_vtr [OF p ghost_invD(4) [OF inv]] by blast
qed

subsection \<open>Publishing\<close>

lemma publish_same: "ghost_root g = Some r \<Longrightarrow> fd_ghost_publish r g = Ok g"
  by (simp add: fd_ghost_publish_def fd_ghost_root_def)

lemma fd_ghost_publish_spec:
  assumes inv: "ghost_inv g r kids dep" and n: "n \<in> dom (blk_pool g)" "n \<noteq> r"
  shows "\<exists>g1. fd_ghost_publish n g = Ok (rerooted n g1) \<and> prune_inv g kids g1 (dom (gshape g) - desc (gshape g) n) []"
proof -
  note I = ghost_invD [OF inv]
  obtain b where b: "blk_pool g r = Some b"
    using ghost_treeD(2) [OF I(2)] by auto
  note S = queue_start [OF I(3) b]
  let ?g1 = "g\<lparr>blk_map := (blk_map g)(blk_id b := None), blk_pool := (blk_pool g)(r \<mapsto> b\<lparr>blk_next := None\<rparr>)\<rparr>"
  have "n \<notin> anc (gshape g) r"
    using anc_root [OF ghost_treeD(3) [OF I(2)]] n(2) by blast
  then have r: "r \<in> dom (gshape g)" "r \<notin> desc (gshape g) n" "desc (gshape g) r = dom (gshape g)"
    using ghost_treeD(2) [OF I(2)] desc_root [OF I(2)] by (simp_all add: desc_def)
  have view: "map_option view (blk_pool ?g1 i) = map_option view (blk_pool g i)" for i
    using S(4) by (simp add: same_rest_def same_view_def)
  have "prune_inv g kids ?g1 {} [r]"
    using S(3) view same_rest_vtrs [OF S(4) I(4)] blks_okD(2) [OF I(3)] I(6) by (simp add: prune_inv_def extra_kids_def)
  moreover have "card (subtrees (gshape g) [r] - desc (gshape g) n) < blk_pool_max ?g1 + 1"
    using card_blks [OF I(3)] card_mono [OF ghost_treeD(1) [OF I(2)], of "dom (gshape g) - desc (gshape g) n"] r(3) by simp
  ultimately have "\<exists>g'. publish_loop (blk_pool_max ?g1 + 1) n (hd_opt [r]) r ?g1 = Ok g' \<and>
      prune_inv g kids g' (dom (gshape g) - desc (gshape g) n) []"
    using r by (intro publish_loop_spec [OF inv]) (auto simp: antichain_def)
  then obtain g2 where g2: "publish_loop (blk_pool_max ?g1 + 1) n (Some r) r ?g1 = Ok g2"
      "prune_inv g kids g2 (dom (gshape g) - desc (gshape g) n) []"
    by auto
  obtain nb where nb: "blk_pool g2 n = Some nb"
    using pruned_blk [OF g2(2), of n] n(1) desc_self [of n "gshape g"] by auto
  have "fd_ghost_publish n g = rbind (publish_loop (blk_pool_max ?g1 + 1) n (Some r) r ?g1) (\<lambda>g.
      rbind (blk_upd n (\<lambda>b. b\<lparr>blk_parent := None, blk_sibling := None\<rparr>) g) (\<lambda>g. Ok (g\<lparr>ghost_root := Some n\<rparr>)))"
    unfolding fd_ghost_publish_def fd_ghost_root_def I(1) option.case if_not_P [OF n(2) [symmetric]] blk_at_eq [OF b] rbind.simps
      blk_map_remove_def Let_def prod.case S(1) S(2) ..
  also have "\<dots> = Ok (rerooted n g2)"
    unfolding g2(1) rbind.simps blk_upd_eq [OF nb] rerooted_def upd_on_single [of "blk_pool g2", OF nb] by simp
  finally show ?thesis
    using g2(2) by blast
qed

end
