(* ===== verification/Ghost_Best.thy ===== *)
theory Ghost_Best
  imports Ghost_Vote
begin

text \<open>Fork choice: from a block, go to the heaviest valid child as long as there is a valid child.\<close>

definition best_kid :: "(nat \<rightharpoonup> fd_ghost_blk) \<Rightarrow> nat list \<Rightarrow> nat \<Rightarrow> bool" where
  "best_kid h ks c \<longleftrightarrow> c \<in> set ks \<and> blk_valid (the (h c)) \<and>
     (\<forall>x \<in> set ks. blk_valid (the (h x)) \<longrightarrow> blk_stake (the (h x)) < blk_stake (the (h c)) \<or>
        blk_stake (the (h x)) = blk_stake (the (h c)) \<and> blk_slot (the (h c)) \<le> blk_slot (the (h x)))"

definition no_valid_kid :: "(nat \<rightharpoonup> fd_ghost_blk) \<Rightarrow> nat list \<Rightarrow> bool" where
  "no_valid_kid h ks \<longleftrightarrow> (\<forall>x \<in> set ks. \<not> blk_valid (the (h x)))"

inductive fork_choice :: "(nat \<rightharpoonup> fd_ghost_blk) \<Rightarrow> (nat \<Rightarrow> nat list) \<Rightarrow> nat \<Rightarrow> nat \<Rightarrow> bool"
  for h kids where
  fc_stop: "no_valid_kid h (kids i) \<Longrightarrow> fork_choice h kids i i"
| fc_step: "best_kid h (kids i) c \<Longrightarrow> fork_choice h kids c b \<Longrightarrow> fork_choice h kids i b"

inductive_cases fork_choiceE: "fork_choice h kids i b"

lemma best_child_loop_spec:
  assumes "sibs (gshape g) q xs" "length xs < fuel" "set ys \<subseteq> dom (blk_pool g)"
    "if valid then best_kid (blk_pool g) ys best else no_valid_kid (blk_pool g) ys"
  shows "\<exists>best' valid'. best_child_loop fuel g q best valid = Ok (best', valid') \<and> (\<not> valid' \<longrightarrow> best' = best) \<and> (valid \<longrightarrow> valid') \<and>
    (if valid' then best_kid (blk_pool g) (ys @ xs) best' else no_valid_kid (blk_pool g) (ys @ xs))"
  using assms
proof (induction xs arbitrary: q ys best valid fuel)
  case Nil
  then show ?case
    by (cases fuel) auto
next
  case (Cons x xs)
  then obtain f where f: "fuel = Suc f"
    by (cases fuel) auto
  obtain cb where cb: "blk_pool g x = Some cb" "q = Some x" "sibs (gshape g) (blk_sibling cb) xs"
    using Cons.prems(1) by (auto simp: shape_eq_Some)
  have ysx: "set (ys @ [x]) \<subseteq> dom (blk_pool g)" "length xs < f"
    using Cons.prems(2,3) cb(1) f by auto
  show ?case
  proof (cases "blk_valid cb")
    case False
    then have inv: "if valid then best_kid (blk_pool g) (ys @ [x]) best else no_valid_kid (blk_pool g) (ys @ [x])"
      using Cons.prems(4) cb(1) by (auto simp: best_kid_def no_valid_kid_def split: if_splits)
    have run: "best_child_loop fuel g q best valid = best_child_loop f g (blk_sibling cb) best valid"
      using f cb False by (simp add: blk_at_eq)
    show ?thesis
      unfolding run using Cons.IH [OF cb(3) ysx(2,1) inv] by (simp only: append_assoc append_Cons append_Nil)
  next
    case True
    define b0 where "b0 = (if \<not> valid then x else best)"
    have "b0 \<in> dom (blk_pool g)"
      using Cons.prems(3,4) cb(1) by (auto simp: b0_def best_kid_def)
    then obtain bb where bb: "blk_pool g b0 = Some bb"
      by blast
    define b1 where "b1 = (if (if blk_stake cb = blk_stake bb then blk_slot cb < blk_slot bb else blk_stake cb > blk_stake bb)
        then x else b0)"
    have inv: "best_kid (blk_pool g) (ys @ [x]) b1"
    proof (cases valid)
      case True
      then show ?thesis
        using Cons.prems(4) cb(1) bb \<open>blk_valid cb\<close> unfolding best_kid_def b1_def b0_def by (auto split: if_splits)
    next
      case False
      then have "b1 = x"
        using bb cb(1) by (simp add: b0_def b1_def)
      then show ?thesis
        using False Cons.prems(4) cb(1) \<open>blk_valid cb\<close> by (auto simp: best_kid_def no_valid_kid_def)
    qed
    have run: "best_child_loop fuel g q best valid = best_child_loop f g (blk_sibling cb) b1 True"
      using f cb True bb by (simp add: blk_at_eq Let_def b0_def b1_def)
    obtain b v where "best_child_loop f g (blk_sibling cb) b1 True = Ok (b, v)" "True \<longrightarrow> v"
        "if v then best_kid (blk_pool g) ((ys @ [x]) @ xs) b else no_valid_kid (blk_pool g) ((ys @ [x]) @ xs)"
      using Cons.IH [OF cb(3) ysx(2,1), of True b1] inv unfolding if_True by blast
    then show ?thesis
      unfolding run by (intro exI [of _ b] exI [of _ True]) simp
  qed
qed

lemma fd_ghost_best_loop_spec:
  assumes t: "ghost_tree (gshape g) r kids dep" and m: "card (dom (blk_pool g)) \<le> blk_pool_max g"
  shows "i \<in> dom (blk_pool g) \<Longrightarrow> card (desc (gshape g) i) < fuel \<Longrightarrow>
    \<exists>b. fd_ghost_best_loop fuel g i = Ok b \<and> fork_choice (blk_pool g) kids i b"
proof (induction fuel arbitrary: i)
  case (Suc fuel)
  then obtain ib where ib: "blk_pool g i = Some ib"
    by blast
  have i: "i \<in> dom (gshape g)"
    using Suc.prems(1) by simp
  have sibs: "sibs (gshape g) (blk_child ib) (kids i)"
    using ghost_treeD(7) [OF t shape_some [of "blk_pool g", OF ib]] by simp
  have "length (kids i) < blk_pool_max g + 1"
    using length_kids [OF t i] m by simp
  then obtain b v where bv: "best_child_loop (blk_pool_max g + 1) g (blk_child ib) i False = Ok (b, v)" "\<not> v \<longrightarrow> b = i"
      "if v then best_kid (blk_pool g) (kids i) b else no_valid_kid (blk_pool g) (kids i)"
  proof -
    have "if False then best_kid (blk_pool g) [] i else no_valid_kid (blk_pool g) []"
      by (simp add: no_valid_kid_def)
    from best_child_loop_spec [OF sibs \<open>length (kids i) < blk_pool_max g + 1\<close> _ this] show thesis
      using that unfolding append_Nil by auto
  qed
  show ?case
  proof (cases v)
    case True
    then have kid: "b \<in> set (kids i)" "best_kid (blk_pool g) (kids i) b"
      using bv(3) by (simp_all add: best_kid_def)
    then have "blk_child ib \<noteq> None"
      using sibs by (cases "kids i") auto
    moreover have "desc (gshape g) b \<subset> desc (gshape g) i"
      using desc_kids [OF t i] self_not_in_kid [OF t i kid(1)] kid(1) by blast
    then have "card (desc (gshape g) b) < card (desc (gshape g) i)"
      using finite_desc [OF t] by (simp add: psubset_card_mono)
    then obtain c where "fd_ghost_best_loop fuel g b = Ok c" "fork_choice (blk_pool g) kids b c"
      using Suc.IH [of b] Suc.prems(2) kid_dom [OF t i kid(1)] by auto
    ultimately show ?thesis
      using ib bv True fc_step [of "blk_pool g" kids, OF kid(2)] by (auto simp: blk_at_eq simp del: best_child_loop.simps)
  next
    case False
    then have "fork_choice (blk_pool g) kids i i" "b = i"
      using bv fc_stop by auto
    then show ?thesis
      using ib bv(1) False by (auto simp: blk_at_eq simp del: best_child_loop.simps)
  qed
qed simp

lemma fd_ghost_best_spec:
  assumes inv: "ghost_inv g r kids dep" and i: "i \<in> dom (blk_pool g)"
  shows "\<exists>b. fd_ghost_best g i = Ok b \<and> fork_choice (blk_pool g) kids i b"
proof -
  have "card (desc (gshape g) i) < blk_pool_max g + 1"
    using card_mono [OF ghost_treeD(1) [OF ghost_invD(2) [OF inv]] desc_dom, of i] card_blks [OF ghost_invD(3) [OF inv]] by simp
  then show ?thesis
    unfolding fd_ghost_best_def
    by (rule fd_ghost_best_loop_spec [OF ghost_invD(2) [OF inv] card_blks [OF ghost_invD(3) [OF inv]] i])
qed

text \<open>
  The choice is unique when no two valid siblings have both the same stake and the same slot, which
  is the case as long as at most one block per slot is duplicate confirmed.
\<close>

lemma best_kid_unique:
  assumes "best_kid h ks c" "best_kid h ks d"
    and "\<And>x y. x \<in> set ks \<Longrightarrow> y \<in> set ks \<Longrightarrow> blk_valid (the (h x)) \<Longrightarrow> blk_valid (the (h y)) \<Longrightarrow>
      blk_stake (the (h x)) = blk_stake (the (h y)) \<Longrightarrow> blk_slot (the (h x)) = blk_slot (the (h y)) \<Longrightarrow> x = y"
  shows "c = d"
  using assms(1,2) assms(3) [of c d] by (fastforce simp: best_kid_def)

lemma fork_choice_unique:
  assumes "fork_choice h kids i b" "fork_choice h kids i c"
    and "\<And>i x y. x \<in> set (kids i) \<Longrightarrow> y \<in> set (kids i) \<Longrightarrow> blk_valid (the (h x)) \<Longrightarrow> blk_valid (the (h y)) \<Longrightarrow>
      blk_stake (the (h x)) = blk_stake (the (h y)) \<Longrightarrow> blk_slot (the (h x)) = blk_slot (the (h y)) \<Longrightarrow> x = y"
  shows "b = c"
  using assms(1,2)
proof (induction rule: fork_choice.induct)
  case (fc_stop i)
  show ?case
    by (rule fork_choiceE [OF fc_stop.prems]) (use fc_stop.hyps in \<open>auto simp: no_valid_kid_def best_kid_def\<close>)
next
  case (fc_step i d b)
  show ?case
  proof (rule fork_choiceE [OF fc_step.prems])
    assume "no_valid_kid h (kids i)"
    then show ?thesis
      using fc_step.hyps(1) by (auto simp: no_valid_kid_def best_kid_def)
  next
    fix e
    assume "best_kid h (kids i) e" "fork_choice h kids e c"
    then show ?thesis
      using fc_step.IH best_kid_unique [OF fc_step.hyps(1), of e] assms(3) [where i = i] by blast
  qed
qed

end
