(* ===== verification/Ghost_Mark.thy ===== *)
theory Ghost_Mark
  imports Ghost_Vote
begin

text \<open>
  \<open>mark_invalid\<close> walks a subtree in preorder without a stack, along child, sibling and parent links.
\<close>

definition marked :: "nat set \<Rightarrow> fd_ghost \<Rightarrow> fd_ghost" where
  "marked S g = g\<lparr>blk_pool := upd_on S (\<lambda>b. b\<lparr>blk_valid := False\<rparr>) (blk_pool g)\<rparr>"

lemma marked_simps [simp]:
  "gshape (marked S g) = gshape g" "blk_pool_max (marked S g) = blk_pool_max g" "dom (blk_pool (marked S g)) = dom (blk_pool g)"
  by (simp_all add: marked_def shape_upd_on)

lemma marked_link:
  "blk_pool g i = Some b \<Longrightarrow> \<exists>b'. blk_pool (marked S g) i = Some b' \<and> links_of b' = links_of b"
  by (cases "i \<in> S") (auto simp: marked_def)

lemma mark_one:
  assumes "blk_pool g i = Some b"
  shows "blk_upd i (\<lambda>b. b\<lparr>blk_valid := False\<rparr>) (marked S g) = Ok (marked (insert i S) g)"
proof -
  have "(upd_on S (\<lambda>b. b\<lparr>blk_valid := False\<rparr>) (blk_pool g))(i \<mapsto> b\<lparr>blk_valid := False\<rparr>) =
      upd_on (insert i S) (\<lambda>b. b\<lparr>blk_valid := False\<rparr>) (blk_pool g)"
    using assms by (auto simp: upd_on_def)
  then show ?thesis
    using assms by (cases "i \<in> S") (simp_all add: blk_upd_def blk_at_def marked_def)
qed

text \<open>Backtracking reads links only, and has enough fuel once it can reach the root.\<close>

lemma backtrack_marked: "backtrack n (marked S g) r i = backtrack n g r i"
proof (induction n arbitrary: i)
  case (Suc n)
  show ?case
  proof (cases "blk_pool g i")
    case None
    then have "blk_pool (marked S g) i = None"
      by (simp add: marked_def upd_on_def)
    then show ?thesis
      using None by (simp add: blk_at_def)
  next
    case (Some b)
    then obtain b' where "blk_pool (marked S g) i = Some b'" "blk_sibling b' = blk_sibling b" "blk_parent b' = blk_parent b"
      using marked_link [of g i b S] by (auto simp: links_of_def)
    then show ?thesis
      using Suc.IH Some by (simp add: blk_at_eq split: option.split)
  qed
qed simp

lemma backtrack_fuel:
  assumes t: "ghost_tree (gshape g) r kids dep"
  shows "i \<in> dom (blk_pool g) \<Longrightarrow> card (anc (gshape g) i) \<le> n \<Longrightarrow> backtrack (Suc n) g root i = backtrack n g root i"
proof (induction n arbitrary: i)
  case 0
  then show ?case
    using anc_finite [OF t, of i] by auto
next
  case (Suc n)
  obtain b where b: "blk_pool g i = Some b"
    using Suc.prems(1) by blast
  show ?case
  proof (cases "i = root \<or> blk_sibling b \<noteq> None \<or> blk_parent b = None")
    case True
    then show ?thesis
      using b by (auto simp: blk_at_eq split: option.split)
  next
    case False
    then obtain p where p: "blk_parent b = Some p" "i \<noteq> root" "blk_sibling b = None"
      by auto
    then have par: "parent_of (gshape g) i = Some p"
      using parent_of_shape [OF b] by simp
    have "backtrack (Suc n) g root p = backtrack n g root p"
      using Suc.IH [of p] ghost_treeD(4) [OF t par] anc_card_step [OF t par] Suc.prems(2) by simp
    then show ?thesis
      using b p by (simp add: blk_at_eq)
  qed
qed

text \<open>What the loop does once the subtree of \<open>i\<close> has been visited.\<close>

definition resume :: "fd_ghost \<Rightarrow> nat \<Rightarrow> nat \<Rightarrow> nat set \<Rightarrow> nat \<Rightarrow> fd_ghost res" where
  "resume g root i S f =
     rbind (backtrack (blk_pool_max g + 1) g root i) (\<lambda>cur.
     if cur = root then Ok (marked S g) else mark_invalid_loop f root cur (marked S g))"

lemma mark_step:
  assumes b: "blk_pool g i = Some b"
  shows "mark_invalid_loop (Suc f) root i (marked S g) =
    (case blk_child b of Some c \<Rightarrow> mark_invalid_loop f root c (marked (insert i S) g) | None \<Rightarrow> resume g root i (insert i S) f)"
proof -
  obtain b' where "blk_pool (marked (insert i S) g) i = Some b'" "blk_child b' = blk_child b"
    using marked_link [OF b] by (auto simp: links_of_def)
  then show ?thesis
    using mark_one [OF b] by (simp add: blk_at_eq resume_def backtrack_marked del: backtrack.simps split: option.split)
qed

lemma resume_sibling:
  assumes "blk_pool g i = Some b" "i \<noteq> root" "blk_sibling b = Some s" "s \<noteq> root"
  shows "resume g root i S f = mark_invalid_loop f root s (marked S g)"
  using assms by (simp add: resume_def blk_at_eq)

lemma resume_parent:
  assumes t: "ghost_tree (gshape g) r kids dep" and m: "card (dom (blk_pool g)) \<le> blk_pool_max g"
    and b: "blk_pool g i = Some b" "i \<noteq> root" "blk_sibling b = None" "blk_parent b = Some p"
  shows "resume g root i S f = resume g root p S f"
proof -
  have par: "parent_of (gshape g) i = Some p"
    using parent_of_shape [OF b(1)] b(4) by simp
  have p: "p \<in> dom (gshape g)"
    using ghost_treeD(4) [OF t par] .
  have "backtrack (blk_pool_max g + 1) g root i = backtrack (blk_pool_max g) g root p"
    using b by (simp add: blk_at_eq)
  also have "\<dots> = backtrack (blk_pool_max g + 1) g root p"
    using backtrack_fuel [OF t, of p "blk_pool_max g" root] anc_card [OF t p] m p by simp
  finally show ?thesis
    by (simp add: resume_def)
qed

lemma sibs_mid: "sibs s q (pre @ c # cs) \<Longrightarrow> s c = Some l \<Longrightarrow> lk_sibling l = (case cs of [] \<Rightarrow> None | d # _ \<Rightarrow> Some d)"
proof (induction pre arbitrary: q)
  case Nil
  then show ?case
    by (auto dest: sibs_hd)
qed auto

lemma kid_links:
  assumes t: "ghost_tree (gshape g) r kids dep" and i: "i \<in> dom (gshape g)" and k: "kids i = pre @ c # cs"
  obtains cb where "blk_pool g c = Some cb" "blk_parent cb = Some i" "blk_sibling cb = (case cs of [] \<Rightarrow> None | d # _ \<Rightarrow> Some d)"
proof -
  have c: "c \<in> set (kids i)" "parent_of (gshape g) c = Some i"
    using k ghost_treeD(9) [OF t i] by auto
  obtain cb where cb: "blk_pool g c = Some cb"
    using kid_dom [OF t i c(1)] by auto
  obtain ib where ib: "blk_pool g i = Some ib"
    using i by auto
  have "sibs (gshape g) (blk_child ib) (pre @ c # cs)"
    using ghost_treeD(7) [OF t shape_some [of "blk_pool g", OF ib]] k by simp
  from sibs_mid [OF this shape_some [of "blk_pool g", OF cb]] show thesis
    using that [OF cb] c(2) parent_of_shape [OF cb] by simp
qed

lemma mark_kids:
  assumes t: "ghost_tree (gshape g) r kids dep" and m: "card (dom (blk_pool g)) \<le> blk_pool_max g"
    and i: "i \<in> desc (gshape g) root" "kids i = pre @ c # cs"
    and IH: "\<And>d S f. d \<in> set (kids i) \<Longrightarrow>
      mark_invalid_loop (card (desc (gshape g) d) + f) root d (marked S g) = resume g root d (S \<union> desc (gshape g) d) f"
  shows "mark_invalid_loop ((\<Sum>d \<leftarrow> c # cs. card (desc (gshape g) d)) + f) root c (marked S g) =
    resume g root i (S \<union> (\<Union>d \<in> set (c # cs). desc (gshape g) d)) f"
  using i(2)
proof (induction cs arbitrary: c pre S)
  case Nil
  have id: "i \<in> dom (gshape g)"
    using i(1) desc_dom by blast
  have c: "c \<in> set (kids i)" "parent_of (gshape g) c = Some i"
    using Nil ghost_treeD(9) [OF t id] by auto
  obtain cb where cb: "blk_pool g c = Some cb" "blk_parent cb = Some i" "blk_sibling cb = None"
    using kid_links [OF t id Nil] by auto
  have "c \<noteq> root"
    using i(1) anc_parent_not [OF t c(2)] by (auto simp: desc_def)
  then have "resume g root c S' f = resume g root i S' f" for S'
    using resume_parent [OF t m cb(1)] cb(2,3) by simp
  then show ?case
    using IH [OF c(1), of f S] by simp
next
  case (Cons d cs)
  have id: "i \<in> dom (gshape g)"
    using i(1) desc_dom by blast
  have c: "c \<in> set (kids i)" "d \<in> set (kids i)" "parent_of (gshape g) c = Some i" "parent_of (gshape g) d = Some i"
    using Cons.prems ghost_treeD(9) [OF t id] by auto
  obtain cb where cb: "blk_pool g c = Some cb" "blk_sibling cb = Some d"
    using kid_links [OF t id Cons.prems] by auto
  have "c \<noteq> root" "d \<noteq> root"
    using i(1) anc_parent_not [OF t c(3)] anc_parent_not [OF t c(4)] by (auto simp: desc_def)
  then have res: "resume g root c S' f' = mark_invalid_loop f' root d (marked S' g)" for S' f'
    using resume_sibling [OF cb(1)] cb(2) by simp
  have "mark_invalid_loop (card (desc (gshape g) c) + ((\<Sum>d \<leftarrow> d # cs. card (desc (gshape g) d)) + f)) root c (marked S g) =
      mark_invalid_loop ((\<Sum>d \<leftarrow> d # cs. card (desc (gshape g) d)) + f) root d (marked (S \<union> desc (gshape g) c) g)"
    unfolding IH [OF c(1)] res ..
  also have "\<dots> = resume g root i (S \<union> desc (gshape g) c \<union> (\<Union>d \<in> set (d # cs). desc (gshape g) d)) f"
    using Cons.IH [of "pre @ [c]" d] Cons.prems by simp
  finally show ?case
    by (simp add: ac_simps Un_assoc)
qed

lemma card_desc_kids:
  assumes t: "ghost_tree s r kids dep" and i: "i \<in> dom s"
  shows "card (desc s i) = Suc (\<Sum>d \<leftarrow> kids i. card (desc s d))"
proof -
  have "card (\<Union>c \<in> set (kids i). desc s c) = (\<Sum>c \<in> set (kids i). card (desc s c))"
    using finite_desc [OF t] desc_disjoint [OF t i] by (intro card_UN_disjoint) auto
  then show ?thesis
    using desc_kids [OF t i] self_not_in_kid [OF t i] finite_desc [OF t] ghost_treeD(8) [OF t i]
    by (simp add: sum_list_distinct_conv_sum_set)
qed

lemma mark_subtree:
  assumes t: "ghost_tree (gshape g) r kids dep" and m: "card (dom (blk_pool g)) \<le> blk_pool_max g"
  shows "i \<in> desc (gshape g) root \<Longrightarrow>
    mark_invalid_loop (card (desc (gshape g) i) + f) root i (marked S g) = resume g root i (S \<union> desc (gshape g) i) f"
proof (induction "card (desc (gshape g) i)" arbitrary: i S f rule: less_induct)
  case less
  have id: "i \<in> dom (gshape g)"
    using less.prems desc_dom by blast
  obtain b where b: "blk_pool g i = Some b"
    using id by auto
  have sibs: "sibs (gshape g) (blk_child b) (kids i)"
    using ghost_treeD(7) [OF t shape_some [of "blk_pool g", OF b]] by simp
  have cd: "card (desc (gshape g) i) = Suc (\<Sum>d \<leftarrow> kids i. card (desc (gshape g) d))"
    by (rule card_desc_kids [OF t id])
  have IH: "mark_invalid_loop (card (desc (gshape g) d) + f) root d (marked S g) = resume g root d (S \<union> desc (gshape g) d) f"
    if d: "d \<in> set (kids i)" for d S f
  proof (rule less.hyps)
    show "card (desc (gshape g) d) < card (desc (gshape g) i)"
      unfolding cd using member_le_sum_list [of "card (desc (gshape g) d)" "map (\<lambda>d. card (desc (gshape g) d)) (kids i)"] d by simp
    show "d \<in> desc (gshape g) root"
      using less.prems kid_dom [OF t id d] ghost_treeD(9) [OF t id, of d] d
      by (auto simp: desc_def par_def intro: converse_rtrancl_into_rtrancl)
  qed
  show ?case
  proof (cases "kids i")
    case Nil
    then show ?thesis
      using mark_step [OF b, of f root S] sibs cd desc_kids [OF t id] by simp
  next
    case (Cons c cs)
    then have "blk_child b = Some c"
      using sibs by simp
    then show ?thesis
      using mark_step [OF b, of "(\<Sum>d \<leftarrow> kids i. card (desc (gshape g) d)) + f" root S]
        mark_kids [OF t m less.prems, of "[]" c cs f "insert i S"] IH Cons cd desc_kids [OF t id]
      by simp
  qed
qed

lemma mark_invalid_spec:
  assumes inv: "ghost_inv g r kids dep" and i: "i \<in> dom (blk_pool g)"
  shows "mark_invalid i g = Ok (marked (desc (gshape g) i) g)"
proof -
  note I = ghost_invD [OF inv]
  have "card (desc (gshape g) i) \<le> blk_pool_max g"
    using card_mono [OF ghost_treeD(1) [OF I(2)] desc_dom, of i] card_blks [OF I(3)] by simp
  then obtain f where f: "blk_pool_max g + 1 = card (desc (gshape g) i) + f"
    using le_Suc_ex [of "card (desc (gshape g) i)" "blk_pool_max g + 1"] by auto
  have "marked {} g = g"
    by (simp add: marked_def)
  then have "mark_invalid i g = resume g i i (desc (gshape g) i) f"
    unfolding mark_invalid_def f using mark_subtree [OF I(2) card_blks [OF I(3)], of i i f "{}"] desc_self [of i "gshape g"] i by simp
  then show ?thesis
    by (simp add: resume_def)
qed

end
