(* ===== verification/Ghost_Reach.thy ===== *)
theory Ghost_Reach
  imports Ghost_Root Ghost_Best Ghost_Mark
begin

text \<open>
  The ghosts a validator can reach: initialised with the snapshot's block, then any sequence of
  inserts, votes, publishes, confirmations, equivocation reports and queries.  An insert does not name
  the block itself as its parent; the code does not refuse that, and what it then builds is no tree.
\<close>

inductive ghost_reach :: "fd_ghost \<Rightarrow> bool" where
  reach_init: "fd_ghost_init bank_seq slot block_id (fd_ghost_new blk_max vtr_max) = Ok (i, g) \<Longrightarrow> ghost_reach g"
| reach_insert: "ghost_reach g \<Longrightarrow> block_id \<noteq> parent_block_id \<Longrightarrow>
    fd_ghost_insert bank_seq slot block_id parent_block_id g = Ok (i, g') \<Longrightarrow> ghost_reach g'"
| reach_vote: "ghost_reach g \<Longrightarrow> blk \<in> dom (blk_pool g) \<Longrightarrow> fd_ghost_count_vote blk acc stake slot g = Ok (rc, g') \<Longrightarrow> ghost_reach g'"
| reach_publish: "ghost_reach g \<Longrightarrow> n \<in> dom (blk_pool g) \<Longrightarrow> fd_ghost_publish n g = Ok g' \<Longrightarrow> ghost_reach g'"
| reach_confirm: "ghost_reach g \<Longrightarrow> fd_ghost_confirm block_id g = Ok g' \<Longrightarrow> ghost_reach g'"
| reach_eqvoc: "ghost_reach g \<Longrightarrow> fd_ghost_eqvoc block_id g = Ok g' \<Longrightarrow> ghost_reach g'"
| reach_deepest: "ghost_reach g \<Longrightarrow> i \<in> dom (blk_pool g) \<Longrightarrow> fd_ghost_deepest g i = Ok (j, g') \<Longrightarrow> ghost_reach g'"

subsection \<open>Every operation keeps the invariant\<close>

lemma format_inv:
  assumes "blk_max < 2 ^ 64" and run: "fd_ghost_init bank_seq slot block_id (ghost_format blk_max vtr_max) = Ok (i, g)"
  shows "ghost_inv g 0 (\<lambda>i. []) (\<lambda>i. 0)"
proof -
  have "0 < blk_max"
    using run by (cases blk_max) (simp_all add: fd_ghost_init_def ghost_insert_def ghost_format_def CHECK_def)
  then have u: "[0..<blk_max] = 0 # [1..<blk_max]"
    by (simp add: upt_conv_Cons)
  let ?b = "new_blk bank_seq slot block_id None"
  have g: "g = (ghost_format blk_max vtr_max)\<lparr>ghost_root := Some 0, ghost_width := 1, blk_free := [1..<blk_max],
      blk_map := [block_id \<mapsto> 0], blk_pool := [0 \<mapsto> ?b]\<rparr>"
    using run u \<open>0 < blk_max\<close> by (auto simp: fd_ghost_init_def ghost_insert_def ghost_format_def new_blk_def)
  have F: "ghost_root g = Some 0" "ghost_width g = 1" "blk_pool_max g = blk_max" "blk_free g = [1..<blk_max]" "blk_map g = [block_id \<mapsto> 0]"
      "blk_pool g = [0 \<mapsto> ?b]" "vtr_pool g = Map.empty" "vtr_free g = [0..<vtr_max]" "vtr_map g = Map.empty" "blk_vtr_dlist g = (\<lambda>i. [])"
    by (simp_all add: g ghost_format_def)
  have s: "gshape g = [0 \<mapsto> \<lparr>lk_parent = None, lk_child = None, lk_sibling = None\<rparr>]"
    by (auto simp: F shape_def new_blk_def links_of_def)
  have p: "parent_of (gshape g) j = None" for j
    by (simp add: s parent_of_def)
  have "ghost_tree (gshape g) 0 (\<lambda>i. []) (\<lambda>i. 0)"
    unfolding ghost_tree_def p by (simp add: s)
  moreover have "ghost_blks_ok g"
    unfolding ghost_blks_ok_def
  proof (intro conjI allI)
    show "dom (blk_pool g) \<union> set (blk_free g) = {..<blk_pool_max g}"
      using \<open>0 < blk_max\<close> by (auto simp: F)
  qed (use assms(1) F in \<open>simp_all add: new_blk_def\<close>)
  moreover have "ghost_vtrs_ok g"
    by (simp add: ghost_vtrs_ok_def F)
  moreover have "ghost_stake_ok g"
    by (simp add: ghost_stake_ok_def votes_on_def F new_blk_def)
  ultimately show ?thesis
    by (simp add: ghost_inv_def extra_kids_def F)
qed

lemma init_inv:
  "fd_ghost_init bank_seq slot block_id (fd_ghost_new blk_max vtr_max) = Ok (i, g) \<Longrightarrow> ghost_inv g 0 (\<lambda>i. []) (\<lambda>i. 0)"
  using unsigned_less [where 'a = nat, of "fd_ulong_pow2_up blk_max"] unfolding fd_ghost_new_def Let_def
  by (intro format_inv) simp_all

lemma insert_cases:
  assumes inv: "ghost_inv g r kids dep" and ne: "block_id \<noteq> parent_block_id"
  shows "fd_ghost_insert bank_seq slot block_id parent_block_id g =
    (if blk_map g block_id \<noteq> None then Err 387 else if blk_free g = [] then Err 388
     else case blk_map g parent_block_id of None \<Rightarrow> Err 426
       | Some p \<Rightarrow> Ok (hd (blk_free g), inserted (hd (blk_free g)) (new_blk bank_seq slot block_id (Some p)) p (kids p) g))"
proof (cases "blk_map g block_id = None \<and> blk_free g \<noteq> []")
  case True
  then obtain n fs where n: "blk_free g = n # fs"
    by (cases "blk_free g") auto
  show ?thesis
  proof (cases "blk_map g parent_block_id")
    case None
    then show ?thesis
      using True n ne by (simp add: fd_ghost_insert_def ghost_insert_def Let_def)
  next
    case (Some p)
    then show ?thesis
      using fd_ghost_insert_run [OF inv _ n Some, of block_id bank_seq slot] True n by simp
  qed
qed (auto simp: fd_ghost_insert_def ghost_insert_def)

lemma ghost_insert_inv:
  assumes inv: "ghost_inv g r kids dep" and ne: "block_id \<noteq> parent_block_id"
    and run: "fd_ghost_insert bank_seq slot block_id parent_block_id g = Ok (i, g')"
  obtains p where "blk_map g block_id = None" "blk_map g parent_block_id = Some p"
    "g' = inserted i (new_blk bank_seq slot block_id (Some p)) p (kids p) g"
    "ghost_inv g' r (kids(p := kids p @ [i], i := [])) (dep(i := Suc (dep p)))"
proof -
  obtain p n fs where p: "blk_map g block_id = None" "blk_map g parent_block_id = Some p" "blk_free g = n # fs" "i = n"
      "g' = inserted i (new_blk bank_seq slot block_id (Some p)) p (kids p) g"
    using run unfolding insert_cases [OF inv ne] by (cases "blk_free g") (auto split: if_splits option.splits)
  then obtain pb where "blk_pool g p = Some pb"
    using blks_okD(5) [OF ghost_invD(3) [OF inv]] by blast
  then have "ghost_inv g' r (kids(p := kids p @ [i], i := [])) (dep(i := Suc (dep p)))"
    unfolding p(4,5) using p(1,3) by (intro inserted_inv [OF inv]) (simp_all add: new_blk_def)
  with p show thesis
    by (intro that [of p]) simp_all
qed

lemma vote_inv:
  assumes inv: "ghost_inv g r kids dep" and blk: "blk \<in> dom (blk_pool g)"
    and run: "fd_ghost_count_vote blk acc stake slot g = Ok (rc, g')"
  shows "ghost_inv g' r kids dep"
proof -
  obtain rb bb where b: "blk_pool g r = Some rb" "blk_pool g blk = Some bb"
    using ghost_treeD(2) [OF ghost_invD(2) [OF inv]] blk by auto
  note D = count_vote_turned_down [OF inv b(1), where blk = blk and stake = stake]
  show ?thesis
  proof (cases "slot = ULONG_MAX \<or> slot < blk_slot rb \<or> (\<exists>s st k. latest_vote g acc = Some (s, st, k) \<and> slot \<le> s)")
    case True
    then have "g' = g"
      using D(1,2,3) [where slot = slot and acc = acc] run by (metis prod.inject res.inject(1))
    then show ?thesis
      using inv by simp
  next
    case False
    have "vtr_free g \<noteq> []" if "latest_vote g acc = None"
    proof
      assume "vtr_free g = []"
      then show False
        using run False that ghost_invD(1) [OF inv] b
        by (auto simp: fd_ghost_count_vote_def fd_ghost_root_def blk_at_eq acquire_vtr_def latest_vote_none [OF inv])
    qed
    then show ?thesis
      using count_vote_counted [OF inv b, of slot acc stake] False run by force
  qed
qed

lemma eqvoc_run:
  assumes inv: "ghost_inv g r kids dep"
  shows "fd_ghost_eqvoc block_id g = Ok (case blk_map g block_id of None \<Rightarrow> g | Some i \<Rightarrow> marked (desc (gshape g) i) g)"
proof (cases "blk_map g block_id")
  case (Some i)
  then have "i \<in> dom (blk_pool g)"
    using blks_okD(5) [OF ghost_invD(3) [OF inv], of block_id i] by auto
  then show ?thesis
    using Some mark_invalid_spec [OF inv] by (simp add: fd_ghost_eqvoc_def)
qed (simp add: fd_ghost_eqvoc_def)

definition confirmed :: "nat set \<Rightarrow> fd_ghost \<Rightarrow> fd_ghost" where
  "confirmed A g = g\<lparr>blk_pool := upd_on A (\<lambda>b. b\<lparr>blk_valid := True\<rparr>) (blk_pool g)\<rparr>"

lemma confirm_run:
  assumes inv: "ghost_inv g r kids dep"
  shows "fd_ghost_confirm block_id g = Ok (case blk_map g block_id of None \<Rightarrow> g | Some i \<Rightarrow> confirmed (invalid_run g i) g)"
proof (cases "blk_map g block_id")
  case (Some i)
  then have i: "i \<in> dom (blk_pool g)"
    using blks_okD(5) [OF ghost_invD(3) [OF inv], of block_id i] by auto
  have "card (anc (gshape g) i) < blk_pool_max g + 1"
    using anc_card [OF ghost_invD(2) [OF inv], of i] i card_blks [OF ghost_invD(3) [OF inv]] by simp
  from confirm_loop_spec [OF ghost_invD(2) [OF inv] i this] show ?thesis
    using Some by (simp add: fd_ghost_confirm_def confirmed_def)
qed (simp add: fd_ghost_confirm_def)

lemma valid_inv:
  assumes inv: "ghost_inv g r kids dep"
  shows "ghost_inv (marked A g) r kids dep" "ghost_inv (confirmed A g) r kids dep"
  by (rule same_stake_inv [OF inv]; simp add: marked_def confirmed_def upd_on_def option.map_comp o_def)+

lemma eqvoc_inv: "ghost_inv g r kids dep \<Longrightarrow> fd_ghost_eqvoc block_id g = Ok g' \<Longrightarrow> ghost_inv g' r kids dep"
  using eqvoc_run [of g r kids dep block_id] valid_inv(1) [of g r kids dep] by (auto split: option.splits)

lemma confirm_inv: "ghost_inv g r kids dep \<Longrightarrow> fd_ghost_confirm block_id g = Ok g' \<Longrightarrow> ghost_inv g' r kids dep"
  using confirm_run [of g r kids dep block_id] valid_inv(2) [of g r kids dep] by (auto split: option.splits)

lemma deepest_inv:
  "ghost_inv g r kids dep \<Longrightarrow> i \<in> dom (blk_pool g) \<Longrightarrow> fd_ghost_deepest g i = Ok (j, g') \<Longrightarrow> ghost_inv g' r kids dep"
  using fd_ghost_deepest_spec [of g r kids dep i] by auto

lemma publish_inv:
  assumes inv: "ghost_inv g r kids dep" and n: "n \<in> dom (blk_pool g)" and run: "fd_ghost_publish n g = Ok g'"
  shows "ghost_inv g' n kids dep"
proof (cases "n = r")
  case True
  then show ?thesis
    using run inv publish_same [OF ghost_invD(1) [OF inv]] by simp
next
  case False
  then show ?thesis
    using fd_ghost_publish_spec [OF inv n False] run pruned_inv [OF inv _ n] by auto
qed

lemma ghost_reach_inv: "ghost_reach g \<Longrightarrow> \<exists>r kids dep. ghost_inv g r kids dep"
proof (induction rule: ghost_reach.induct)
  case (reach_init bank_seq slot block_id blk_max vtr_max i g)
  show ?case
    using init_inv [OF reach_init] by blast
next
  case (reach_insert g block_id parent_block_id bank_seq slot i g')
  then show ?case
    by (meson ghost_insert_inv)
next
  case (reach_vote g blk acc stake slot rc g')
  then show ?case
    by (meson vote_inv)
next
  case (reach_publish g n g')
  then show ?case
    by (meson publish_inv)
next
  case (reach_confirm g block_id g')
  then show ?case
    by (meson confirm_inv)
next
  case (reach_eqvoc g block_id g')
  then show ?case
    by (meson eqvoc_inv)
next
  case (reach_deepest g i j g')
  then show ?case
    by (meson deepest_inv)
qed

end
