(* ===== verification/Ghost_Lmd.thy ===== *)
theory Ghost_Lmd
  imports Ghost_Reach
begin

text \<open>
  The specification the ghost implements: a tree of block ids, given by the parent of each, and a table
  of the latest vote of every account (latest-message-driven voting).  The weight of a block is the
  stake behind the latest votes for it and its descendants.
\<close>

type_synonym lmd_vote = "nat \<times> nat \<times> bytes"

record lmd =
  lmd_root :: bytes
  lmd_parent :: "bytes \<rightharpoonup> bytes option"
  lmd_votes :: "bytes \<rightharpoonup> lmd_vote"

definition lmd_up :: "(bytes \<rightharpoonup> bytes option) \<Rightarrow> (bytes \<times> bytes) set" where
  "lmd_up T = {(x, p). T x = Some (Some p)}"

definition lmd_below :: "(bytes \<rightharpoonup> bytes option) \<Rightarrow> bytes \<Rightarrow> bytes set" where
  "lmd_below T k = {x \<in> dom T. (x, k) \<in> (lmd_up T)\<^sup>*}"

definition lmd_stake :: "lmd \<Rightarrow> bytes \<Rightarrow> nat" where
  "lmd_stake L acc = (case lmd_votes L acc of None \<Rightarrow> 0 | Some (slot, stake, k) \<Rightarrow> stake)"

definition lmd_voters :: "lmd \<Rightarrow> bytes \<Rightarrow> bytes set" where
  "lmd_voters L k = {acc. \<exists>slot stake x. lmd_votes L acc = Some (slot, stake, x) \<and> x \<in> lmd_below (lmd_parent L) k}"

definition lmd_weight :: "lmd \<Rightarrow> bytes \<Rightarrow> nat" where
  "lmd_weight L k = (\<Sum>acc \<in> lmd_voters L k. lmd_stake L acc)"

definition lmd_insert :: "bytes \<Rightarrow> bytes \<Rightarrow> lmd \<Rightarrow> lmd" where
  "lmd_insert k p L = L\<lparr>lmd_parent := (lmd_parent L)(k \<mapsto> Some p)\<rparr>"

definition lmd_count :: "bytes \<Rightarrow> lmd_vote \<Rightarrow> lmd \<Rightarrow> lmd" where
  "lmd_count acc v L = L\<lparr>lmd_votes := (lmd_votes L)(acc \<mapsto> v)\<rparr>"

definition lmd_publish :: "bytes \<Rightarrow> lmd \<Rightarrow> lmd" where
  "lmd_publish k L =
     \<lparr>lmd_root = k,
      lmd_parent = (\<lambda>x. if x \<notin> lmd_below (lmd_parent L) k then None else if x = k then Some None else lmd_parent L x),
      lmd_votes = (\<lambda>acc. case lmd_votes L acc of None \<Rightarrow> None
        | Some (slot, stake, x) \<Rightarrow> if x \<in> lmd_below (lmd_parent L) k then Some (slot, stake, x) else None)\<rparr>"

subsection \<open>The specification state of a ghost\<close>

definition id_at :: "fd_ghost \<Rightarrow> nat \<Rightarrow> bytes" where
  "id_at g i = blk_id (the (blk_pool g i))"

definition tree_of :: "fd_ghost \<Rightarrow> bytes \<rightharpoonup> bytes option" where
  "tree_of g k = map_option (\<lambda>i. map_option (id_at g) (parent_of (gshape g) i)) (blk_map g k)"

definition ghost_abs :: "fd_ghost \<Rightarrow> lmd" where
  "ghost_abs g = \<lparr>lmd_root = id_at g (the (ghost_root g)), lmd_parent = tree_of g, lmd_votes = latest_vote g\<rparr>"

lemma blk_map_id: "ghost_blks_ok g \<Longrightarrow> blk_map g k = Some i \<longleftrightarrow> i \<in> dom (blk_pool g) \<and> id_at g i = k"
  by (auto simp: blks_okD(5) id_at_def)

lemma id_at_inj: "ghost_blks_ok g \<Longrightarrow> i \<in> dom (blk_pool g) \<Longrightarrow> j \<in> dom (blk_pool g) \<Longrightarrow> id_at g i = id_at g j \<longleftrightarrow> i = j"
  by (metis blk_map_id option.inject)

lemma tree_of_at: "ghost_blks_ok g \<Longrightarrow> i \<in> dom (blk_pool g) \<Longrightarrow> tree_of g (id_at g i) = Some (map_option (id_at g) (parent_of (gshape g) i))"
  by (simp add: tree_of_def blk_map_id [THEN iffD2])

lemma dom_tree_of:
  assumes ok: "ghost_blks_ok g"
  shows "dom (tree_of g) = id_at g ` dom (blk_pool g)"
proof (intro set_eqI iffI)
  fix k
  assume "k \<in> dom (tree_of g)"
  then obtain i where "blk_map g k = Some i"
    by (auto simp: tree_of_def)
  then have "i \<in> dom (blk_pool g)" "k = id_at g i"
    using blk_map_id [OF ok, of k i] by simp_all
  then show "k \<in> id_at g ` dom (blk_pool g)"
    by simp
next
  fix k
  assume "k \<in> id_at g ` dom (blk_pool g)"
  then obtain i where "i \<in> dom (blk_pool g)" "k = id_at g i"
    by (elim imageE)
  then show "k \<in> dom (tree_of g)"
    using tree_of_at [OF ok, of i] by (simp add: domIff [of _ "tree_of g"])
qed

text \<open>Ancestry of ids is ancestry of pool indices.\<close>

lemma lmd_up_at:
  assumes inv: "ghost_inv g r kids dep" and i: "i \<in> dom (blk_pool g)"
  shows "(id_at g i, x) \<in> lmd_up (tree_of g) \<longleftrightarrow> (\<exists>p. parent_of (gshape g) i = Some p \<and> x = id_at g p)"
  using tree_of_at [OF ghost_invD(3) [OF inv] i] by (auto simp: lmd_up_def)

lemma lmd_up_anc:
  assumes inv: "ghost_inv g r kids dep" and i: "i \<in> dom (blk_pool g)"
  shows "(id_at g i, x) \<in> (lmd_up (tree_of g))\<^sup>* \<longleftrightarrow> (\<exists>a \<in> anc (gshape g) i. x = id_at g a)"
proof
  assume "(id_at g i, x) \<in> (lmd_up (tree_of g))\<^sup>*"
  then show "\<exists>a \<in> anc (gshape g) i. x = id_at g a"
  proof (induction rule: rtrancl_induct)
    case (step y z)
    then obtain a where a: "a \<in> anc (gshape g) i" "y = id_at g a"
      by blast
    have "a \<in> dom (blk_pool g)"
      using anc_dom [OF ghost_invD(2) [OF inv] _ a(1)] i by simp
    then obtain p where "parent_of (gshape g) a = Some p" "z = id_at g p"
      using step.hyps(2) lmd_up_at [OF inv] a(2) by blast
    then show ?case
      using a(1) by (auto simp: par_def intro: rtrancl_into_rtrancl)
  qed auto
next
  assume "\<exists>a \<in> anc (gshape g) i. x = id_at g a"
  then obtain a where "(i, a) \<in> (par (gshape g))\<^sup>*" "x = id_at g a"
    by blast
  then show "(id_at g i, x) \<in> (lmd_up (tree_of g))\<^sup>*"
  proof (induction arbitrary: x rule: rtrancl_induct)
    case (step y z)
    have "y \<in> dom (blk_pool g)"
      using anc_dom [OF ghost_invD(2) [OF inv], of i y] i step.hyps(1) by simp
    then have "(id_at g y, x) \<in> lmd_up (tree_of g)"
      using lmd_up_at [OF inv] step.hyps(2) step.prems by (auto simp: par_def)
    then show ?case
      using step.IH by (meson rtrancl_into_rtrancl)
  qed simp
qed

lemma lmd_below_desc:
  assumes inv: "ghost_inv g r kids dep" and i: "i \<in> dom (blk_pool g)"
  shows "lmd_below (tree_of g) (id_at g i) = id_at g ` desc (gshape g) i"
proof -
  note B = ghost_invD(3) [OF inv]
  have "(id_at g j, id_at g i) \<in> (lmd_up (tree_of g))\<^sup>* \<longleftrightarrow> i \<in> anc (gshape g) j" if j: "j \<in> dom (blk_pool g)" for j
  proof -
    have "id_at g i = id_at g a \<longleftrightarrow> i = a" if "a \<in> anc (gshape g) j" for a
      using id_at_inj [OF B i, of a] anc_dom [OF ghost_invD(2) [OF inv] _ that] j by simp
    then show ?thesis
      unfolding lmd_up_anc [OF inv j] by blast
  qed
  then show ?thesis
    by (auto simp: lmd_below_def dom_tree_of [OF B] desc_def)
qed

subsection \<open>The stake of a block is its weight\<close>

lemma vtr_latest:
  assumes inv: "ghost_inv g r kids dep" and v: "vtr_pool g v = Some w"
  shows "latest_vote g (vtr_addr w) = Some (vtr_prev_slot w, vtr_prev_stake w, vtr_prev_block_id w)"
  using vtrs_okD(3) [OF ghost_invD(4) [OF inv], of "vtr_addr w" v] v by (simp add: latest_vote_def)

definition parked :: "fd_ghost \<Rightarrow> nat \<Rightarrow> nat set" where
  "parked g i = (\<Union>j \<in> desc (gshape g) i. set (blk_vtr_dlist g j))"

lemma parked_iff:
  assumes inv: "ghost_inv g r kids dep"
  shows "v \<in> parked g i \<longleftrightarrow> (\<exists>w. vtr_pool g v = Some w \<and> vtr_prev_block_id w \<in> id_at g ` desc (gshape g) i)"
proof -
  have "v \<in> set (blk_vtr_dlist g j) \<longleftrightarrow> (\<exists>w. vtr_pool g v = Some w \<and> vtr_prev_block_id w = id_at g j)" if j: "j \<in> desc (gshape g) i" for j
  proof -
    obtain b where "blk_pool g j = Some b"
      using j desc_dom [of "gshape g" i] by auto
    then show ?thesis
      using vtrs_okD(5) [OF ghost_invD(4) [OF inv], of v j] by (simp add: id_at_def)
  qed
  then show ?thesis
    by (auto simp: parked_def)
qed

lemma parked_sum:
  assumes inv: "ghost_inv g r kids dep"
  shows "(\<Sum>j \<in> desc (gshape g) i. votes_on g j) = (\<Sum>v \<in> parked g i. vtr_prev_stake (the (vtr_pool g v)))"
  unfolding parked_def votes_on_def
proof (rule sum.UNION_disjoint [symmetric])
  show "finite (desc (gshape g) i)"
    using finite_desc [OF ghost_invD(2) [OF inv]] .
  show "\<forall>j \<in> desc (gshape g) i. \<forall>k \<in> desc (gshape g) i. j \<noteq> k \<longrightarrow> set (blk_vtr_dlist g j) \<inter> set (blk_vtr_dlist g k) = {}"
  proof (intro ballI impI)
    fix j k
    assume jk: "j \<in> desc (gshape g) i" "k \<in> desc (gshape g) i" "j \<noteq> k"
    then obtain b c where bc: "blk_pool g j = Some b" "blk_pool g k = Some c"
      using desc_dom [of "gshape g" i] by (metis dom_shape domD subsetD)
    then have "blk_id b \<noteq> blk_id c"
      using blk_map_of [OF ghost_invD(3) [OF inv], of j b] blk_map_of [OF ghost_invD(3) [OF inv], of k c] jk(3) by auto
    then show "set (blk_vtr_dlist g j) \<inter> set (blk_vtr_dlist g k) = {}"
      using vtrs_okD(5) [OF ghost_invD(4) [OF inv], of _ j] vtrs_okD(5) [OF ghost_invD(4) [OF inv], of _ k] bc by auto
  qed
qed simp

lemma below_parked:
  assumes inv: "ghost_inv g r kids dep" and b: "blk_pool g i = Some b"
  shows "lmd_voters (ghost_abs g) (blk_id b) = (\<lambda>v. vtr_addr (the (vtr_pool g v))) ` parked g i" (is "_ = ?addr ` _")
proof -
  have "id_at g i = blk_id b"
    using b by (simp add: id_at_def)
  then have below: "lmd_below (lmd_parent (ghost_abs g)) (blk_id b) = id_at g ` desc (gshape g) i"
    using lmd_below_desc [OF inv, of i] b by (simp add: ghost_abs_def domI)
  show ?thesis
  proof (intro set_eqI iffI)
    fix acc
    assume "acc \<in> lmd_voters (ghost_abs g) (blk_id b)"
    then obtain s st k where "latest_vote g acc = Some (s, st, k)" "k \<in> id_at g ` desc (gshape g) i"
      unfolding lmd_voters_def below by (auto simp: ghost_abs_def)
    then obtain v w where v: "vtr_map g acc = Some v" "vtr_pool g v = Some w" "vtr_prev_block_id w \<in> id_at g ` desc (gshape g) i"
      unfolding latest_vote_iff [OF inv] by blast
    then have "vtr_addr w = acc" "v \<in> parked g i"
      using vtrs_okD(3) [OF ghost_invD(4) [OF inv], of acc v] parked_iff [OF inv] by auto
    then show "acc \<in> ?addr ` parked g i"
      using v(2) by force
  next
    fix acc
    assume "acc \<in> ?addr ` parked g i"
    then obtain v w where "vtr_pool g v = Some w" "acc = vtr_addr w" "vtr_prev_block_id w \<in> id_at g ` desc (gshape g) i"
      by (auto simp: parked_iff [OF inv])
    then show "acc \<in> lmd_voters (ghost_abs g) (blk_id b)"
      unfolding lmd_voters_def below using vtr_latest [OF inv] by (auto simp: ghost_abs_def)
  qed
qed

lemma vtr_addr_inj:
  assumes inv: "ghost_inv g r kids dep" and v: "vtr_pool g v = Some w" "vtr_pool g v' = Some w'" and eq: "vtr_addr w = vtr_addr w'"
  shows "v = v'"
proof -
  have "vtr_map g (vtr_addr w) = Some v" "vtr_map g (vtr_addr w) = Some v'"
    unfolding vtrs_okD(3) [OF ghost_invD(4) [OF inv]] using v eq by simp_all
  then show ?thesis
    by simp
qed

lemma ghost_weight:
  assumes inv: "ghost_inv g r kids dep" and b: "blk_pool g i = Some b"
  shows "blk_stake b = lmd_weight (ghost_abs g) (blk_id b)"
proof -
  let ?addr = "\<lambda>v. vtr_addr (the (vtr_pool g v))"
  have vtr: "\<exists>w. vtr_pool g v = Some w" if "v \<in> parked g i" for v
    using that [unfolded parked_iff [OF inv]] by blast
  have inj: "inj_on ?addr (parked g i)"
  proof (rule inj_onI)
    fix v v'
    assume "v \<in> parked g i" "v' \<in> parked g i" and eq: "?addr v = ?addr v'"
    then obtain w w' where w: "vtr_pool g v = Some w" "vtr_pool g v' = Some w'"
      using vtr by meson
    show "v = v'"
      using vtr_addr_inj [OF inv w] eq by (simp add: w)
  qed
  have st: "lmd_stake (ghost_abs g) (?addr v) = vtr_prev_stake (the (vtr_pool g v))" if v: "v \<in> parked g i" for v
  proof -
    obtain w where w: "vtr_pool g v = Some w"
      using vtr [OF v] by blast
    show ?thesis
      using vtr_latest [OF inv w] by (simp add: lmd_stake_def ghost_abs_def w)
  qed
  have "lmd_weight (ghost_abs g) (blk_id b) = (\<Sum>v \<in> parked g i. vtr_prev_stake (the (vtr_pool g v)))"
    unfolding lmd_weight_def below_parked [OF inv b] sum.reindex [OF inj] using st by (intro sum.cong) simp_all
  then show ?thesis
    using stake_okD [OF ghost_invD(5) [OF inv] b] parked_sum [OF inv, of i] by simp
qed

end
