(* ===== verification/Ghost_Refine.thy ===== *)
theory Ghost_Refine
  imports Ghost_Lmd
begin

text \<open>Every operation of the ghost does to the specification state what the specification says.\<close>

lemma abs_same:
  assumes "same_blks g g'" "blk_map g' = blk_map g" "ghost_root g' = ghost_root g" "latest_vote g' = latest_vote g"
  shows "ghost_abs g' = ghost_abs g"
proof -
  have "id_at g' i = id_at g i" for i
    using same_blksD(3) [OF assms(1), of i] same_blksD(2) [OF assms(1)] unfolding id_at_def
    by (cases "blk_pool g i"; cases "blk_pool g' i") (auto simp: domIff)
  then have "id_at g' = id_at g"
    by blast
  then show ?thesis
    using assms(2-4) same_blksD(1) [OF assms(1)] by (simp add: ghost_abs_def tree_of_def [abs_def])
qed

lemma abs_vote:
  assumes "same_tree g g'" "latest_vote g' = (latest_vote g)(acc \<mapsto> v)"
  shows "ghost_abs g' = lmd_count acc v (ghost_abs g)"
proof -
  let ?g = "g\<lparr>vtr_pool := vtr_pool g', vtr_map := vtr_map g'\<rparr>"
  have lv: "latest_vote ?g = (latest_vote g)(acc \<mapsto> v)"
    using assms(2) by (simp add: latest_vote_def fun_eq_iff)
  have "ghost_abs g' = ghost_abs ?g"
    using assms lv by (intro abs_same) (simp_all add: same_tree_def same_blks_def)
  also have "\<dots> = lmd_count acc v (ghost_abs g)"
    using lv by (simp add: ghost_abs_def lmd_count_def tree_of_def [abs_def] id_at_def [abs_def])
  finally show ?thesis .
qed

lemma abs_valid: "ghost_abs (marked A g) = ghost_abs g" "ghost_abs (confirmed A g) = ghost_abs g"
  by (rule abs_same; simp add: same_blks_def marked_def confirmed_def upd_on_def option.map_comp o_def latest_vote_def fun_eq_iff)+

lemma abs_traversed:
  assumes "same_rest g g'" "blk_map g' = blk_map g"
  shows "ghost_abs g' = ghost_abs g"
proof (rule abs_same [OF _ assms(2)])
  show "same_blks g g'"
    unfolding same_blks_def
  proof
    fix i
    have "map_option view (blk_pool g' i) = map_option view (blk_pool g i)"
      using assms(1) by (simp add: same_rest_def same_view_def)
    from arg_cong [OF this, of "map_option (\<lambda>b. (blk_id b, links_of b))"]
    show "map_option (\<lambda>b. (blk_id b, links_of b)) (blk_pool g' i) = map_option (\<lambda>b. (blk_id b, links_of b)) (blk_pool g i)"
      by (simp add: option.map_comp o_def)
  qed
qed (use assms(1) in \<open>simp_all add: same_rest_def latest_vote_def fun_eq_iff\<close>)

lemma abs_insert:
  assumes inv: "ghost_inv g r kids dep" and ne: "block_id \<noteq> parent_block_id"
    and run: "fd_ghost_insert bank_seq slot block_id parent_block_id g = Ok (n, g')"
  shows "ghost_abs g' = lmd_insert block_id parent_block_id (ghost_abs g)"
proof -
  note B = ghost_invD(3) [OF inv]
  let ?nb = "\<lambda>p. new_blk bank_seq slot block_id (Some p)"
  obtain p where p: "blk_map g block_id = None" "blk_map g parent_block_id = Some p" "g' = inserted n (?nb p) p (kids p) g"
      "ghost_inv g' r (kids(p := kids p @ [n], n := [])) (dep(n := Suc (dep p)))"
    using ghost_insert_inv [OF inv ne run] .
  have free: "blk_free g = n # tl (blk_free g)"
    using run unfolding insert_cases [OF inv ne] by (auto split: if_splits option.splits)
  obtain pb where pb: "blk_pool g p = Some pb" "id_at g p = parent_block_id" "p \<in> dom (blk_pool g)"
    using p(2) blk_map_id [OF B] by (auto simp: domD)
  have n: "n \<notin> dom (blk_pool g)"
    using inserted_ok(1) [OF inv pb(1) free, of "?nb p"] p(1) by (simp add: new_blk_def)
  have kd: "set (kids p) \<subseteq> dom (blk_pool g)"
    using kid_dom [OF ghost_invD(2) [OF inv], of p] pb(3) by auto
  note L = linked_new [OF n pb(3) kd, where nb = "?nb p"]
  have id: "id_at g' i = id_at g i" if "i \<noteq> n" for i
    using L(3) [OF that] unfolding id_at_def p(3)
    by (cases "blk_pool g i"; cases "linked n (?nb p) p (kids p) (blk_pool g) i") (auto simp: inserted_def)
  have par: "parent_of (gshape g') j = (if j = n then Some p else parent_of (gshape g) j)" for j
    unfolding p(3) using inserted_tree(2) [OF ghost_invD(2) [OF inv] pb(1) n, of "?nb p"] by (simp add: new_blk_def)
  have map: "blk_map g' = (blk_map g)(block_id \<mapsto> n)"
    by (simp add: p(3) inserted_def new_blk_def)
  have "p \<noteq> n"
    using pb(3) n by blast
  have "tree_of g' k = (if k = block_id then Some (Some parent_block_id) else tree_of g k)" for k
  proof (cases "blk_map g k")
    case None
    then show ?thesis
      using pb(2) id [OF \<open>p \<noteq> n\<close>] by (simp add: tree_of_def map par)
  next
    case (Some i)
    then have i: "i \<noteq> n" "k \<noteq> block_id" "i \<in> dom (gshape g)"
      using blk_map_id [OF B, of k i] n p(1) by auto
    have "parent_of (gshape g) i \<noteq> Some n"
      using ghost_treeD(4) [OF ghost_invD(2) [OF inv], of i n] n by auto
    then have "map_option (id_at g') (parent_of (gshape g) i) = map_option (id_at g) (parent_of (gshape g) i)"
      using id by (cases "parent_of (gshape g) i") auto
    then show ?thesis
      using Some i by (simp add: tree_of_def map par)
  qed
  then have "tree_of g' = (tree_of g)(block_id \<mapsto> Some parent_block_id)"
    by (simp add: fun_eq_iff)
  moreover have "r \<noteq> n"
    using ghost_treeD(2) [OF ghost_invD(2) [OF inv]] n by auto
  ultimately show ?thesis
    using id [of r] ghost_invD(1) [OF inv] ghost_invD(1) [OF p(4)]
    by (simp add: ghost_abs_def lmd_insert_def latest_vote_def fun_eq_iff p(3) inserted_def)
qed

lemma pruned_id:
  assumes p: "prune_inv g kids g1 (dom (gshape g) - desc (gshape g) n) []" and i: "i \<in> desc (gshape g) n"
  shows "id_at (rerooted n g1) i = id_at g i"
proof -
  have "map_option blk_id (blk_pool g1 i) = map_option blk_id (blk_pool g i)"
    using arg_cong [OF pruned_blk [OF p, of i], of "map_option blk_id"] i by (simp add: option.map_comp o_def)
  moreover have "i \<in> dom (blk_pool g)"
    using i desc_dom [of "gshape g" n] by auto
  ultimately show ?thesis
    by (auto simp: id_at_def rerooted_blk)
qed

lemma pruned_tree:
  assumes inv: "ghost_inv g r kids dep" and p: "prune_inv g kids g1 (dom (gshape g) - desc (gshape g) n) []" and n: "n \<in> dom (blk_pool g)"
  shows "tree_of (rerooted n g1) k =
    (if k \<notin> id_at g ` desc (gshape g) n then None else if k = id_at g n then Some None else tree_of g k)"
proof -
  let ?g = "rerooted n g1" and ?D = "desc (gshape g) n"
  note S = pruned_shape [OF p] and I = ghost_invD [OF inv] and J = ghost_invD [OF pruned_inv [OF inv p n]] and id = pruned_id [OF p]
  have dom: "dom (tree_of ?g) = id_at g ` ?D"
    using dom_tree_of [OF J(3)] S(2) id by simp
  show ?thesis
  proof (cases "k \<in> id_at g ` ?D")
    case False
    then show ?thesis
      using dom domIff [of k "tree_of ?g"] by simp
  next
    case True
    then obtain i where "k = id_at g i" "i \<in> ?D"
      by blast
    then have i: "k = id_at g i" "i \<in> ?D" "i \<in> dom (blk_pool g)" "i \<in> dom (blk_pool ?g)"
      using desc_dom [of "gshape g" n] S(2) by auto
    have at: "tree_of ?g k = Some (map_option (id_at ?g) (parent_of (subtree (gshape g) n) i))"
      using tree_of_at [OF J(3) i(4)] id [OF i(2)] i(1) S(1) by simp
    show ?thesis
    proof (cases "parent_of (subtree (gshape g) n) i")
      case None
      then show ?thesis
        using at True ghost_treeD(6) [OF J(2), of i] i S by (simp add: dom_subtree)
    next
      case (Some q)
      then have q: "i \<noteq> n" "parent_of (gshape g) i = Some q" "q \<in> ?D"
        using parent_subtree [of "gshape g" n i q] ghost_treeD(4) [OF J(2), of i q] S by (simp_all add: dom_subtree)
      then show ?thesis
        using at True i(1) id_at_inj [OF I(3) i(3) n] tree_of_at [OF I(3) i(3)] Some id [OF q(3)] by simp
    qed
  qed
qed

lemma pruned_latest_vote:
  assumes inv: "ghost_inv g r kids dep" and p: "prune_inv g kids g1 (dom (gshape g) - desc (gshape g) n) []"
  shows "latest_vote (rerooted n g1) acc = (case latest_vote g acc of None \<Rightarrow> None
      | Some (slot, stake, x) \<Rightarrow> if x \<in> id_at g ` desc (gshape g) n then Some (slot, stake, x) else None)"
proof -
  let ?g = "rerooted n g1" and ?D = "desc (gshape g) n"
  have "x \<in> id_at g ` ?D \<longleftrightarrow> (\<exists>i \<in> ?D. \<exists>b. blk_pool g i = Some b \<and> blk_id b = x)" for x
    using desc_dom [of "gshape g" n] by (force simp: id_at_def image_iff)
  then have E: "latest_vote ?g acc = Some (s, st, k) \<longleftrightarrow> latest_vote g acc = Some (s, st, k) \<and> k \<in> id_at g ` ?D" for s st k
    using pruned_latest [OF inv p] by simp
  show ?thesis
  proof (cases "latest_vote g acc")
    case None
    then show ?thesis
      using E by (cases "latest_vote ?g acc") auto
  next
    case (Some v)
    obtain s st k where v: "v = (s, st, k)"
      by (cases v)
    show ?thesis
    proof (cases "latest_vote ?g acc")
      case None
      then show ?thesis
        using E [of s st k] Some v by simp
    next
      case (Some u)
      then show ?thesis
        using E [of "fst u" "fst (snd u)" "snd (snd u)"] \<open>latest_vote g acc = Some v\<close> v by auto
    qed
  qed
qed

lemma abs_publish:
  assumes inv: "ghost_inv g r kids dep" and p: "prune_inv g kids g1 (dom (gshape g) - desc (gshape g) n) []" and n: "n \<in> dom (blk_pool g)"
  shows "ghost_abs (rerooted n g1) = lmd_publish (id_at g n) (ghost_abs g)"
proof -
  have below: "lmd_below (tree_of g) (id_at g n) = id_at g ` desc (gshape g) n"
    using lmd_below_desc [OF inv n] .
  show ?thesis
    unfolding ghost_abs_def lmd_publish_def lmd.simps below rerooted_simps option.sel
    using pruned_id [OF p, of n] desc_self [of n "gshape g"] n pruned_tree [OF inv p n] pruned_latest_vote [OF inv p]
    by (simp add: fun_eq_iff)
qed

end
