(* ===== verification/Ghost_Correct.thy ===== *)
theory Ghost_Correct
  imports Ghost_Refine
begin

text \<open>
  What the fork choice promises: properties of every ghost the operations can build, stated over the
  specification state of \<open>Ghost_Lmd\<close> and the blocks of the pool, and a worked example.
\<close>

subsection \<open>An example\<close>

text \<open>Root 1 with the children 2 and 3, block 4 below 3, and a vote of stake 5 for block 3.\<close>

definition ex_run :: "fd_ghost res" where
  "ex_run =
     rbind (fd_ghost_init 0 10 [1] (fd_ghost_new 4 1)) (\<lambda>(_, g).
     rbind (fd_ghost_insert 0 11 [2] [1] g) (\<lambda>(_, g).
     rbind (fd_ghost_insert 0 12 [3] [1] g) (\<lambda>(_, g).
     rbind (fd_ghost_insert 0 13 [4] [3] g) (\<lambda>(_, g).
     rbind (fd_ghost_count_vote (Suc (Suc 0)) [9] 5 12 g) (\<lambda>(_, g). Ok g)))))"

lemma new_eval:
  "fd_ghost_new 4 1 = ghost_format (Suc (Suc (Suc (Suc 0)))) (Suc (Suc 0))"
  "fd_ghost_new 8 1 = ghost_format (Suc (Suc (Suc (Suc (Suc (Suc (Suc (Suc 0)))))))) (Suc (Suc 0))"
proof -
  have "fd_ulong_pow2_up 4 = 4" "fd_ulong_pow2_up 8 = 8" "fd_ulong_pow2_up 1 = 1"
    by (simp_all add: fd_ulong_pow2_up_def Let_def)
  moreover have "unat (4 :: u64) = Suc (Suc (Suc (Suc 0)))" "unat (8 :: u64) = Suc (Suc (Suc (Suc (Suc (Suc (Suc (Suc 0)))))))"
      "unat (2 :: u64) = Suc (Suc 0)"
    by simp_all
  ultimately show "fd_ghost_new 4 1 = ghost_format (Suc (Suc (Suc (Suc 0)))) (Suc (Suc 0))"
      "fd_ghost_new 8 1 = ghost_format (Suc (Suc (Suc (Suc (Suc (Suc (Suc (Suc 0)))))))) (Suc (Suc 0))"
    by (simp_all only: fd_ghost_new_def Let_def mult_1)
qed

lemmas ghost_eval = fd_ghost_init_def new_eval ghost_format_def ghost_insert_def fd_ghost_insert_def Let_def blk_upd_def blk_at_def
  fd_ghost_count_vote_def fd_ghost_root_def acquire_vtr_def record_vote_def ulong_add_def ULONG_MAX_def

definition ex_blk :: "u8 \<Rightarrow> nat \<Rightarrow> nat option \<Rightarrow> nat option \<Rightarrow> nat option \<Rightarrow> nat \<Rightarrow> fd_ghost_blk" where
  "ex_blk k slot p c s st = \<lparr>blk_id = [k], blk_slot = slot, blk_next = None, blk_parent = p, blk_child = c, blk_sibling = s, blk_stake = st,
     blk_total_stake = 0, blk_valid = True, blk_bank_seq = 0\<rparr>"

definition ex_ghost :: fd_ghost where
  "ex_ghost = \<lparr>ghost_root = Some 0, ghost_width = 2, blk_pool_max = 4,
     blk_pool = [0 \<mapsto> ex_blk 1 10 None (Some (Suc 0)) None 5, Suc 0 \<mapsto> ex_blk 2 11 (Some 0) None (Some (Suc (Suc 0))) 0,
       Suc (Suc 0) \<mapsto> ex_blk 3 12 (Some 0) (Some (Suc (Suc (Suc 0)))) None 5, Suc (Suc (Suc 0)) \<mapsto> ex_blk 4 13 (Some (Suc (Suc 0))) None None 0],
     blk_free = [], blk_map = [[1] \<mapsto> 0, [2] \<mapsto> Suc 0, [3] \<mapsto> Suc (Suc 0), [4] \<mapsto> Suc (Suc (Suc 0))],
     vtr_pool = [0 \<mapsto> \<lparr>vtr_addr = [9], vtr_prev_stake = 5, vtr_prev_slot = 12, vtr_prev_block_id = [3]\<rparr>], vtr_free = [Suc 0],
     vtr_map = [[9] \<mapsto> 0], blk_vtr_dlist = (\<lambda>i. [])(Suc (Suc 0) := [0])\<rparr>"

lemma ex_run: "ex_run = Ok ex_ghost"
  by (simp add: ex_run_def ghost_eval ex_ghost_def ex_blk_def fun_eq_iff)

lemma ex_reach: "ghost_reach ex_ghost"
proof -
  obtain i0 g0 i1 g1 i2 g2 i3 g3 c where
    g: "fd_ghost_init 0 10 [1] (fd_ghost_new 4 1) = Ok (i0, g0)"
      "fd_ghost_insert 0 11 [2] [1] g0 = Ok (i1, g1)" "fd_ghost_insert 0 12 [3] [1] g1 = Ok (i2, g2)"
      "fd_ghost_insert 0 13 [4] [3] g2 = Ok (i3, g3)" "fd_ghost_count_vote (Suc (Suc 0)) [9] 5 12 g3 = Ok (c, ex_ghost)"
    using ex_run unfolding ex_run_def by (auto simp: rbind_Ok)
  have "ghost_reach g3"
    by (rule reach_insert [OF reach_insert [OF reach_insert [OF reach_init [OF g(1)] _ g(2)] _ g(3)] _ g(4)]) simp_all
  moreover have "Suc (Suc 0) \<in> dom (blk_pool g3)"
    using g(1-4) by (auto simp: ghost_eval)
  ultimately show ?thesis
    using reach_vote g(5) by blast
qed

lemma ex_blks [simp]:
  "blk_pool ex_ghost 0 = Some (ex_blk 1 10 None (Some (Suc 0)) None 5)"
  "blk_pool ex_ghost (Suc 0) = Some (ex_blk 2 11 (Some 0) None (Some (Suc (Suc 0))) 0)"
  "blk_pool ex_ghost (Suc (Suc 0)) = Some (ex_blk 3 12 (Some 0) (Some (Suc (Suc (Suc 0)))) None 5)"
  by (simp_all add: ex_ghost_def)

lemma ex_dom: "0 \<in> dom (blk_pool ex_ghost)" "Suc (Suc 0) \<in> dom (blk_pool ex_ghost)"
  by (simp_all add: domIff)

subsection \<open>Stakes\<close>

text \<open>
  C19. In every ghost that initialisation, inserts of blocks that do not name themselves as parent,
  votes, publishes, confirmations, equivocation reports and queries can build, the stake field of
  each block is the latest-message-driven weight of the block: the sum of the stakes of the voters
  whose latest vote is for the block or one of its descendants.
\<close>

theorem ghost_stake_is_weight:
  assumes "ghost_reach g" "blk_pool g i = Some b"
  shows "blk_stake b = lmd_weight (ghost_abs g) (blk_id b)"
  using ghost_reach_inv [OF assms(1)] ghost_weight assms(2) by blast

theorem ghost_stake_is_weight_witness: "ghost_reach ex_ghost \<and> lmd_weight (ghost_abs ex_ghost) [3] = 5"
  using ex_reach ghost_stake_is_weight [OF ex_reach ex_blks(3)] by (simp add: ex_blk_def)

subsection \<open>Inserting\<close>

text \<open>
  A block that names itself as its parent: the parent is looked up after the block has been mapped,
  so the check at line 426 passes and the block becomes its own parent and its own child.
\<close>

lemma insert_self:
  "blk_map g k \<noteq> None \<Longrightarrow> fd_ghost_insert bank_seq slot k k g = Err 387"
  "blk_map g k = None \<Longrightarrow> blk_free g = [] \<Longrightarrow> fd_ghost_insert bank_seq slot k k g = Err 388"
  "blk_map g k = None \<Longrightarrow> blk_free g \<noteq> [] \<Longrightarrow>
     \<exists>i g' b. fd_ghost_insert bank_seq slot k k g = Ok (i, g') \<and> blk_map g' k = Some i \<and> blk_pool g' i = Some b \<and>
       blk_parent b = Some i \<and> blk_child b = Some i"
  by (auto simp: fd_ghost_insert_def ghost_insert_def Let_def blk_upd_def blk_at_def neq_Nil_conv)

text \<open>
  C23. Inserting into a reachable ghost fails at check 387 exactly when the block is already there,
  else at 388 exactly when no slot is free, else at 426 exactly when the named parent is neither in
  the tree nor the block itself. Otherwise it succeeds: under another parent the block is added
  below that parent in the specification tree and nothing else changes; a block that names itself as
  its parent passes the parent check and becomes its own parent and child.
\<close>

theorem ghost_insert_refines:
  assumes "ghost_reach g"
  shows "case fd_ghost_insert bank_seq slot block_id parent_block_id g of
      Ub \<Rightarrow> False
    | Err l \<Rightarrow> l = 387 \<and> block_id \<in> dom (lmd_parent (ghost_abs g)) \<or>
        l = 388 \<and> block_id \<notin> dom (lmd_parent (ghost_abs g)) \<and> blk_free g = [] \<or>
        l = 426 \<and> block_id \<notin> dom (lmd_parent (ghost_abs g)) \<and> blk_free g \<noteq> [] \<and>
          parent_block_id \<notin> dom (lmd_parent (ghost_abs g)) \<and> parent_block_id \<noteq> block_id
    | Ok (i, g') \<Rightarrow> block_id \<notin> dom (lmd_parent (ghost_abs g)) \<and> blk_free g \<noteq> [] \<and> blk_map g' block_id = Some i \<and>
        (if parent_block_id = block_id
         then \<exists>b. blk_pool g' i = Some b \<and> blk_parent b = Some i \<and> blk_child b = Some i
         else parent_block_id \<in> dom (lmd_parent (ghost_abs g)) \<and> ghost_reach g' \<and>
           ghost_abs g' = lmd_insert block_id parent_block_id (ghost_abs g))"
proof -
  obtain r kids dep where inv: "ghost_inv g r kids dep"
    using ghost_reach_inv [OF assms(1)] by blast
  have dom: "k \<in> dom (lmd_parent (ghost_abs g)) \<longleftrightarrow> blk_map g k \<noteq> None" for k
    by (auto simp: ghost_abs_def tree_of_def domIff)
  show ?thesis
  proof (cases "parent_block_id = block_id")
    case True
    show ?thesis
      using insert_self [of g block_id bank_seq slot] dom [of block_id]
      by (cases "blk_map g block_id = None"; cases "blk_free g = []") (auto simp: True)
  next
    case False
    then have ne: "block_id \<noteq> parent_block_id"
      by simp
    show ?thesis
    proof (cases "fd_ghost_insert bank_seq slot block_id parent_block_id g")
      case (Ok x)
      obtain i g' where x: "x = (i, g')"
        by (cases x)
      note run = Ok [unfolded x]
      from ghost_insert_inv [OF inv ne run] obtain p where
        p: "blk_map g block_id = None" "blk_map g parent_block_id = Some p" "g' = inserted i (new_blk bank_seq slot block_id (Some p)) p (kids p) g"
        by blast
      have "blk_free g \<noteq> []"
        using run by (auto simp: insert_cases [OF inv ne] split: if_splits)
      then show ?thesis
        using p reach_insert [OF assms ne run] abs_insert [OF inv ne run] dom False unfolding run
        by (simp add: inserted_def new_blk_def)
    qed (use dom False in \<open>auto simp: insert_cases [OF inv ne] split: if_splits option.splits\<close>)
  qed
qed

theorem ghost_insert_refines_witness:
  "\<exists>g i g'. ghost_reach g \<and> fd_ghost_insert 0 11 [2] [1] g = Ok (i, g') \<and> ghost_abs g' = lmd_insert [2] [1] (ghost_abs g)"
proof -
  obtain i0 g0 i1 g1 where
    g: "fd_ghost_init 0 10 [1] (fd_ghost_new 4 1) = Ok (i0, g0)" "fd_ghost_insert 0 11 [2] [1] g0 = Ok (i1, g1)"
    using ex_run unfolding ex_run_def by (auto simp: rbind_Ok)
  have "ghost_reach g0"
    using reach_init [OF g(1)] by simp
  then show ?thesis
    using ghost_insert_refines [where g = g0 and block_id = "[2]" and parent_block_id = "[1]" and bank_seq = 0 and slot = 11] g(2) by auto
qed

subsection \<open>Voting\<close>

text \<open>The code \<open>fd_ghost_count_vote\<close> answers with.\<close>

definition vote_code :: "fd_ghost \<Rightarrow> bytes \<Rightarrow> nat \<Rightarrow> int" where
  "vote_code g acc slot =
     (if slot = ULONG_MAX then FD_GHOST_ERR_NOT_VOTED
      else if slot < blk_slot (the (blk_pool g (the (ghost_root g)))) then FD_GHOST_ERR_VOTE_TOO_OLD
      else case lmd_votes (ghost_abs g) acc of
        Some (s, st, k) \<Rightarrow> if slot \<le> s then FD_GHOST_ERR_ALREADY_VOTED else FD_GHOST_SUCCESS
      | None \<Rightarrow> FD_GHOST_SUCCESS)"

lemmas vote_codes = FD_GHOST_SUCCESS_def FD_GHOST_ERR_NOT_VOTED_def FD_GHOST_ERR_VOTE_TOO_OLD_def FD_GHOST_ERR_ALREADY_VOTED_def

text \<open>
  C21. A vote on a block of the tree is always processed: as long as a voter slot is free for a new
  voter and the total stake fits 64 bits, counting returns the code the slot rules prescribe; a
  counted vote replaces exactly the latest vote of its voter, and a refused one changes nothing.
\<close>

theorem ghost_vote_counted:
  assumes reach: "ghost_reach g" and blk: "blk_pool g blk = Some b"
    and room: "lmd_votes (ghost_abs g) acc = None \<Longrightarrow> vtr_free g \<noteq> []"
    and fits: "lmd_weight (ghost_abs g) (lmd_root (ghost_abs g)) + stake \<le> ULONG_MAX"
  shows "\<exists>g'. fd_ghost_count_vote blk acc stake slot g = Ok (vote_code g acc slot, g') \<and> ghost_reach g' \<and>
    (if vote_code g acc slot = FD_GHOST_SUCCESS then ghost_abs g' = lmd_count acc (slot, stake, blk_id b) (ghost_abs g) else g' = g)"
proof -
  obtain r kids dep where inv: "ghost_inv g r kids dep"
    using ghost_reach_inv [OF reach] by blast
  obtain rb where rb: "blk_pool g r = Some rb" "ghost_root g = Some r"
    using ghost_treeD(2) [OF ghost_invD(2) [OF inv]] ghost_invD(1) [OF inv] by auto
  have lv: "lmd_votes (ghost_abs g) = latest_vote g" "lmd_root (ghost_abs g) = blk_id rb"
    using rb by (simp_all add: ghost_abs_def id_at_def)
  have step: "\<exists>g'. fd_ghost_count_vote blk acc stake slot g = Ok (c, g') \<and> Q g' \<Longrightarrow>
      \<exists>g'. fd_ghost_count_vote blk acc stake slot g = Ok (c, g') \<and> ghost_reach g' \<and> Q g'" for c Q
    using reach_vote [OF reach] blk by blast
  note D = count_vote_turned_down [OF inv rb(1), where slot = slot and blk = blk and acc = acc and stake = stake]
  show ?thesis
  proof (rule step, cases "vote_code g acc slot = FD_GHOST_SUCCESS")
    case True
    then have "slot \<noteq> ULONG_MAX" "\<not> slot < blk_slot rb" "\<And>s st k. latest_vote g acc = Some (s, st, k) \<Longrightarrow> s < slot"
      using rb lv by (auto simp: vote_code_def vote_codes split: if_splits)
    moreover have "\<not> blk_stake rb + stake > ULONG_MAX"
      using fits ghost_weight [OF inv rb(1)] lv(2) by simp
    ultimately obtain g' where "fd_ghost_count_vote blk acc stake slot g = Ok (FD_GHOST_SUCCESS, g')" "same_tree g g'"
        "latest_vote g' = (latest_vote g)(acc \<mapsto> (slot, stake, blk_id b))"
      using count_vote_counted [OF inv rb(1) blk, of slot acc stake] room lv(1) by auto
    then show "\<exists>g'. fd_ghost_count_vote blk acc stake slot g = Ok (vote_code g acc slot, g') \<and>
        (if vote_code g acc slot = FD_GHOST_SUCCESS then ghost_abs g' = lmd_count acc (slot, stake, blk_id b) (ghost_abs g) else g' = g)"
      using True abs_vote by auto
  next
    case False
    then have "fd_ghost_count_vote blk acc stake slot g = Ok (vote_code g acc slot, g)"
      using D rb lv by (auto simp: vote_code_def split: if_splits option.splits)
    then show "\<exists>g'. fd_ghost_count_vote blk acc stake slot g = Ok (vote_code g acc slot, g') \<and>
        (if vote_code g acc slot = FD_GHOST_SUCCESS then ghost_abs g' = lmd_count acc (slot, stake, blk_id b) (ghost_abs g) else g' = g)"
      using False by simp
  qed
qed

theorem ghost_vote_counted_witness:
  "\<exists>g'. fd_ghost_count_vote (Suc 0) [9] 6 13 ex_ghost = Ok (FD_GHOST_SUCCESS, g') \<and> lmd_votes (ghost_abs g') [9] = Some (13, 6, [2])"
proof -
  have c: "vote_code ex_ghost [9] 13 = FD_GHOST_SUCCESS"
    by (simp add: vote_code_def ULONG_MAX_def ghost_abs_def latest_vote_def ex_ghost_def ex_blk_def)
  have "lmd_root (ghost_abs ex_ghost) = [1]"
    by (simp add: ghost_abs_def id_at_def ex_ghost_def ex_blk_def)
  then have w: "lmd_weight (ghost_abs ex_ghost) (lmd_root (ghost_abs ex_ghost)) = 5"
    using ghost_weight ghost_reach_inv [OF ex_reach] ex_blks(1) by (fastforce simp: ex_blk_def)
  show ?thesis
    using ghost_vote_counted [OF ex_reach ex_blks(2), of "[9]" 6 13] c w
    by (auto simp: lmd_count_def ex_blk_def ULONG_MAX_def ex_ghost_def)
qed

subsection \<open>Publishing\<close>

text \<open>
  C22. Publishing a new root always succeeds, leaves a reachable ghost with that root, and does what
  the specification says: exactly the subtree of the new root and the latest votes on it survive.
\<close>

theorem ghost_publish_refines:
  assumes "ghost_reach g" "blk_pool g n = Some b"
  shows "\<exists>g'. fd_ghost_publish n g = Ok g' \<and> ghost_reach g' \<and> ghost_root g' = Some n \<and>
    ghost_abs g' = (if ghost_root g = Some n then ghost_abs g else lmd_publish (blk_id b) (ghost_abs g))"
proof -
  obtain r kids dep where inv: "ghost_inv g r kids dep"
    using ghost_reach_inv [OF assms(1)] by blast
  have n: "n \<in> dom (blk_pool g)" "id_at g n = blk_id b"
    using assms(2) by (auto simp: id_at_def)
  show ?thesis
  proof (cases "n = r")
    case True
    then show ?thesis
      using assms(1) publish_same [OF ghost_invD(1) [OF inv]] ghost_invD(1) [OF inv] by simp
  next
    case False
    obtain g1 where g1: "fd_ghost_publish n g = Ok (rerooted n g1)" "prune_inv g kids g1 (dom (gshape g) - desc (gshape g) n) []"
      using fd_ghost_publish_spec [OF inv n(1) False] by blast
    then show ?thesis
      using abs_publish [OF inv g1(2) n(1)] reach_publish [OF assms(1) n(1)] n(2) False ghost_invD(1) [OF inv] by auto
  qed
qed

theorem ghost_publish_refines_witness:
  "\<exists>g'. fd_ghost_publish (Suc 0) ex_ghost = Ok g' \<and> ghost_abs g' = lmd_publish [2] (ghost_abs ex_ghost)"
  using ghost_publish_refines [OF ex_reach ex_blks(2)] by (auto simp: ex_blk_def ex_ghost_def)

subsection \<open>Fork choice\<close>

text \<open>The children of a block, and the head reached by going to a heaviest valid child as long as there is one.\<close>

definition ghost_children :: "fd_ghost \<Rightarrow> nat \<Rightarrow> nat set" where
  "ghost_children g i = {c. \<exists>b. blk_pool g c = Some b \<and> blk_parent b = Some i}"

definition heaviest :: "fd_ghost \<Rightarrow> nat \<Rightarrow> nat \<Rightarrow> bool" where
  "heaviest g i c \<longleftrightarrow> c \<in> ghost_children g i \<and> blk_valid (the (blk_pool g c)) \<and>
     (\<forall>x \<in> ghost_children g i. blk_valid (the (blk_pool g x)) \<longrightarrow> blk_stake (the (blk_pool g x)) < blk_stake (the (blk_pool g c)) \<or>
        blk_stake (the (blk_pool g x)) = blk_stake (the (blk_pool g c)) \<and> blk_slot (the (blk_pool g c)) \<le> blk_slot (the (blk_pool g x)))"

inductive ghost_head :: "fd_ghost \<Rightarrow> nat \<Rightarrow> nat \<Rightarrow> bool" for g where
  head_stop: "\<forall>c \<in> ghost_children g i. \<not> blk_valid (the (blk_pool g c)) \<Longrightarrow> ghost_head g i i"
| head_step: "heaviest g i c \<Longrightarrow> ghost_head g c h \<Longrightarrow> ghost_head g i h"

lemma ghost_children_kids:
  assumes inv: "ghost_inv g r kids dep" and i: "i \<in> dom (blk_pool g)"
  shows "ghost_children g i = set (kids i)"
proof -
  have "parent_of (gshape g) c = Some i \<longleftrightarrow> (\<exists>b. blk_pool g c = Some b \<and> blk_parent b = Some i)" for c
    by (cases "blk_pool g c") (auto simp: parent_of_def shape_def)
  then show ?thesis
    using ghost_treeD(9) [OF ghost_invD(2) [OF inv], of i] i by (auto simp: ghost_children_def)
qed

lemma fork_choice_head:
  assumes inv: "ghost_inv g r kids dep"
  shows "fork_choice (blk_pool g) kids i b \<Longrightarrow> i \<in> dom (blk_pool g) \<Longrightarrow> ghost_head g i b"
proof (induction rule: fork_choice.induct)
  case (fc_stop i)
  then show ?case
    using ghost_children_kids [OF inv] by (intro head_stop) (simp add: no_valid_kid_def)
next
  case (fc_step i c b)
  have h: "heaviest g i c"
    using fc_step.hyps(1) ghost_children_kids [OF inv fc_step.prems] by (simp add: heaviest_def best_kid_def)
  have "c \<in> dom (blk_pool g)"
    using kid_dom [OF ghost_invD(2) [OF inv], of i c] fc_step.prems fc_step.hyps(1) by (simp add: best_kid_def)
  then show ?case
    by (rule head_step [OF h fc_step.IH])
qed

text \<open>
  C20. The fork choice walks from any block to a head: at each step to a valid child that no valid
  sibling outweighs, the lower slot winning a tie, and stops only at a block without valid children;
  it always returns.
\<close>

theorem ghost_best_is_head:
  assumes "ghost_reach g" "i \<in> dom (blk_pool g)"
  shows "\<exists>h. fd_ghost_best g i = Ok h \<and> ghost_head g i h"
  using ghost_reach_inv [OF assms(1)] fd_ghost_best_spec fork_choice_head assms(2) by meson

theorem ghost_best_is_head_witness: "ghost_reach ex_ghost \<and> fd_ghost_best ex_ghost 0 = Ok 3 \<and> ghost_head ex_ghost 0 3"
proof -
  have "fd_ghost_best ex_ghost 0 = Ok (Suc (Suc (Suc 0)))"
    by (simp add: fd_ghost_best_def ex_ghost_def ex_blk_def blk_at_def eval_nat_numeral)
  then show ?thesis
    using ex_reach ghost_best_is_head [OF ex_reach ex_dom(1)] by (auto simp: numeral_3_eq_3)
qed

subsection \<open>Equivocation and confirmation\<close>

text \<open>
  C24. Reporting an equivocation clears the validity of exactly the descendants of the block, the
  block included; confirming a block restores the validity of exactly the run of invalid ancestors
  from the block upwards; neither changes anything else.
\<close>

theorem ghost_eqvoc_confirm:
  assumes "ghost_reach g" "blk_map g block_id = Some i"
  shows "\<exists>g1 g2. fd_ghost_eqvoc block_id g = Ok g1 \<and> fd_ghost_confirm block_id g = Ok g2 \<and>
    g1 = g\<lparr>blk_pool := (\<lambda>j. map_option (\<lambda>b. b\<lparr>blk_valid := blk_valid b \<and> j \<notin> desc (gshape g) i\<rparr>) (blk_pool g j))\<rparr> \<and>
    g2 = g\<lparr>blk_pool := (\<lambda>j. map_option (\<lambda>b. b\<lparr>blk_valid := blk_valid b \<or> j \<in> invalid_run g i\<rparr>) (blk_pool g j))\<rparr> \<and>
    (i \<in> invalid_run g i \<or> blk_valid (the (blk_pool g i)))"
proof -
  obtain r kids dep where inv: "ghost_inv g r kids dep"
    using ghost_reach_inv [OF assms(1)] by blast
  have upd: "upd_on A (\<lambda>b. b\<lparr>blk_valid := v\<rparr>) (blk_pool g) j =
      map_option (\<lambda>b. b\<lparr>blk_valid := (if j \<in> A then v else blk_valid b)\<rparr>) (blk_pool g j)" for A v j
    by (cases "blk_pool g j") (simp_all add: upd_on_def)
  have inval: "upd_on A (\<lambda>b. b\<lparr>blk_valid := False\<rparr>) (blk_pool g) =
      (\<lambda>j. map_option (\<lambda>b. b\<lparr>blk_valid := blk_valid b \<and> j \<notin> A\<rparr>) (blk_pool g j))" for A
    unfolding fun_eq_iff upd by (auto intro!: option.map_cong)
  have val: "upd_on A (\<lambda>b. b\<lparr>blk_valid := True\<rparr>) (blk_pool g) =
      (\<lambda>j. map_option (\<lambda>b. b\<lparr>blk_valid := blk_valid b \<or> j \<in> A\<rparr>) (blk_pool g j))" for A
    unfolding fun_eq_iff upd by (auto intro!: option.map_cong)
  have "\<not> blk_valid (the (blk_pool g i)) \<longrightarrow> i \<in> invalid_run g i"
  proof
    assume "\<not> blk_valid (the (blk_pool g i))"
    moreover have "k = i" if "k \<in> anc (gshape g) i" "i \<in> anc (gshape g) k" for k
      using anc_antisym [OF ghost_invD(2) [OF inv] that(2,1)] by simp
    ultimately show "i \<in> invalid_run g i"
      unfolding invalid_run_def mem_Collect_eq by blast
  qed
  then show ?thesis
    unfolding eqvoc_run [OF inv] confirm_run [OF inv] marked_def confirmed_def inval val assms(2) option.case by blast
qed

theorem ghost_eqvoc_confirm_witness:
  "\<exists>g'. fd_ghost_eqvoc [3] ex_ghost = Ok g' \<and> map_option blk_valid (blk_pool g' (Suc (Suc 0))) = Some False"
  using ghost_eqvoc_confirm [OF ex_reach, of "[3]" "Suc (Suc 0)"] desc_self [of "Suc (Suc 0)" "gshape ex_ghost"]
  by (auto simp: ex_ghost_def)

subsection \<open>Queries\<close>

text \<open>The depth of a block is the number of its ancestors.\<close>

lemma card_anc_dep:
  assumes t: "ghost_tree s r kids dep"
  shows "i \<in> dom s \<Longrightarrow> dep i + 1 = dep r + card (anc s i)"
proof (induction "dep i" arbitrary: i rule: less_induct)
  case less
  show ?case
  proof (cases "parent_of s i")
    case None
    then show ?thesis
      using ghost_treeD(6) [OF t less.prems] unfolding anc_root [OF None] by simp
  next
    case (Some p)
    then show ?thesis
      using less.hyps [of p] ghost_treeD(4,5) [OF t Some] anc_card_step [OF t Some] by simp
  qed
qed

text \<open>
  C25. The deepest query returns a descendant of maximal depth, and the queue it threads through the
  map and the link fields leaves the map, the tree and the votes as they were.
\<close>

theorem ghost_deepest_is_deepest:
  assumes "ghost_reach g" "i \<in> dom (blk_pool g)"
  shows "\<exists>p g'. fd_ghost_deepest g i = Ok (p, g') \<and> p \<in> desc (gshape g) i \<and>
    (\<forall>v \<in> desc (gshape g) i. card (anc (gshape g) v) \<le> card (anc (gshape g) p)) \<and>
    ghost_reach g' \<and> ghost_abs g' = ghost_abs g \<and> blk_map g' = blk_map g \<and> same_view (blk_pool g) (blk_pool g')"
proof -
  obtain r kids dep where inv: "ghost_inv g r kids dep"
    using ghost_reach_inv [OF assms(1)] by blast
  obtain p g' where p: "fd_ghost_deepest g i = Ok (p, g')" "p \<in> desc (gshape g) i" "\<forall>v \<in> desc (gshape g) i. dep v \<le> dep p"
      "same_rest g g'" "blk_map g' = blk_map g"
    using fd_ghost_deepest_spec [OF inv assms(2)] by blast
  have "card (anc (gshape g) v) \<le> card (anc (gshape g) p)" if v: "v \<in> desc (gshape g) i" for v
  proof -
    have "dep v \<le> dep p" "v \<in> dom (gshape g)" "p \<in> dom (gshape g)"
      using p(2,3) v desc_dom [of "gshape g" i] by blast+
    then show ?thesis
      using card_anc_dep [OF ghost_invD(2) [OF inv], of v] card_anc_dep [OF ghost_invD(2) [OF inv], of p] by linarith
  qed
  then show ?thesis
    using p abs_traversed [OF p(4,5)] reach_deepest [OF assms p(1)] by (simp add: same_rest_def)
qed

lemma ex_deepest: "fst ` {x. fd_ghost_deepest ex_ghost 0 = Ok x} = {Suc (Suc (Suc 0))}"
proof -
  have "\<exists>g. fd_ghost_deepest ex_ghost 0 = Ok (Suc (Suc (Suc 0)), g)"
    by (simp add: fd_ghost_deepest_def ex_ghost_def ex_blk_def blk_at_def blk_upd_def blk_map_remove_def eval_nat_numeral)
  then show ?thesis
    by auto
qed

theorem ghost_deepest_is_deepest_witness:
  "ghost_reach ex_ghost \<and> (\<exists>p g'. fd_ghost_deepest ex_ghost 0 = Ok (p, g') \<and> p = Suc (Suc (Suc 0)) \<and> ghost_abs g' = ghost_abs ex_ghost)"
  using ghost_deepest_is_deepest [OF ex_reach ex_dom(1)] ex_reach ex_deepest by force

text \<open>The nearest ancestor with a property, the block itself included.\<close>

definition nearest :: "fd_ghost \<Rightarrow> nat \<Rightarrow> (fd_ghost_blk \<Rightarrow> bool) \<Rightarrow> nat option \<Rightarrow> bool" where
  "nearest g i P res \<longleftrightarrow>
     (case res of
        None \<Rightarrow> \<forall>a \<in> anc (gshape g) i. \<not> P (the (blk_pool g a))
      | Some a \<Rightarrow> a \<in> anc (gshape g) i \<and> P (the (blk_pool g a)) \<and>
          (\<forall>c \<in> anc (gshape g) i. P (the (blk_pool g c)) \<longrightarrow> c \<in> anc (gshape g) a))"

text \<open>
  C26. The three ancestor queries return the nearest ancestor, the block itself included, with the
  given block id, with the given slot, and with the validity flag cleared, and null exactly when
  there is none.
\<close>

theorem ghost_ancestor_queries:
  assumes "ghost_reach g" "i \<in> dom (blk_pool g)"
  shows "\<exists>a b c. fd_ghost_ancestor g i block_id = Ok a \<and> nearest g i (\<lambda>b. blk_id b = block_id) a \<and>
    fd_ghost_slot_ancestor g i slot = Ok b \<and> nearest g i (\<lambda>b. blk_slot b = slot) b \<and>
    fd_ghost_invalid_ancestor g i = Ok c \<and> nearest g i (\<lambda>b. \<not> blk_valid b) c"
proof -
  obtain r kids dep where inv: "ghost_inv g r kids dep"
    using ghost_reach_inv [OF assms(1)] by blast
  have "card (anc (gshape g) i) < blk_pool_max g + 1"
    using anc_card [OF ghost_invD(2) [OF inv], of i] assms(2) card_blks [OF ghost_invD(3) [OF inv]] by simp
  note S = predicate_ancestor_spec [OF ghost_invD(2) [OF inv] assms(2) this, folded nearest_def]
  show ?thesis
    using S [of "\<lambda>b. blk_id b = block_id"] S [of "\<lambda>b. blk_slot b = slot"] S [of "\<lambda>b. \<not> blk_valid b"]
    unfolding fd_ghost_ancestor_def fd_ghost_slot_ancestor_def fd_ghost_invalid_ancestor_def by blast
qed

theorem ghost_ancestor_queries_witness:
  "fd_ghost_slot_ancestor ex_ghost (Suc (Suc 0)) 10 = Ok (Some 0) \<and> nearest ex_ghost (Suc (Suc 0)) (\<lambda>b. blk_slot b = 10) (Some 0)"
proof -
  have "fd_ghost_slot_ancestor ex_ghost (Suc (Suc 0)) 10 = Ok (Some 0)"
    by (simp add: fd_ghost_slot_ancestor_def ex_ghost_def ex_blk_def blk_at_def eval_nat_numeral)
  then show ?thesis
    using ghost_ancestor_queries [OF ex_reach ex_dom(2), of "[1]" 10] by auto
qed

text \<open>
  C27. The incrementally maintained width is the number of leaves of the fork tree.
\<close>

theorem ghost_width_is_leaves:
  assumes "ghost_reach g"
  shows "fd_ghost_width g = card {i \<in> dom (blk_pool g). ghost_children g i = {}}"
proof -
  obtain r kids dep where inv: "ghost_inv g r kids dep"
    using ghost_reach_inv [OF assms(1)] by blast
  let ?D = "dom (blk_pool g)" and ?L = "{i \<in> dom (blk_pool g). kids i = []}"
  have fin: "finite ?D"
    using ghost_treeD(1) [OF ghost_invD(2) [OF inv]] by simp
  have "(\<Sum>i \<in> ?D. length (kids i)) + card ?L = (\<Sum>i \<in> ?D. length (kids i) + (if kids i = [] then 1 else 0))"
    using fin by (simp add: sum.distrib sum.If_cases Int_def)
  also have "\<dots> = (\<Sum>i \<in> ?D. (length (kids i) - 1) + 1)"
    by (intro sum.cong) auto
  also have "\<dots> = extra_kids g kids + card ?D"
    by (simp add: sum_Suc extra_kids_def)
  finally have "ghost_width g = card ?L"
    using sum_kids [OF ghost_invD(2) [OF inv]] ghost_invD(6) [OF inv] by simp
  moreover have "?L = {i \<in> ?D. ghost_children g i = {}}"
    using ghost_children_kids [OF inv] by (intro Collect_cong) (metis set_empty)
  ultimately show ?thesis
    by (simp add: fd_ghost_width_def)
qed

theorem ghost_width_is_leaves_witness: "ghost_reach ex_ghost \<and> card {i \<in> dom (blk_pool ex_ghost). ghost_children ex_ghost i = {}} = 2"
  using ghost_width_is_leaves [OF ex_reach] ex_reach by (simp add: fd_ghost_width_def ex_ghost_def)

text \<open>
  Ties between deepest blocks.  Root 1 has the children 2 and 3; then block 4 is inserted below 3 and
  after it block 5 below 2.
\<close>

definition tie_run :: "(nat \<times> nat \<times> nat) res" where
  "tie_run =
     rbind (fd_ghost_init 0 10 [1] (fd_ghost_new 8 1)) (\<lambda>(r, g).
     rbind (fd_ghost_insert 0 11 [2] [1] g) (\<lambda>(_, g).
     rbind (fd_ghost_insert 0 12 [3] [1] g) (\<lambda>(_, g).
     rbind (fd_ghost_insert 0 13 [4] [3] g) (\<lambda>(older, g).
     rbind (fd_ghost_insert 0 14 [5] [2] g) (\<lambda>(newer, g).
     rbind (fd_ghost_deepest g r) (\<lambda>(deepest, g). Ok (older, newer, deepest)))))))"

text \<open>Of two blocks at the same maximal depth the deepest query can return the one inserted first.\<close>

lemma ghost_deepest_tie: "\<exists>older newer. older \<noteq> newer \<and> tie_run = Ok (older, newer, older)"
  by (simp add: tie_run_def ghost_eval fd_ghost_deepest_def blk_map_remove_def)

end
