(* ===== verification/Bits_Hash.thy ===== *)
theory Bits_Hash
  imports Bits_Pow2
begin

text \<open>
  The signed template functions, the integer hashes and the digit counter of
  \<open>src/src/util/bits/fd_bits.h\<close>.  A signed integer is the word of its two's complement
  representation, read by \<open>sint\<close>; \<open>>>\<close> of a signed operand is the sign-extending shift.
\<close>

subsection \<open>Signed integers\<close>

definition fd_sT_abs :: "'a :: len word \<Rightarrow> 'a word" where
  "fd_sT_abs x = (let m = signed_drop_bit (LENGTH('a) - 1) x in (x + m) XOR m)"

definition fd_sT_min :: "'a :: len word \<Rightarrow> 'a word \<Rightarrow> 'a word" where
  "fd_sT_min x y = (if sint x \<le> sint y then x else y)"

definition fd_sT_max :: "'a :: len word \<Rightarrow> 'a word \<Rightarrow> 'a word" where
  "fd_sT_max x y = (if sint x \<ge> sint y then x else y)"

definition fd_sT_shift_left :: "'a :: len word \<Rightarrow> nat \<Rightarrow> 'a word" where
  "fd_sT_shift_left x n = fd_T_shift_left x n"

definition fd_sT_shift_right :: "'a :: len word \<Rightarrow> nat \<Rightarrow> 'a word" where
  "fd_sT_shift_right x n = signed_drop_bit (if n > LENGTH('a) - 1 then LENGTH('a) - 1 else n) x"

definition fd_sT_rotate_left :: "'a :: len word \<Rightarrow> int \<Rightarrow> 'a word" where
  "fd_sT_rotate_left x n = fd_T_rotate_left x n"

definition fd_sT_rotate_right :: "'a :: len word \<Rightarrow> int \<Rightarrow> 'a word" where
  "fd_sT_rotate_right x n = fd_T_rotate_right x n"

definition fd_sT_zz_enc :: "'a :: len word \<Rightarrow> 'a word" where
  "fd_sT_zz_enc x = signed_drop_bit (LENGTH('a) - 1) x XOR push_bit 1 x"

definition fd_sT_zz_dec :: "'a :: len word \<Rightarrow> 'a word" where
  "fd_sT_zz_dec x = drop_bit 1 x XOR - (x AND 1)"

lemma sign_fill: "signed_drop_bit (LENGTH('a) - Suc 0) x = (if sint x < 0 then - 1 else (0 :: 'a :: len word))"
proof (rule bit_word_eqI)
  fix n
  assume n: "n < LENGTH('a)"
  have "bit (signed_drop_bit (LENGTH('a) - Suc 0) x) n = bit x (LENGTH('a) - Suc 0)"
    using n by (cases n) (simp_all add: bit_signed_drop_bit_iff)
  then show "bit (signed_drop_bit (LENGTH('a) - Suc 0) x) n = bit (if sint x < 0 then - 1 else 0 :: 'a word) n"
    using n by (simp add: bit_last_iff)
qed

lemma sint_range: "- (2 ^ (LENGTH('a) - 1)) \<le> sint x" "sint x < 2 ^ (LENGTH('a) - 1)" for x :: "'a :: len word"
  using sint_greater_eq [of x] sint_less [of x] by simp_all

lemma uint_via_sint: "uint (of_int i :: 'a :: len word) = i" if "0 \<le> i" "i < 2 ^ LENGTH('a)"
  using that by (simp add: uint_word_of_int)

lemma two_halves: "2 * 2 ^ (LENGTH('a) - 1) = (2 :: int) ^ LENGTH('a :: len)"
  by (simp flip: power_Suc)

lemma uint_zz_enc: "uint (fd_sT_zz_enc x) = (if sint x < 0 then - 2 * sint x - 1 else 2 * sint x)" for x :: "'a :: len word"
proof -
  have x: "x = of_int (sint x)"
    by simp
  have "fd_sT_zz_enc x = (if sint x < 0 then NOT (2 * x) else 2 * x)"
    by (simp add: fd_sT_zz_enc_def sign_fill push_bit_eq_mult mult.commute)
  also have "\<dots> = of_int (if sint x < 0 then - 2 * sint x - 1 else 2 * sint x)"
    by (subst (2 3) x) (simp add: not_eq_complement)
  finally show ?thesis
    using uint_via_sint [where 'a = 'a, of "if sint x < 0 then - 2 * sint x - 1 else 2 * sint x"] sint_range [of x] two_halves [where 'a = 'a]
    by (simp split: if_splits)
qed

lemma and_one_bit: "w AND 1 = (if bit w 0 then 1 else 0)" for w :: "'a :: len word"
  by (rule bit_word_eqI) (auto simp: bit_simps elim: contrapos_np)

lemma bit_twice: "bit (w * 2) (Suc n) \<longleftrightarrow> Suc n < LENGTH('a) \<and> bit w n" for w :: "'a :: len word"
  using bit_push_bit_iff [of 1 w "Suc n"] by simp

lemma zz_dec_enc: "fd_sT_zz_dec (fd_sT_zz_enc x) = x"
proof (cases "sint x < 0")
  case True
  have e: "fd_sT_zz_enc x = NOT (push_bit 1 x)"
    using True by (simp add: fd_sT_zz_enc_def sign_fill)
  then have "fd_sT_zz_enc x AND 1 = 1"
    by (simp add: and_one_bit bit_not_iff bit_0)
  then have "fd_sT_zz_dec (fd_sT_zz_enc x) = NOT (drop_bit 1 (NOT (push_bit 1 x)))"
    by (simp add: fd_sT_zz_dec_def e)
  also have "\<dots> = x"
  proof (rule bit_word_eqI)
    fix n
    assume "n < LENGTH('a)"
    then show "bit (NOT (drop_bit 1 (NOT (push_bit 1 x)))) n = bit x n"
      using True bit_last_iff [of x] by (cases "n = LENGTH('a) - 1") (auto simp: bit_simps bit_twice)
  qed
  finally show ?thesis .
next
  case False
  then have e: "fd_sT_zz_enc x = push_bit 1 x"
    by (simp add: fd_sT_zz_enc_def sign_fill)
  then have "fd_sT_zz_enc x AND 1 = 0"
    by (simp add: and_one_bit bit_not_iff bit_0)
  then have "fd_sT_zz_dec (fd_sT_zz_enc x) = drop_bit 1 (push_bit 1 x)"
    by (simp add: fd_sT_zz_dec_def e)
  also have "\<dots> = x"
  proof (rule bit_word_eqI)
    fix n
    assume "n < LENGTH('a)"
    then show "bit (drop_bit 1 (push_bit 1 x)) n = bit x n"
      using False bit_last_iff [of x] by (cases "n = LENGTH('a) - 1") (auto simp: bit_simps bit_twice)
  qed
  finally show ?thesis .
qed

lemma zz_enc_dec: "fd_sT_zz_enc (fd_sT_zz_dec y) = y"
proof -
  have "inj fd_sT_zz_enc"
    using zz_dec_enc by (rule inj_on_inverseI)
  then have "surj fd_sT_zz_enc"
    by (rule finite_UNIV_inj_surj [OF finite])
  then obtain x where "y = fd_sT_zz_enc x"
    by (auto elim: surjE)
  then show ?thesis
    by (simp add: zz_dec_enc)
qed

lemma uint_abs: "uint (fd_sT_abs x) = \<bar>sint x\<bar>" for x :: "'a :: len word"
proof -
  have "fd_sT_abs x = (if sint x < 0 then - x else x)"
    using minus_eq_not_minus_1 [of x] by (simp add: fd_sT_abs_def sign_fill Let_def)
  also have "\<dots> = of_int \<bar>sint x\<bar>"
    by (simp add: abs_if)
  finally show ?thesis
    using uint_via_sint [where 'a = 'a, of "\<bar>sint x\<bar>"] sint_range [of x] two_halves [where 'a = 'a] by simp
qed

text \<open>
  C33. At every width the zig-zag encoding maps the integers 0, -1, 1, -2 and so on to 0, 1, 2, 3
  and so on and is inverted by the decoding on both sides; abs is exact also for the most negative
  integer, the arithmetic shift is the floor division by any power of two, and min and max compare
  as signed integers.
\<close>

theorem fd_sT_signed_spec:
  fixes x y :: "'a :: len word"
  shows "uint (fd_sT_zz_enc x) = (if sint x < 0 then - 2 * sint x - 1 else 2 * sint x) \<and>
    fd_sT_zz_dec (fd_sT_zz_enc x) = x \<and> fd_sT_zz_enc (fd_sT_zz_dec y) = y \<and>
    uint (fd_sT_abs x) = \<bar>sint x\<bar> \<and> sint (fd_sT_shift_right x n) = sint x div 2 ^ n \<and>
    sint (fd_sT_min x y) = min (sint x) (sint y) \<and> sint (fd_sT_max x y) = max (sint x) (sint y)"
proof (intro conjI)
  show "uint (fd_sT_abs x) = \<bar>sint x\<bar>"
    by (rule uint_abs)
  show "sint (fd_sT_shift_right x n) = sint x div 2 ^ n"
  proof (cases "n > LENGTH('a) - 1")
    case True
    then have "(2 :: int) ^ (LENGTH('a) - 1) \<le> 2 ^ n"
      by (intro power_increasing) simp_all
    then have "- (2 ^ n) \<le> sint x" "sint x < 2 ^ n"
      using sint_range [of x] by linarith+
    then have "sint x div 2 ^ n = (if sint x < 0 then - 1 else 0)"
      using int_div_pos_eq [of "sint x" "2 ^ n" "- 1" "sint x + 2 ^ n"] by (simp add: div_pos_pos_trivial)
    then show ?thesis
      using True by (simp add: fd_sT_shift_right_def sign_fill)
  next
    case False
    then show ?thesis
      by (simp add: fd_sT_shift_right_def sint_signed_drop_bit_eq drop_bit_eq_div)
  qed
qed (simp_all add: uint_zz_enc zz_dec_enc zz_enc_dec fd_sT_min_def fd_sT_max_def min_def max_def)

subsection \<open>Hashes\<close>

definition fd_uint_hash :: "u32 \<Rightarrow> u32" where
  "fd_uint_hash x =
     (let x = x XOR drop_bit 16 x;
          x = x * 0x85ebca6b;
          x = x XOR drop_bit 13 x;
          x = x * 0xc2b2ae35;
          x = x XOR drop_bit 16 x
      in x)"

definition fd_ulong_hash :: "u64 \<Rightarrow> u64" where
  "fd_ulong_hash x =
     (let x = x XOR drop_bit 33 x;
          x = x * 0xff51afd7ed558ccd;
          x = x XOR drop_bit 33 x;
          x = x * 0xc4ceb9fe1a85ec53;
          x = x XOR drop_bit 33 x
      in x)"

definition fd_uint_hash_inverse :: "u32 \<Rightarrow> u32" where
  "fd_uint_hash_inverse x =
     (let x = x XOR drop_bit 16 x;
          x = x * 0x7ed1b41d;
          x = x XOR (drop_bit 13 x XOR drop_bit 26 x);
          x = x * 0xa5cb9243;
          x = x XOR drop_bit 16 x
      in x)"

definition fd_ulong_hash_inverse :: "u64 \<Rightarrow> u64" where
  "fd_ulong_hash_inverse x =
     (let x = x XOR drop_bit 33 x;
          x = x * 0x9cb4b2f8129337db;
          x = x XOR drop_bit 33 x;
          x = x * 0x4f74430c22a54005;
          x = x XOR drop_bit 33 x
      in x)"

lemma xorshift_self:
  assumes "LENGTH('a) \<le> 2 * k"
  shows "(x XOR drop_bit k x) XOR drop_bit k (x XOR drop_bit k x) = (x :: 'a :: len word)"
  using assms by (intro bit_word_eqI) (auto simp: bit_simps dest: bit_imp_le_length)

lemma xorshift_13:
  fixes x :: u32
  shows "(x XOR drop_bit 13 x) XOR (drop_bit 13 (x XOR drop_bit 13 x) XOR drop_bit 26 (x XOR drop_bit 13 x)) = x"
    "(x XOR (drop_bit 13 x XOR drop_bit 26 x)) XOR drop_bit 13 (x XOR (drop_bit 13 x XOR drop_bit 26 x)) = x"
  by (rule bit_word_eqI; auto simp: bit_simps dest: bit_imp_le_length)+

lemma mult_inverse: "a * b = 1 \<Longrightarrow> x * a * b = x" for x a b :: "'a :: len word"
  by (simp add: mult.assoc)

lemma uint_multipliers: "x * 0x85ebca6b * 0xa5cb9243 = x" "x * 0xa5cb9243 * 0x85ebca6b = x"
    "x * 0xc2b2ae35 * 0x7ed1b41d = x" "x * 0x7ed1b41d * 0xc2b2ae35 = x" for x :: u32
  by (rule mult_inverse; simp)+

lemma ulong_multipliers: "x * 0xff51afd7ed558ccd * 0x4f74430c22a54005 = x" "x * 0x4f74430c22a54005 * 0xff51afd7ed558ccd = x"
    "x * 0xc4ceb9fe1a85ec53 * 0x9cb4b2f8129337db = x" "x * 0x9cb4b2f8129337db * 0xc4ceb9fe1a85ec53 = x" for x :: u64
  by (rule mult_inverse; simp)+

text \<open>
  C32. The 32-bit and 64-bit hashes are permutations that fix zero, and the inverse hashes invert
  them on both sides.
\<close>

theorem fd_hash_permutation:
  "fd_uint_hash_inverse (fd_uint_hash x) = x \<and> fd_uint_hash (fd_uint_hash_inverse x) = x \<and>
   fd_ulong_hash_inverse (fd_ulong_hash y) = y \<and> fd_ulong_hash (fd_ulong_hash_inverse y) = y \<and>
   bij fd_uint_hash \<and> bij fd_ulong_hash \<and> fd_uint_hash 0 = 0 \<and> fd_ulong_hash 0 = 0"
proof -
  have s: "LENGTH(32) \<le> 2 * 16" "LENGTH(64) \<le> 2 * 33"
    by simp_all
  have u: "fd_uint_hash_inverse (fd_uint_hash x) = x" "fd_uint_hash (fd_uint_hash_inverse x) = x" for x
    by (simp_all only: fd_uint_hash_def fd_uint_hash_inverse_def Let_def xorshift_self [OF s(1)] xorshift_13 uint_multipliers)
  have l: "fd_ulong_hash_inverse (fd_ulong_hash y) = y" "fd_ulong_hash (fd_ulong_hash_inverse y) = y" for y
    by (simp_all only: fd_ulong_hash_def fd_ulong_hash_inverse_def Let_def xorshift_self [OF s(2)] ulong_multipliers)
  have "bij fd_uint_hash" "bij fd_ulong_hash"
    by (rule o_bij [of fd_uint_hash_inverse] o_bij [of fd_ulong_hash_inverse]; simp add: fun_eq_iff u l)+
  moreover have "fd_uint_hash 0 = 0" "fd_ulong_hash 0 = 0"
    by (simp_all add: fd_uint_hash_def fd_ulong_hash_def)
  ultimately show ?thesis
    by (simp add: u l)
qed

subsection \<open>Decimal digits\<close>

function base10_loop :: "nat \<Rightarrow> u64 \<Rightarrow> nat \<Rightarrow> u64 \<Rightarrow> nat" where
  "base10_loop M x cnt thresh =
     (if x < thresh then cnt
      else (let cnt = cnt + 1; thresh = thresh * 10 in if cnt < M then base10_loop M x cnt thresh else cnt))"
  by pat_completeness auto
termination
  by (relation "measure (\<lambda>(M, x, cnt, thresh). M - cnt)") auto

declare base10_loop.simps [simp del]

definition fd_uchar_base10_dig_cnt :: "u8 \<Rightarrow> nat" where
  "fd_uchar_base10_dig_cnt x = base10_loop 3 (ucast x) 1 10"

definition fd_ushort_base10_dig_cnt :: "u16 \<Rightarrow> nat" where
  "fd_ushort_base10_dig_cnt x = base10_loop 5 (ucast x) 1 10"

definition fd_uint_base10_dig_cnt :: "u32 \<Rightarrow> nat" where
  "fd_uint_base10_dig_cnt x = base10_loop 10 (ucast x) 1 10"

definition fd_ulong_base10_dig_cnt :: "u64 \<Rightarrow> nat" where
  "fd_ulong_base10_dig_cnt x = base10_loop 20 x 1 10"

definition dig_cnt :: "nat \<Rightarrow> nat \<Rightarrow> bool" where
  "dig_cnt x c \<longleftrightarrow> 0 < c \<and> x < 10 ^ c \<and> (c = 1 \<or> 10 ^ (c - 1) \<le> x)"

lemma base10_loop_spec:
  assumes "cnt < M" "M \<le> 20" "unat x < 10 ^ M" "thresh = 10 ^ cnt" "0 < cnt" "cnt = 1 \<or> 10 ^ (cnt - 1) \<le> unat x"
  shows "dig_cnt (unat x) (base10_loop M x cnt thresh)"
  using assms
proof (induction M x cnt thresh rule: base10_loop.induct)
  case (1 M x cnt thresh)
  have "(10 :: nat) ^ cnt \<le> 10 ^ 19"
    using 1(2,3) by (intro power_increasing) simp_all
  also have "(10 :: nat) ^ 19 < 2 ^ 64"
    by simp
  finally have "(10 :: nat) ^ cnt mod 2 ^ LENGTH(64) = 10 ^ cnt"
    by simp
  moreover have "thresh = of_nat (10 ^ cnt)"
    using 1(5) by simp
  ultimately have t: "unat thresh = 10 ^ cnt"
    by (simp only: unat_of_nat)
  show ?case
  proof (cases "x < thresh")
    case True
    then show ?thesis
      using 1(6,7) t by (subst base10_loop.simps) (auto simp: dig_cnt_def word_less_nat_alt)
  next
    case False
    then have x: "10 ^ cnt \<le> unat x"
      using t by (simp add: word_less_nat_alt)
    show ?thesis
    proof (cases "cnt + 1 < M")
      case True
      then have "dig_cnt (unat x) (base10_loop M x (cnt + 1) (thresh * 10))"
        using 1(1) [OF False refl refl True] 1(3-) x by simp
      then show ?thesis
        using False True by (subst base10_loop.simps) (simp add: Let_def)
    next
      case no: False
      then have "M = cnt + 1"
        using 1(2) by simp
      then show ?thesis
        using False no x 1(4) by (subst base10_loop.simps) (simp add: Let_def dig_cnt_def)
    qed
  qed
qed

text \<open>
  C34. At every width the decimal digit counter returns the number of digits of its argument (one
  for zero): the least power of ten above the argument, although the last threshold for 64-bit
  arguments would overflow.
\<close>

theorem fd_base10_dig_cnt_spec:
  "dig_cnt (unat x8) (fd_uchar_base10_dig_cnt x8) \<and> dig_cnt (unat x16) (fd_ushort_base10_dig_cnt x16) \<and>
   dig_cnt (unat x32) (fd_uint_base10_dig_cnt x32) \<and> dig_cnt (unat x64) (fd_ulong_base10_dig_cnt x64)"
proof -
  have w: "unat (ucast x8 :: u64) = unat x8" "unat (ucast x16 :: u64) = unat x16" "unat (ucast x32 :: u64) = unat x32"
    by (simp_all add: unat_ucast_widen)
  have b: "unat x8 < 10 ^ 3" "unat x16 < 10 ^ 5" "unat x32 < 10 ^ 10" "unat x64 < 10 ^ 20"
    by (rule less_le_trans [OF unsigned_less]; simp)+
  show ?thesis
    unfolding fd_uchar_base10_dig_cnt_def fd_ushort_base10_dig_cnt_def fd_uint_base10_dig_cnt_def fd_ulong_base10_dig_cnt_def
    using base10_loop_spec [of 1 3 "ucast x8" 10] base10_loop_spec [of 1 5 "ucast x16" 10] base10_loop_spec [of 1 10 "ucast x32" 10]
      base10_loop_spec [of 1 20 x64 10] b unfolding w by simp
qed

end
