(* ===== verification/Bits_Svw.thy ===== *)
theory Bits_Svw
  imports Bits_Hash
begin

text \<open>
  The symmetric variable width integers of \<open>src/src/util/bits/fd_bits.h\<close>: a 64-bit integer in 1 to 9 bytes whose
  first and whose last byte both tell the size, so that a stream of them is read in either direction.
  Encoders return the bytes they write; decoders read a buffer at an offset.
\<close>

primrec FD_STORE :: "nat \<Rightarrow> u64 \<Rightarrow> bytes" where
  "FD_STORE 0 v = []"
| "FD_STORE (Suc n) v = ucast v # FD_STORE n (drop_bit 8 v)"

definition fd_ulong_load :: "nat \<Rightarrow> bytes \<Rightarrow> nat \<Rightarrow> u64 res" where
  "fd_ulong_load n b i = LOAD n b i (\<lambda>v. Ok (of_nat v))"

definition fd_ulong_svw_enc_sz :: "u64 \<Rightarrow> nat" where
  "fd_ulong_svw_enc_sz x =
     (if x < push_bit 6 1 then 1
      else if x < push_bit 10 1 then 2
      else if x < push_bit 18 1 then 3
      else if x < push_bit 24 1 then 4
      else if x < push_bit 32 1 then 5
      else if x < push_bit 56 1 then 8
      else 9)"

definition fd_ulong_svw_enc :: "u64 \<Rightarrow> bytes" where
  "fd_ulong_svw_enc x =
     (if x < push_bit 6 1 then [ucast (push_bit 1 x)]
      else if x < push_bit 10 1 then FD_STORE 2 (0x8001 OR push_bit 3 x)
      else if x < push_bit 18 1 then FD_STORE 2 (0x5 OR push_bit 3 x) @ [ucast (0xa0 OR drop_bit 13 x)]
      else if x < push_bit 24 1 then FD_STORE 4 (0xc0000003 OR push_bit 4 x)
      else if x < push_bit 32 1 then FD_STORE 4 (0xb OR push_bit 4 x) @ [ucast (0xd0 OR drop_bit 28 x)]
      else if x < push_bit 56 1 then FD_STORE 8 (0xe000000000000007 OR push_bit 4 x)
      else FD_STORE 8 (0xf OR push_bit 4 x) @ [ucast (0xf0 OR drop_bit 60 x)])"

definition fd_ulong_svw_enc_fixed :: "nat \<Rightarrow> u64 \<Rightarrow> bytes" where
  "fd_ulong_svw_enc_fixed csz x =
     (if csz = 1 then [ucast (push_bit 1 x)]
      else if csz = 2 then FD_STORE 2 (0x8001 OR push_bit 3 x)
      else if csz = 3 then FD_STORE 2 (0x5 OR push_bit 3 x) @ [ucast (0xa0 OR drop_bit 13 x)]
      else if csz = 4 then FD_STORE 4 (0xc0000003 OR push_bit 4 x)
      else if csz = 5 then FD_STORE 4 (0xb OR push_bit 4 x) @ [ucast (0xd0 OR drop_bit 28 x)]
      else if csz = 8 then FD_STORE 8 (0xe000000000000007 OR push_bit 4 x)
      else FD_STORE 8 (0xf OR push_bit 4 x) @ [ucast (0xf0 OR drop_bit 60 x)])"

definition fd_ulong_svw_dec_sz :: "bytes \<Rightarrow> nat \<Rightarrow> nat res" where
  "fd_ulong_svw_dec_sz b i =
     READ b i (\<lambda>b0. Ok (unat (drop_bit (unat (push_bit 2 (ucast b0 AND 15 :: u64))) (0x9131512181314121 :: u64) AND 15)))"

definition fd_ulong_svw_dec_tail_sz :: "bytes \<Rightarrow> nat \<Rightarrow> nat res" where
  "fd_ulong_svw_dec_tail_sz b i =
     (if i = 0 then Ub
      else READ b (i - 1) (\<lambda>bl. Ok (unat (drop_bit (unat (push_bit 2 (drop_bit 4 (ucast bl :: u64)))) (0x9854332211111111 :: u64) AND 15))))"

definition fd_ulong_svw_dec_fixed :: "bytes \<Rightarrow> nat \<Rightarrow> nat \<Rightarrow> u64 res" where
  "fd_ulong_svw_dec_fixed b i csz =
     (if csz = 1 then rbind (fd_ulong_load 1 b i) (\<lambda>v. Ok (drop_bit 1 v))
      else if csz = 2 then rbind (fd_ulong_load 2 b i) (\<lambda>v. Ok (drop_bit 3 v AND 1023))
      else if csz = 3 then rbind (fd_ulong_load 2 b i) (\<lambda>v. READ b (i + 2) (\<lambda>c. Ok (drop_bit 3 v OR push_bit 13 (ucast c AND 0x1f))))
      else if csz = 4 then rbind (fd_ulong_load 4 b i) (\<lambda>v. Ok (drop_bit 4 v AND 16777215))
      else if csz = 5 then rbind (fd_ulong_load 4 b i) (\<lambda>v. READ b (i + 4) (\<lambda>c. Ok (drop_bit 4 v OR push_bit 28 (ucast c AND 0x0f))))
      else if csz = 8 then rbind (fd_ulong_load 8 b i) (\<lambda>v. Ok (drop_bit 4 v AND 72057594037927935))
      else rbind (fd_ulong_load 8 b i) (\<lambda>v. READ b (i + 8) (\<lambda>c. Ok (drop_bit 4 v OR push_bit 60 (ucast c)))))"

definition fd_ulong_svw_dec :: "bytes \<Rightarrow> nat \<Rightarrow> (nat \<times> u64) res" where
  "fd_ulong_svw_dec b i =
     rbind (fd_ulong_svw_dec_sz b i) (\<lambda>csz. rbind (fd_ulong_svw_dec_fixed b i csz) (\<lambda>x. Ok (i + csz, x)))"

definition fd_ulong_svw_dec_tail :: "bytes \<Rightarrow> nat \<Rightarrow> (nat \<times> u64) res" where
  "fd_ulong_svw_dec_tail b i =
     rbind (fd_ulong_svw_dec_tail_sz b i) (\<lambda>csz.
     if i < csz then Ub else rbind (fd_ulong_svw_dec_fixed b (i - csz) csz) (\<lambda>x. Ok (i - csz, x)))"

subsection \<open>Bytes and nibbles\<close>

lemma length_FD_STORE [simp]: "length (FD_STORE n v) = n"
  by (induction n arbitrary: v) simp_all

lemma nth_FD_STORE: "k < n \<Longrightarrow> FD_STORE n v ! k = ucast (drop_bit (8 * k) v)"
  by (induction n arbitrary: v k) (auto simp: nth_Cons add.commute split: nat.split)

lemma le_nat_FD_STORE: "le_nat (FD_STORE n v) = unat v mod 256 ^ n"
proof (induction n arbitrary: v)
  case (Suc n)
  have "unat (ucast v :: u8) = unat v mod 256"
    by (simp add: unsigned_ucast_eq take_bit_eq_mod)
  moreover have "unat (drop_bit 8 v) = unat v div 256"
    using unsigned_less [of v, where 'a = nat] by (subst unsigned_drop_bit_eq) (simp add: drop_bit_eq_div take_bit_nat_eq_self)
  ultimately show ?case
    by (simp add: Suc.IH mod_mult2_eq)
qed simp

lemma load_FD_STORE:
  assumes "n \<le> 8"
  shows "of_nat (le_nat (FD_STORE n v)) = (take_bit (8 * n) v :: u64)"
proof (rule unsigned_word_eqI)
  have "(256 :: nat) ^ n = 2 ^ (8 * n)"
    by (simp add: power_mult)
  then have "unat (of_nat (le_nat (FD_STORE n v)) :: u64) = unat v mod 2 ^ (8 * n) mod 2 ^ 64"
    by (simp add: le_nat_FD_STORE unat_of_nat)
  also have "\<dots> = unat v mod 2 ^ (8 * n)"
  proof (rule mod_less)
    have "unat v mod 2 ^ (8 * n) < 2 ^ (8 * n)"
      by simp
    also have "\<dots> \<le> (2 :: nat) ^ 64"
      using assms by (intro power_increasing) simp_all
    finally show "unat v mod 2 ^ (8 * n) < 2 ^ 64" .
  qed
  also have "\<dots> = unat (take_bit (8 * n) v)"
    by (subst unsigned_take_bit_eq) (simp add: take_bit_eq_mod)
  finally show "unat (of_nat (le_nat (FD_STORE n v)) :: u64) = unat (take_bit (8 * n) v)" .
qed

lemma byte_word: "ucast (ucast (v :: u64) :: u8) = (take_bit 8 v :: u64)"
  by (rule bit_word_eqI) (auto simp: bit_simps)

lemma and_take_bit: "w AND 15 = take_bit 4 w" "w AND 0x1f = take_bit 5 w" "w AND 1023 = take_bit 10 w" "w AND 16777215 = take_bit 24 w"
    "w AND 72057594037927935 = take_bit 56 w" for w :: u64
  by (simp_all add: take_bit_eq_mask mask_eq_exp_minus_1)

text \<open>The number of bits a size can hold.\<close>

definition svw_bits :: "nat \<Rightarrow> nat" where
  "svw_bits csz = (if csz = 1 then 6 else if csz = 2 then 10 else if csz = 3 then 18 else if csz = 4 then 24 else if csz = 5 then 32
     else if csz = 8 then 56 else 64)"

definition svw_fits :: "nat \<Rightarrow> u64 \<Rightarrow> bool" where
  "svw_fits csz x \<longleftrightarrow> csz \<in> {1, 2, 3, 4, 5, 8, 9} \<and> unat x < 2 ^ svw_bits csz"

lemma drop_push:
  assumes "unat (x :: u64) < 2 ^ j" "j + k \<le> 64" "k \<le> m"
  shows "drop_bit m (push_bit k x) = drop_bit (m - k) x"
proof (rule bit_word_eqI)
  fix n
  have "bit x (n + (m - k)) \<Longrightarrow> n + (m - k) < j"
    using bit_less_pow2 [OF assms(1)] by blast
  then show "bit (drop_bit m (push_bit k x)) n = bit (drop_bit (m - k) x) n"
    using assms(2,3) by (auto simp: bit_simps algebra_simps)
qed

lemma drop_small: "unat (x :: u64) < 2 ^ j \<Longrightarrow> j \<le> m \<Longrightarrow> drop_bit m x = 0"
proof (rule bit_word_eqI)
  fix n
  assume "unat x < 2 ^ j" "j \<le> m"
  then show "bit (drop_bit m x) n = bit (0 :: u64) n"
    using bit_less_pow2 [of x j "n + m"] by (auto simp: bit_simps add.commute)
qed

lemma take_small: "unat (x :: u64) < 2 ^ j \<Longrightarrow> j \<le> m \<Longrightarrow> take_bit m x = x"
proof (rule bit_word_eqI)
  fix n
  assume "unat x < 2 ^ j" "j \<le> m"
  then show "bit (take_bit m x) n = bit x n"
    using bit_less_pow2 [of x j n] by (auto simp: bit_simps)
qed

lemma take_push_small: "m \<le> k \<Longrightarrow> take_bit m (push_bit k x) = (0 :: u64)"
  by (rule bit_word_eqI) (auto simp: bit_simps)

lemma join_bits: "take_bit m x OR push_bit m (take_bit k (drop_bit m x)) = (take_bit (m + k) x :: u64)"
  by (rule bit_word_eqI) (auto simp: bit_simps)

lemma of_unat: "unat (y :: u64) = n \<Longrightarrow> y = of_nat n"
  by auto

lemma word_below_2: "unat (y :: u64) < 2 \<Longrightarrow> y = 0 \<or> y = 1"
proof -
  assume "unat y < 2"
  then have "unat y = 0 \<or> unat y = 1"
    by linarith
  then show ?thesis
    by - (elim disjE; drule of_unat; simp)
qed

lemma word_below_8: "unat (y :: u64) < 8 \<Longrightarrow> y = 0 \<or> y = 1 \<or> y = 2 \<or> y = 3 \<or> y = 4 \<or> y = 5 \<or> y = 6 \<or> y = 7"
proof -
  assume "unat y < 8"
  then have "unat y = 0 \<or> unat y = 1 \<or> unat y = 2 \<or> unat y = 3 \<or> unat y = 4 \<or> unat y = 5 \<or> unat y = 6 \<or> unat y = 7"
    by linarith
  then show ?thesis
    by - (elim disjE; drule of_unat; simp)
qed

lemma unat_drop: "unat (x :: u64) < 2 ^ (m + k) \<Longrightarrow> unat (drop_bit m x) < 2 ^ k"
  using unsigned_less [of x, where 'a = nat]
  by (subst unsigned_drop_bit_eq) (simp add: drop_bit_eq_div take_bit_nat_eq_self less_mult_imp_div_less power_add mult.commute)

lemma unat_take: "unat (take_bit k (x :: u64)) < 2 ^ k"
  by (subst unsigned_take_bit_eq) simp

subsection \<open>Sizes\<close>

definition head_nibble :: "nat \<Rightarrow> u64 \<Rightarrow> u64" where
  "head_nibble csz x = take_bit 4 (if csz = 1 then push_bit 1 x else if csz = 2 then 1 OR push_bit 3 x else if csz = 3 then 5 OR push_bit 3 x
     else if csz = 4 then 3 else if csz = 5 then 11 else if csz = 8 then 7 else 15)"

lemma enc_head:
  assumes "svw_fits csz x"
  shows "ucast (fd_ulong_svw_enc_fixed csz x ! 0) AND 15 = head_nibble csz x"
proof -
  have "ucast (fd_ulong_svw_enc_fixed csz x ! 0) AND 15 = take_bit 4 (ucast (fd_ulong_svw_enc_fixed csz x ! 0) :: u64)"
    by (rule and_take_bit)
  then show ?thesis
    using assms by (auto simp: svw_fits_def fd_ulong_svw_enc_fixed_def nth_FD_STORE nth_append byte_word take_bit_take_bit take_bit_or
      take_push_small head_nibble_def)
qed

lemma head_size:
  assumes "svw_fits csz x"
  shows "unat (drop_bit (unat (push_bit 2 (head_nibble csz x))) (0x9131512181314121 :: u64) AND 15) = csz"
proof -
  have h: "head_nibble 1 x = push_bit 1 (take_bit 3 x)" "head_nibble 2 x = 1 OR push_bit 3 (x mod 2)" "head_nibble 3 x = 5 OR push_bit 3 (x mod 2)"
    by (simp_all add: head_nibble_def take_bit_or take_bit_push_bit del: push_bit_Suc One_nat_def)
  have y: "take_bit 3 x = 0 \<or> take_bit 3 x = 1 \<or> take_bit 3 x = 2 \<or> take_bit 3 x = 3 \<or> take_bit 3 x = 4 \<or> take_bit 3 x = 5 \<or>
      take_bit 3 x = 6 \<or> take_bit 3 x = 7" "x mod 2 = 0 \<or> x mod 2 = 1"
    using word_below_8 [of "take_bit 3 x"] unat_take [of 3 x] by (auto simp: mod_2_eq_odd)
  from assms consider "csz = 1" | "csz = 2 \<or> csz = 3" | "csz \<in> {4, 5, 8, 9}"
    by (auto simp: svw_fits_def)
  then show ?thesis
  proof cases
    case 1
    then show ?thesis
      using y(1) h(1) by (elim disjE) simp_all
  next
    case 2
    then show ?thesis
      using y(2) h(2,3) by (elim disjE) simp_all
  next
    case 3
    then show ?thesis
      by (auto simp: head_nibble_def)
  qed
qed

definition tail_nibble :: "nat \<Rightarrow> u64 \<Rightarrow> u64" where
  "tail_nibble csz x = (if csz = 1 then drop_bit 3 x else if csz = 2 then 8 OR drop_bit 9 x else if csz = 3 then 10 OR drop_bit 17 x
     else if csz = 4 then 12 else if csz = 5 then 13 else if csz = 8 then 14 else 15)"

lemma enc_tail:
  assumes "svw_fits csz x"
  shows "drop_bit 4 (ucast (fd_ulong_svw_enc_fixed csz x ! (csz - 1))) = tail_nibble csz x"
proof -
  have s: "unat x < 2 ^ j \<Longrightarrow> j \<le> 60 \<Longrightarrow> drop_bit m (push_bit 4 x) = (if m < 4 then drop_bit m (push_bit 4 x) else drop_bit (m - 4) x)"
      "unat x < 2 ^ j \<Longrightarrow> j \<le> 61 \<Longrightarrow> drop_bit m (push_bit 3 x) = (if m < 3 then drop_bit m (push_bit 3 x) else drop_bit (m - 3) x)" for j m
    using drop_push [of x j] by auto
  have t: "unat x < 1024 \<Longrightarrow> take_bit 4 (drop_bit 9 x) = drop_bit 9 x" "unat x < 262144 \<Longrightarrow> take_bit 4 (drop_bit 17 x) = drop_bit 17 x"
      "unat x < 64 \<Longrightarrow> take_bit 4 (drop_bit 3 x) = drop_bit 3 x" "unat x < 64 \<Longrightarrow> drop_bit 4 (x * 2) = drop_bit 3 x"
    using take_small [of "drop_bit 9 x" 1 4] unat_drop [of x 9 1] take_small [of "drop_bit 17 x" 1 4] unat_drop [of x 17 1]
      take_small [of "drop_bit 3 x" 3 4] unat_drop [of x 3 3] drop_push [of x 6 1 4] by simp_all
  show ?thesis
    using assms t by (auto simp: svw_fits_def svw_bits_def fd_ulong_svw_enc_fixed_def nth_FD_STORE nth_append byte_word drop_bit_take_bit take_bit_or
      s [of 10] s [of 24] s [of 56] drop_small [of x 24] drop_small [of x 32] drop_small [of x 56]
      tail_nibble_def)
qed

lemma tail_size:
  assumes "svw_fits csz x"
  shows "unat (drop_bit (unat (push_bit 2 (tail_nibble csz x))) (0x9854332211111111 :: u64) AND 15) = csz"
proof -
  from assms consider "csz = 1" "unat x < 2 ^ (3 + 3)" | "csz = 2" "unat x < 2 ^ (9 + 1)" | "csz = 3" "unat x < 2 ^ (17 + 1)" | "csz \<in> {4, 5, 8, 9}"
    by (auto simp: svw_fits_def svw_bits_def)
  then show ?thesis
  proof cases
    case 1
    then show ?thesis
      using word_below_8 [of "drop_bit 3 x"] unat_drop [OF 1(2)] by (auto simp: tail_nibble_def)
  next
    case 2
    then show ?thesis
      using word_below_2 [of "drop_bit 9 x"] unat_drop [OF 2(2)] by (auto simp: tail_nibble_def)
  next
    case 3
    then show ?thesis
      using word_below_2 [of "drop_bit 17 x"] unat_drop [OF 3(2)] by (auto simp: tail_nibble_def)
  next
    case 4
    then show ?thesis
      by (auto simp: tail_nibble_def)
  qed
qed

subsection \<open>Values\<close>

lemma length_enc_fixed: "svw_fits csz x \<Longrightarrow> length (fd_ulong_svw_enc_fixed csz x) = csz"
  by (auto simp: svw_fits_def fd_ulong_svw_enc_fixed_def)

lemma load_at:
  assumes "drop i b = FD_STORE n v @ r" "0 < n" "n \<le> 8"
  shows "fd_ulong_load n b i = Ok (take_bit (8 * n) v)"
proof -
  have "length b - i = n + length r"
    using arg_cong [OF assms(1), of length] by simp
  then have "i + n \<le> length b"
    using assms(2) by simp
  then show ?thesis
    using assms(1) load_FD_STORE [OF assms(3), of v] by (simp add: fd_ulong_load_def LOAD_def)
qed

lemma read_at:
  assumes "drop i b = xs @ c # r"
  shows "READ b (i + length xs) k = k c"
proof -
  have "length b - i = length xs + Suc (length r)"
    using arg_cong [OF assms, of length] by simp
  then have "i + length xs < length b"
    by simp
  moreover from this have "b ! (i + length xs) = drop i b ! length xs"
    by simp
  ultimately show ?thesis
    by (simp add: READ_def assms)
qed

lemma dec_fixed_1: "unat x < 2 ^ 6 \<Longrightarrow> drop_bit 1 (take_bit 8 (push_bit 1 x)) = (x :: u64)"
  using drop_push [of x 6 1 1] take_small [of x 6 7] by (simp add: drop_bit_take_bit)

lemma dec_fixed_2: "unat x < 2 ^ 10 \<Longrightarrow> take_bit 10 (drop_bit 3 (take_bit 16 (0x8001 OR push_bit 3 x))) = (x :: u64)"
  using drop_push [of x 10 3 3] take_small [of x 10 10] by (simp add: drop_bit_take_bit take_bit_or)

lemma dec_fixed_3:
  assumes "unat x < 2 ^ 18"
  shows "drop_bit 3 (take_bit 16 (0x5 OR push_bit 3 x)) OR push_bit 13 (take_bit 5 (take_bit 8 (0xa0 OR drop_bit 13 x))) = (x :: u64)"
  using drop_push [of x 18 3 3] take_small [of x 18 18] assms join_bits [of 13 x 5] by (simp add: drop_bit_take_bit take_bit_or)

lemma dec_fixed_4: "unat x < 2 ^ 24 \<Longrightarrow> take_bit 24 (drop_bit 4 (take_bit 32 (0xc0000003 OR push_bit 4 x))) = (x :: u64)"
  using drop_push [of x 24 4 4] take_small [of x 24 24] by (simp add: drop_bit_take_bit take_bit_or)

lemma dec_fixed_5:
  assumes "unat x < 2 ^ 32"
  shows "drop_bit 4 (take_bit 32 (0xb OR push_bit 4 x)) OR push_bit 28 (take_bit 4 (take_bit 8 (0xd0 OR drop_bit 28 x))) = (x :: u64)"
  using drop_push [of x 32 4 4] take_small [of x 32 32] assms join_bits [of 28 x 4] by (simp add: drop_bit_take_bit take_bit_or)

lemma dec_fixed_8: "unat x < 2 ^ 56 \<Longrightarrow> take_bit 56 (drop_bit 4 (take_bit 64 (0xe000000000000007 OR push_bit 4 x))) = (x :: u64)"
  using drop_push [of x 56 4 4] take_small [of x 56 56] by (simp add: drop_bit_take_bit take_bit_or)

lemma dec_fixed_9: "drop_bit 4 (take_bit 64 (0xf OR push_bit 4 x)) OR push_bit 60 (take_bit 8 (0xf0 OR drop_bit 60 x)) = (x :: u64)"
proof (rule bit_word_eqI)
  have c: "drop_bit 4 (take_bit 64 (0xf :: u64)) = 0" "push_bit 60 (take_bit 8 (0xf0 :: u64)) = 0"
    by simp_all
  fix n
  assume n: "n < LENGTH(64)"
  have "bit (drop_bit 4 (take_bit 64 (push_bit 4 x)) OR push_bit 60 (take_bit 8 (drop_bit 60 x))) n = bit x n"
    using n by (auto simp: bit_simps)
  then show "bit (drop_bit 4 (take_bit 64 (0xf OR push_bit 4 x)) OR push_bit 60 (take_bit 8 (0xf0 OR drop_bit 60 x))) n = bit x n"
    by (simp only: take_bit_or drop_bit_or push_bit_or c or.left_neutral)
qed

lemma dec_fixed_enc:
  assumes fits: "svw_fits csz x" and b: "drop i b = fd_ulong_svw_enc_fixed csz x @ r"
  shows "fd_ulong_svw_dec_fixed b i csz = Ok x"
proof -
  have one: "[ucast (push_bit 1 x)] = FD_STORE 1 (push_bit 1 x)"
    by simp
  note def = fd_ulong_svw_dec_fixed_def fd_ulong_svw_enc_fixed_def
  from fits consider "csz = 1" "unat x < 2 ^ 6" | "csz = 2" "unat x < 2 ^ 10" | "csz = 3" "unat x < 2 ^ 18" | "csz = 4" "unat x < 2 ^ 24"
    | "csz = 5" "unat x < 2 ^ 32" | "csz = 8" "unat x < 2 ^ 56" | "csz = 9"
    by (auto simp: svw_fits_def svw_bits_def)
  then show ?thesis
  proof cases
    case 1
    have "drop i b = FD_STORE 1 (push_bit 1 x) @ r"
      using b 1 by (simp add: def)
    from load_at [OF this] dec_fixed_1 [OF 1(2)] show ?thesis
      using 1(1) by (simp add: def)
  next
    case 2
    from load_at [of i b 2 _ r] dec_fixed_2 [OF 2(2)] show ?thesis
      using 2(1) b by (simp add: def and_take_bit)
  next
    case 3
    have b': "drop i b = FD_STORE 2 (0x5 OR push_bit 3 x) @ ucast (0xa0 OR drop_bit 13 x) # r"
      using b 3(1) by (simp add: def)
    have rd: "READ b (i + 2) k = k (ucast (0xa0 OR drop_bit 13 x))" for k :: "u8 \<Rightarrow> u64 res"
      using read_at [OF b'] by (simp only: length_FD_STORE)
    show ?thesis
      using load_at [OF b'] rd [simplified] dec_fixed_3 [OF 3(2)] 3(1) by (simp add: def and_take_bit byte_word)
  next
    case 4
    from load_at [of i b 4 _ r] dec_fixed_4 [OF 4(2)] show ?thesis
      using 4(1) b by (simp add: def and_take_bit)
  next
    case 5
    have b': "drop i b = FD_STORE 4 (0xb OR push_bit 4 x) @ ucast (0xd0 OR drop_bit 28 x) # r"
      using b 5(1) by (simp add: def)
    have rd: "READ b (i + 4) k = k (ucast (0xd0 OR drop_bit 28 x))" for k :: "u8 \<Rightarrow> u64 res"
      using read_at [OF b'] by (simp only: length_FD_STORE)
    show ?thesis
      using load_at [OF b'] rd [simplified] dec_fixed_5 [OF 5(2)] 5(1) by (simp add: def and_take_bit byte_word)
  next
    case 6
    from load_at [of i b 8 _ r] dec_fixed_8 [OF 6(2)] show ?thesis
      using 6(1) b by (simp add: def and_take_bit)
  next
    case 7
    have b': "drop i b = FD_STORE 8 (0xf OR push_bit 4 x) @ ucast (0xf0 OR drop_bit 60 x) # r"
      using b 7 by (simp add: def)
    have rd: "READ b (i + 8) k = k (ucast (0xf0 OR drop_bit 60 x))" for k :: "u8 \<Rightarrow> u64 res"
      using read_at [OF b'] by (simp only: length_FD_STORE)
    show ?thesis
      using load_at [OF b'] rd [simplified] dec_fixed_9 [of x] 7 by (simp add: def and_take_bit byte_word)
  qed
qed

lemma svw_enc_is_fixed:
  "fd_ulong_svw_enc x = fd_ulong_svw_enc_fixed (fd_ulong_svw_enc_sz x) x" "svw_fits (fd_ulong_svw_enc_sz x) x"
proof -
  show "fd_ulong_svw_enc x = fd_ulong_svw_enc_fixed (fd_ulong_svw_enc_sz x) x"
    by (simp add: fd_ulong_svw_enc_def fd_ulong_svw_enc_fixed_def fd_ulong_svw_enc_sz_def)
  show "svw_fits (fd_ulong_svw_enc_sz x) x"
    using unsigned_less [of x, where 'a = nat] by (simp add: svw_fits_def svw_bits_def fd_ulong_svw_enc_sz_def word_less_nat_alt)
qed

text \<open>
  C31. A 64-bit integer written in any size that holds it is read back exactly, with its size, both
  from its first byte forwards and from its last byte backwards, whatever bytes surround it; the
  variable width encoder writes the shortest such encoding.
\<close>

theorem fd_ulong_svw_roundtrip:
  assumes "svw_fits csz x"
  shows "fd_ulong_svw_dec (pre @ fd_ulong_svw_enc_fixed csz x @ suf) (length pre) = Ok (length pre + csz, x) \<and>
    fd_ulong_svw_dec_tail (pre @ fd_ulong_svw_enc_fixed csz x @ suf) (length pre + csz) = Ok (length pre, x) \<and>
    length (fd_ulong_svw_enc_fixed csz x) = csz \<and>
    svw_fits (fd_ulong_svw_enc_sz x) x \<and> fd_ulong_svw_enc_sz x \<le> csz \<and> fd_ulong_svw_enc x = fd_ulong_svw_enc_fixed (fd_ulong_svw_enc_sz x) x"
proof (intro conjI)
  let ?e = "fd_ulong_svw_enc_fixed csz x" and ?b = "pre @ fd_ulong_svw_enc_fixed csz x @ suf"
  have len: "length ?e = csz" "0 < csz"
    using assms length_enc_fixed by (auto simp: svw_fits_def)
  then show "length ?e = csz"
    by simp
  have d: "fd_ulong_svw_dec_fixed ?b (length pre) csz = Ok x"
    by (rule dec_fixed_enc [OF assms]) simp
  have "(?e @ suf) ! 0 = ?e ! 0" "(?e @ suf) ! (csz - 1) = ?e ! (csz - 1)"
    using len by (simp_all add: nth_append)
  moreover have "length pre + csz - 1 = length pre + (csz - 1)"
    using len(2) by simp
  ultimately have e: "?b ! length pre = ?e ! 0" "?b ! (length pre + csz - 1) = ?e ! (csz - 1)"
    using nth_append_length_plus [of pre "?e @ suf" 0] by (simp_all only: nth_append_length_plus add_0_right)
  show "fd_ulong_svw_dec ?b (length pre) = Ok (length pre + csz, x)"
    using len d head_size [OF assms] unfolding fd_ulong_svw_dec_def fd_ulong_svw_dec_sz_def READ_def e(1) enc_head [OF assms] by simp
  show "fd_ulong_svw_dec_tail ?b (length pre + csz) = Ok (length pre, x)"
    using len d tail_size [OF assms] unfolding fd_ulong_svw_dec_tail_def fd_ulong_svw_dec_tail_sz_def READ_def e(2) enc_tail [OF assms] by simp
  show "fd_ulong_svw_enc_sz x \<le> csz"
    using assms by (auto simp: svw_fits_def svw_bits_def fd_ulong_svw_enc_sz_def word_less_nat_alt)
qed (simp_all add: svw_enc_is_fixed)

theorem fd_ulong_svw_roundtrip_witness:
  "svw_fits 3 1000 \<and> fd_ulong_svw_dec ([7] @ fd_ulong_svw_enc_fixed 3 1000 @ [9]) 1 = Ok (4, 1000)"
proof -
  have "svw_fits 3 1000"
    by (simp add: svw_fits_def svw_bits_def)
  then show ?thesis
    using fd_ulong_svw_roundtrip [of 3 1000 "[7]" "[9]"] by simp
qed

end
