(* ===== verification/Uwide.thy ===== *)
theory Uwide
  imports Bits_Pow2
begin

text \<open>
  The 128-bit arithmetic of \<open>src/src/util/bits/fd_uwide.h\<close>: a wide number is a pair \<open>(h, l)\<close> of 64-bit words, its
  value \<open>h 2^64 + l\<close>.  The functions that write a wide number and return a flag are modelled by functions
  that return the flag and the two words.
\<close>

definition wide :: "u64 \<Rightarrow> u64 \<Rightarrow> nat" where
  "wide h l = unat h * 2 ^ 64 + unat l"

definition of_flag :: "bool \<Rightarrow> u64" where
  "of_flag c = (if c then 1 else 0)"

subsection \<open>Addition and subtraction\<close>

definition fd_uwide_add :: "u64 \<Rightarrow> u64 \<Rightarrow> u64 \<Rightarrow> u64 \<Rightarrow> u64 \<Rightarrow> u64 \<times> u64 \<times> u64" where
  "fd_uwide_add xh xl yh yl ci =
     (let zh = xh; zl = xl;
          zl = zl + ci; ct = of_flag (zl < ci);
          zl = zl + yl; ct = ct + of_flag (zl < yl);
          zh = zh + ct; co = of_flag (zh < ct);
          zh = zh + yh; co = co + of_flag (zh < yh)
      in (co, zh, zl))"

definition fd_uwide_inc :: "u64 \<Rightarrow> u64 \<Rightarrow> u64 \<Rightarrow> u64 \<times> u64" where
  "fd_uwide_inc xh xl y = (let zl = xl + y; zh = xh + of_flag (zl < xl) in (zh, zl))"

definition fd_uwide_sub :: "u64 \<Rightarrow> u64 \<Rightarrow> u64 \<Rightarrow> u64 \<Rightarrow> u64 \<Rightarrow> u64 \<times> u64 \<times> u64" where
  "fd_uwide_sub xh xl yh yl bi =
     (let zh = xh; zl = xl;
          bt = of_flag (zl < bi); zl = zl - bi;
          bt = bt + of_flag (zl < yl); zl = zl - yl;
          bo = of_flag (zh < bt); zh = zh - bt;
          bo = bo + of_flag (zh < yh); zh = zh - yh
      in (bo, zh, zl))"

definition fd_uwide_dec :: "u64 \<Rightarrow> u64 \<Rightarrow> u64 \<Rightarrow> u64 \<times> u64" where
  "fd_uwide_dec xh xl y = (let zh = xh - of_flag (y > xl); zl = xl - y in (zh, zl))"

text \<open>A flag counts the multiples of \<open>2^64\<close> that an operation on words loses.\<close>

lemma unat_flag: "unat (of_flag c) = (if c then 1 else 0)"
  by (simp add: of_flag_def)

lemma unat_u64_less: "unat (x :: u64) < 18446744073709551616"
  using unsigned_less [of x, where 'a = nat] by simp

lemma add_carry: "unat (a + b) + 18446744073709551616 * unat (of_flag (a + b < b)) = unat a + unat b" for a b :: u64
proof (cases "unat a + unat b < 18446744073709551616")
  case True
  then show ?thesis
    using unat_u64_less [of b] by (simp add: unat_flag unat_word_ariths word_less_nat_alt)
next
  case False
  moreover have "unat a + unat b - 18446744073709551616 < 18446744073709551616"
    using unat_u64_less [of a] unat_u64_less [of b] by linarith
  ultimately have "unat (a + b) = unat a + unat b - 18446744073709551616"
    by (simp add: unat_word_ariths le_mod_geq)
  moreover from this have "unat (a + b) < unat b"
    using False unat_u64_less [of a] by linarith
  ultimately show ?thesis
    using False by (simp add: unat_flag word_less_nat_alt)
qed

lemma add_carry': "unat (a + b) + 18446744073709551616 * unat (of_flag (a + b < a)) = unat a + unat b" for a b :: u64
  using add_carry [of b a] by (simp add: add.commute)

lemma sub_borrow: "unat (a - b) + unat b = unat a + 18446744073709551616 * unat (of_flag (a < b))" for a b :: u64
  using add_carry [of "a - b" b] by simp

lemma flag_sum: "unat (of_flag a + of_flag b) = unat (of_flag a) + unat (of_flag b)"
  by (simp add: of_flag_def)

lemma fd_uwide_add_wide:
  "case fd_uwide_add xh xl yh yl ci of (co, zh, zl) \<Rightarrow> unat co * 2 ^ 128 + wide zh zl = wide xh xl + wide yh yl + unat ci"
proof -
  let ?l1 = "xl + ci"
  let ?l2 = "?l1 + yl"
  let ?ct = "of_flag (?l1 < ci) + of_flag (?l2 < yl)"
  let ?h1 = "xh + ?ct"
  let ?h2 = "?h1 + yh"
  have "unat ?l2 + 18446744073709551616 * unat ?ct = unat xl + unat ci + unat yl"
    using add_carry [of xl ci] add_carry [of ?l1 yl] flag_sum [of "?l1 < ci" "?l2 < yl"] by linarith
  moreover have "unat ?h2 + 18446744073709551616 * unat (of_flag (?h1 < ?ct) + of_flag (?h2 < yh)) = unat xh + unat ?ct + unat yh"
    using add_carry [of xh ?ct] add_carry [of ?h1 yh] flag_sum [of "?h1 < ?ct" "?h2 < yh"] by linarith
  ultimately show ?thesis
    by (simp add: fd_uwide_add_def Let_def wide_def)
qed

lemma fd_uwide_sub_wide:
  "case fd_uwide_sub xh xl yh yl bi of (bo, zh, zl) \<Rightarrow> wide zh zl + wide yh yl + unat bi = unat bo * 2 ^ 128 + wide xh xl"
proof -
  let ?l1 = "xl - bi"
  let ?l2 = "?l1 - yl"
  let ?bt = "of_flag (xl < bi) + of_flag (?l1 < yl)"
  let ?h1 = "xh - ?bt"
  let ?h2 = "?h1 - yh"
  have "unat ?l2 + unat yl + unat bi = unat xl + 18446744073709551616 * unat ?bt"
    using sub_borrow [of xl bi] sub_borrow [of ?l1 yl] flag_sum [of "xl < bi" "?l1 < yl"] by linarith
  moreover have "unat ?h2 + unat yh + unat ?bt = unat xh + 18446744073709551616 * unat (of_flag (xh < ?bt) + of_flag (?h1 < yh))"
    using sub_borrow [of xh ?bt] sub_borrow [of ?h1 yh] flag_sum [of "xh < ?bt" "?h1 < yh"] by linarith
  ultimately show ?thesis
    by (simp add: fd_uwide_sub_def Let_def wide_def)
qed

lemma wide_less: "wide h l < 2 ^ 128"
  using unat_u64_less [of h] unat_u64_less [of l] by (simp add: wide_def)

text \<open>
  C37. Addition and subtraction of 128-bit numbers are exact with any carry or borrow in and out,
  and increment and decrement are exact modulo 2^128.
\<close>

theorem fd_uwide_add_sub_exact:
  "(case fd_uwide_add xh xl yh yl ci of (co, zh, zl) \<Rightarrow> unat co * 2 ^ 128 + wide zh zl = wide xh xl + wide yh yl + unat ci) \<and>
   (case fd_uwide_sub xh xl yh yl bi of (bo, zh, zl) \<Rightarrow> int (wide zh zl) = int (unat bo) * 2 ^ 128 + int (wide xh xl) - int (wide yh yl) - int (unat bi)) \<and>
   (case fd_uwide_inc xh xl y of (zh, zl) \<Rightarrow> wide zh zl = (wide xh xl + unat y) mod 2 ^ 128) \<and>
   (case fd_uwide_dec xh xl y of (zh, zl) \<Rightarrow> int (wide zh zl) = (int (wide xh xl) - int (unat y)) mod 2 ^ 128)"
proof (intro conjI)
  show "case fd_uwide_sub xh xl yh yl bi of (bo, zh, zl) \<Rightarrow>
      int (wide zh zl) = int (unat bo) * 2 ^ 128 + int (wide xh xl) - int (wide yh yl) - int (unat bi)"
  proof -
    obtain bo zh zl where s: "fd_uwide_sub xh xl yh yl bi = (bo, zh, zl)"
      by (cases "fd_uwide_sub xh xl yh yl bi")
    have "wide zh zl + wide yh yl + unat bi = unat bo * 2 ^ 128 + wide xh xl"
      using fd_uwide_sub_wide [where xh = xh and xl = xl and yh = yh and yl = yl and bi = bi] by (simp only: s prod.case)
    from arg_cong [OF this, of int] show ?thesis
      unfolding s prod.case of_nat_add of_nat_mult of_nat_power of_nat_numeral by linarith
  qed
  have "wide (xh + of_flag (xl + y < xl)) (xl + y) + 2 ^ 128 * unat (of_flag (xh + of_flag (xl + y < xl) < xh)) = wide xh xl + unat y"
    using add_carry' [of xl y] add_carry' [of xh "of_flag (xl + y < xl)"] by (simp add: wide_def)
  then have "wide (xh + of_flag (xl + y < xl)) (xl + y) = (wide xh xl + unat y) mod 2 ^ 128"
    using wide_less by (metis mod_less mod_mult_self2)
  then show "case fd_uwide_inc xh xl y of (zh, zl) \<Rightarrow> wide zh zl = (wide xh xl + unat y) mod 2 ^ 128"
    by (simp add: fd_uwide_inc_def Let_def)
  have "wide (xh - of_flag (xl < y)) (xl - y) + unat y = wide xh xl + 2 ^ 128 * unat (of_flag (xh < of_flag (xl < y)))"
    using sub_borrow [of xl y] sub_borrow [of xh "of_flag (xl < y)"] by (simp add: wide_def)
  from arg_cong [OF this, of int]
  have "int (wide xh xl) - int (unat y) = int (wide (xh - of_flag (xl < y)) (xl - y)) + 2 ^ 128 * (- int (unat (of_flag (xh < of_flag (xl < y)))))"
    unfolding of_nat_add of_nat_mult of_nat_power of_nat_numeral by linarith
  then have "(int (wide xh xl) - int (unat y)) mod 2 ^ 128 = int (wide (xh - of_flag (xl < y)) (xl - y)) mod 2 ^ 128"
    by (simp only: mod_mult_self2)
  then show "case fd_uwide_dec xh xl y of (zh, zl) \<Rightarrow> int (wide zh zl) = (int (wide xh xl) - int (unat y)) mod 2 ^ 128"
    using wide_less [of "xh - of_flag (xl < y)" "xl - y"] by (simp add: fd_uwide_dec_def Let_def)
qed (rule fd_uwide_add_wide)

subsection \<open>Multiplication\<close>

text \<open>With 128-bit integers, and the portable version from four 32-bit products.\<close>

definition fd_uwide_mul :: "u64 \<Rightarrow> u64 \<Rightarrow> u64 \<times> u64" where
  "fd_uwide_mul x y = (let res = (ucast x :: 128 word) * ucast y in (ucast (drop_bit 64 res), ucast res))"

definition fd_uwide_mul_portable :: "u64 \<Rightarrow> u64 \<Rightarrow> u64 \<times> u64" where
  "fd_uwide_mul_portable x y =
     (let x1 = drop_bit 32 x; x0 = ucast (ucast x :: u32);
          y1 = drop_bit 32 y; y0 = ucast (ucast y :: u32);
          w0 = x0 * y0; w1 = x0 * y1;
          w2 = x1 * y0; w3 = x1 * y1;
          w1h = drop_bit 32 w1; w1l = ucast (ucast w1 :: u32);
          w2h = drop_bit 32 w2; w2l = ucast (ucast w2 :: u32);
          zh = w1h + w2h + w3;
          t0 = w0 + push_bit 32 w1l; zh = zh + of_flag (t0 < w0);
          zl = t0 + push_bit 32 w2l; zh = zh + of_flag (zl < t0)
      in (zh, zl))"

lemma unat_high: "unat (drop_bit k (x :: u64)) = unat x div 2 ^ k"
  using unsigned_less [of x, where 'a = nat] by (subst unsigned_drop_bit_eq) (simp add: drop_bit_eq_div take_bit_nat_eq_self)

lemma unat_low32: "unat (ucast (ucast (x :: u64) :: u32) :: u64) = unat x mod 4294967296"
  by (subst unat_ucast_widen) (simp_all add: unsigned_ucast_eq take_bit_eq_mod)

lemma unat_mul_exact: "unat x * unat y < 18446744073709551616 \<Longrightarrow> unat (x * y :: u64) = unat x * unat y"
  by (simp add: unat_word_ariths)

lemma unat_add_exact: "unat x + unat y < 18446744073709551616 \<Longrightarrow> unat (x + y :: u64) = unat x + unat y"
  by (simp add: unat_word_ariths)

lemma unat_push_exact: "unat x * 2 ^ k < 18446744073709551616 \<Longrightarrow> unat (push_bit k x :: u64) = unat x * 2 ^ k"
  by (subst unsigned_push_bit_eq) (simp add: push_bit_eq_mult take_bit_nat_eq_self)

lemma fd_uwide_mul_wide: "case fd_uwide_mul x y of (zh, zl) \<Rightarrow> wide zh zl = unat x * unat y"
proof -
  let ?r = "(ucast x :: 128 word) * ucast y"
  have "unat x * unat y < 18446744073709551616 * 18446744073709551616"
    by (rule mult_strict_mono') (simp_all add: unat_u64_less)
  then have r: "unat ?r = unat x * unat y"
    by (simp add: unat_word_ariths unat_ucast_widen)
  have "unat (drop_bit 64 ?r) = unat ?r div 2 ^ 64"
    using unsigned_less [of ?r, where 'a = nat] by (subst unsigned_drop_bit_eq) (simp add: drop_bit_eq_div take_bit_nat_eq_self)
  moreover have "unat ?r div 2 ^ 64 < 2 ^ 64"
    using unsigned_less [of ?r, where 'a = nat] by (simp add: less_mult_imp_div_less)
  ultimately have "unat (ucast (drop_bit 64 ?r) :: u64) = unat ?r div 2 ^ 64"
    by (simp add: unsigned_ucast_eq take_bit_nat_eq_self)
  moreover have "unat (ucast ?r :: u64) = unat ?r mod 2 ^ 64"
    by (simp add: unsigned_ucast_eq take_bit_eq_mod)
  ultimately show ?thesis
    by (simp add: fd_uwide_mul_def Let_def wide_def r)
qed

lemma unat_mul_32: "unat x < 4294967296 \<Longrightarrow> unat y < 4294967296 \<Longrightarrow> unat (x * y :: u64) = unat x * unat y"
proof (rule unat_mul_exact)
  assume "unat x < 4294967296" "unat y < 4294967296"
  then have "unat x * unat y < 4294967296 * 4294967296"
    by (intro mult_strict_mono') simp_all
  then show "unat x * unat y < 18446744073709551616"
    by simp
qed

lemma mul_halves:
  fixes X Y :: nat
  shows "X * Y = (X div B) * (Y div B) * (B * B) + ((X mod B) * (Y div B) + (X div B) * (Y mod B)) * B + (X mod B) * (Y mod B)"
proof -
  have "X * Y = (X div B * B + X mod B) * (Y div B * B + Y mod B)"
    by simp
  then show ?thesis
    by (simp only: algebra_simps)
qed

lemma fd_uwide_mul_portable_wide: "case fd_uwide_mul_portable x y of (zh, zl) \<Rightarrow> wide zh zl = unat x * unat y"
proof -
  define x1 x0 y1 y0 :: u64 where "x1 = drop_bit 32 x" and "x0 = ucast (ucast x :: u32)" and "y1 = drop_bit 32 y" and "y0 = ucast (ucast y :: u32)"
  define w0 w1 w2 w3 where "w0 = x0 * y0" and "w1 = x0 * y1" and "w2 = x1 * y0" and "w3 = x1 * y1"
  define w1h w1l w2h w2l :: u64 where "w1h = drop_bit 32 w1" and "w1l = ucast (ucast w1 :: u32)" and "w2h = drop_bit 32 w2" and "w2l = ucast (ucast w2 :: u32)"
  define t0 zl where "t0 = w0 + push_bit 32 w1l" and "zl = t0 + push_bit 32 w2l"
  have d: "unat x1 = unat x div 4294967296" "unat x0 = unat x mod 4294967296" "unat y1 = unat y div 4294967296" "unat y0 = unat y mod 4294967296"
      "unat w1h = unat w1 div 4294967296" "unat w1l = unat w1 mod 4294967296" "unat w2h = unat w2 div 4294967296" "unat w2l = unat w2 mod 4294967296"
    by (simp_all add: x1_def x0_def y1_def y0_def w1h_def w1l_def w2h_def w2l_def unat_high unat_low32)
  have s: "unat x1 < 4294967296" "unat x0 < 4294967296" "unat y1 < 4294967296" "unat y0 < 4294967296" "unat w1l < 4294967296" "unat w2l < 4294967296"
    using unat_u64_less [of x] unat_u64_less [of y] by (simp_all add: d less_mult_imp_div_less)
  have w: "unat w0 = unat x0 * unat y0" "unat w1 = unat x0 * unat y1" "unat w2 = unat x1 * unat y0" "unat w3 = unat x1 * unat y1"
    by (simp_all only: w0_def w1_def w2_def w3_def unat_mul_32 s)
  have p: "unat (push_bit 32 w1l) = unat w1l * 4294967296" "unat (push_bit 32 w2l) = unat w2l * 4294967296"
    using unat_push_exact [of w1l 32] unat_push_exact [of w2l 32] s(5,6) by simp_all
  let ?S = "unat w1h + unat w2h + unat w3 + unat (of_flag (t0 < w0)) + unat (of_flag (zl < t0))"
  have carry: "unat zl + 18446744073709551616 * (unat (of_flag (t0 < w0)) + unat (of_flag (zl < t0))) =
      unat w0 + unat w1l * 4294967296 + unat w2l * 4294967296"
    using add_carry' [of w0 "push_bit 32 w1l", folded t0_def] add_carry' [of t0 "push_bit 32 w2l", folded zl_def] unfolding p distrib_left by linarith
  have "unat w1 = unat w1h * 4294967296 + unat w1l" "unat w2 = unat w2h * 4294967296 + unat w2l"
    by (simp_all add: d(5-8))
  moreover have "unat x * unat y = unat w3 * 18446744073709551616 + (unat w1 + unat w2) * 4294967296 + unat w0"
    using mul_halves [of "unat x" "unat y" 4294967296] by (simp add: w d(1-4))
  ultimately have total: "?S * 18446744073709551616 + unat zl = unat x * unat y"
    using carry unfolding distrib_left distrib_right by linarith
  have "unat x * unat y < 18446744073709551616 * 18446744073709551616"
    by (rule mult_strict_mono') (simp_all add: unat_u64_less)
  then have "?S < 18446744073709551616"
    using total unfolding distrib_right by linarith
  then have "unat (w1h + w2h + w3 + of_flag (t0 < w0) + of_flag (zl < t0)) = ?S"
    using unat_add_exact [of w1h w2h] unat_add_exact [of "w1h + w2h" w3] unat_add_exact [of "w1h + w2h + w3" "of_flag (t0 < w0)"]
      unat_add_exact [of "w1h + w2h + w3 + of_flag (t0 < w0)" "of_flag (zl < t0)"] by linarith
  moreover have "fd_uwide_mul_portable x y = (w1h + w2h + w3 + of_flag (t0 < w0) + of_flag (zl < t0), zl)"
    by (simp only: fd_uwide_mul_portable_def Let_def x1_def x0_def y1_def y0_def w0_def w1_def w2_def w3_def w1h_def w1l_def w2h_def w2l_def t0_def zl_def)
  ultimately show ?thesis
    using total by (simp add: wide_def)
qed

lemma wide_parts: "wide h l div 2 ^ 64 = unat h" "wide h l mod 2 ^ 64 = unat l"
  using unat_u64_less [of l] by (simp_all add: wide_def)

lemma wide_inj: "wide h l = wide h' l' \<longleftrightarrow> h = h' \<and> l = l'"
  using wide_parts [of h l] wide_parts [of h' l'] by (metis unsigned_word_eqI)

text \<open>
  C36. The product of two 64-bit words is exact, and the portable version from four 32-bit products
  equals the one with 128-bit integers.
\<close>

theorem fd_uwide_mul_exact:
  "(case fd_uwide_mul x y of (zh, zl) \<Rightarrow> wide zh zl = unat x * unat y) \<and> fd_uwide_mul_portable x y = fd_uwide_mul x y"
proof -
  obtain h l h' l' where "fd_uwide_mul x y = (h, l)" "fd_uwide_mul_portable x y = (h', l')"
    by (cases "fd_uwide_mul x y", cases "fd_uwide_mul_portable x y")
  then show ?thesis
    using fd_uwide_mul_wide [where x = x and y = y] fd_uwide_mul_portable_wide [where x = x and y = y] by (simp add: wide_inj [symmetric])
qed

end
