(* ===== verification/Bits_Find.thy ===== *)
theory Bits_Find
  imports Bits_Pow2
begin

text \<open>
  The bit scans of \<open>src/src/util/bits/fd_bits_find_msb.h\<close> and \<open>src/src/util/bits/fd_bits_find_lsb.h\<close> in their portable variants, over
  the compiler builtins: \<open>clz\<close> counts the leading zeros of a nonzero word, and \<open>ffs\<close> is one more than the
  index of the lowest set bit, or zero.
\<close>

definition builtin_clz :: "'a :: len word \<Rightarrow> nat" where
  "builtin_clz x = length (takeWhile (\<lambda>i. \<not> bit x (LENGTH('a) - 1 - i)) [0..<LENGTH('a)])"

definition builtin_ffs :: "'a :: len word \<Rightarrow> nat" where
  "builtin_ffs x = (if x = 0 then 0 else length (takeWhile (\<lambda>i. \<not> bit x i) [0..<LENGTH('a)]) + 1)"

definition fd_uchar_find_msb :: "u8 \<Rightarrow> nat" where
  "fd_uchar_find_msb x = 31 - builtin_clz (ucast x :: u32)"

definition fd_ushort_find_msb :: "u16 \<Rightarrow> nat" where
  "fd_ushort_find_msb x = 31 - builtin_clz (ucast x :: u32)"

definition fd_uint_find_msb :: "u32 \<Rightarrow> nat" where
  "fd_uint_find_msb x = 31 - builtin_clz x"

definition fd_ulong_find_msb :: "u64 \<Rightarrow> nat" where
  "fd_ulong_find_msb x = 63 - builtin_clz x"

definition fd_uint128_find_msb :: "128 word \<Rightarrow> nat" where
  "fd_uint128_find_msb x =
     (let xl = ucast x :: u64; xh = ucast (drop_bit 64 x) :: u64; c = (if xh = 0 then 1 else 0)
      in (127 - c * 2 ^ 6) - builtin_clz (fd_T_if (c \<noteq> 0) xl xh))"

definition fd_ulong_find_msb_w_default :: "u64 \<Rightarrow> int \<Rightarrow> int" where
  "fd_ulong_find_msb_w_default x d = (if x = 0 then d else int (fd_ulong_find_msb x))"

definition fd_uchar_find_lsb :: "u8 \<Rightarrow> nat" where
  "fd_uchar_find_lsb x = builtin_ffs (ucast x :: u32) - 1"

definition fd_ushort_find_lsb :: "u16 \<Rightarrow> nat" where
  "fd_ushort_find_lsb x = builtin_ffs (ucast x :: u32) - 1"

definition fd_uint_find_lsb :: "u32 \<Rightarrow> nat" where
  "fd_uint_find_lsb x = builtin_ffs x - 1"

definition fd_ulong_find_lsb :: "u64 \<Rightarrow> nat" where
  "fd_ulong_find_lsb x = builtin_ffs x - 1"

definition fd_uint128_find_lsb :: "128 word \<Rightarrow> nat" where
  "fd_uint128_find_lsb x =
     (let xl = ucast x :: u64; xh = ucast (drop_bit 64 x) :: u64; c = (if xl = 0 then 1 else 0)
      in c * 2 ^ 6 + builtin_ffs (fd_T_if (c \<noteq> 0) xh xl) - 1)"

definition is_msb :: "'a :: len word \<Rightarrow> nat \<Rightarrow> bool" where
  "is_msb x m \<longleftrightarrow> bit x m \<and> (\<forall>j > m. \<not> bit x j)"

definition is_lsb :: "'a :: len word \<Rightarrow> nat \<Rightarrow> bool" where
  "is_lsb x m \<longleftrightarrow> bit x m \<and> (\<forall>j < m. \<not> bit x j)"

lemma is_msb_exists: "x \<noteq> 0 \<Longrightarrow> \<exists>m. is_msb x m"
  using word_msb_exists [of x] by (auto simp: is_msb_def)

lemma is_lsb_exists: "x \<noteq> 0 \<Longrightarrow> \<exists>m. is_lsb x m" for x :: "'a :: len word"
proof -
  assume "x \<noteq> 0"
  then obtain n where "bit x n"
    using bit_word_eqI [of x 0] by auto
  then show ?thesis
    using exists_least_iff [of "bit x"] by (auto simp: is_lsb_def)
qed

lemma is_msb_unique: "is_msb x m \<Longrightarrow> is_msb x m' \<Longrightarrow> m = m'"
  unfolding is_msb_def by (metis linorder_neqE_nat)

lemma is_lsb_unique: "is_lsb x m \<Longrightarrow> is_lsb x m' \<Longrightarrow> m = m'"
  unfolding is_lsb_def by (metis linorder_neqE_nat)

lemma clz_msb:
  assumes "is_msb (x :: 'a :: len word) m"
  shows "builtin_clz x = LENGTH('a) - 1 - m" "m < LENGTH('a)"
proof -
  show m: "m < LENGTH('a)"
    using assms bit_imp_le_length by (auto simp: is_msb_def)
  have "takeWhile (\<lambda>i. \<not> bit x (LENGTH('a) - 1 - i)) [0..<LENGTH('a)] = take (LENGTH('a) - 1 - m) [0..<LENGTH('a)]"
    using assms m by (intro takeWhile_eq_take_P_nth) (auto simp: is_msb_def)
  then show "builtin_clz x = LENGTH('a) - 1 - m"
    by (simp add: builtin_clz_def)
qed

lemma ffs_lsb:
  assumes "is_lsb (x :: 'a :: len word) m"
  shows "builtin_ffs x = m + 1"
proof -
  have m: "m < LENGTH('a)" "x \<noteq> 0"
    using assms bit_imp_le_length by (auto simp: is_lsb_def)
  have "takeWhile (\<lambda>i. \<not> bit x i) [0..<LENGTH('a)] = take m [0..<LENGTH('a)]"
    using assms m by (intro takeWhile_eq_take_P_nth) (auto simp: is_lsb_def)
  then show ?thesis
    using m by (simp add: builtin_ffs_def)
qed

lemma is_msb_widen: "LENGTH('a) \<le> LENGTH('b) \<Longrightarrow> is_msb (ucast (x :: 'a :: len word) :: 'b :: len word) m \<longleftrightarrow> is_msb x m"
  using bit_imp_le_length [of x] by (fastforce simp: is_msb_def bit_simps)

lemma is_lsb_widen: "LENGTH('a) \<le> LENGTH('b) \<Longrightarrow> is_lsb (ucast (x :: 'a :: len word) :: 'b :: len word) m \<longleftrightarrow> is_lsb x m"
  using bit_imp_le_length [of x] by (fastforce simp: is_lsb_def bit_simps)

lemma find_msb_is_msb:
  "x8 \<noteq> 0 \<Longrightarrow> is_msb x8 (fd_uchar_find_msb x8)" "x16 \<noteq> 0 \<Longrightarrow> is_msb x16 (fd_ushort_find_msb x16)"
  "x32 \<noteq> 0 \<Longrightarrow> is_msb x32 (fd_uint_find_msb x32)" "x64 \<noteq> 0 \<Longrightarrow> is_msb x64 (fd_ulong_find_msb x64)"
proof -
  have *: "is_msb x m \<Longrightarrow> is_msb x (LENGTH('a) - 1 - builtin_clz x)" for x :: "'a :: len word" and m
    using clz_msb [of x m] by simp
  show "x8 \<noteq> 0 \<Longrightarrow> is_msb x8 (fd_uchar_find_msb x8)" "x16 \<noteq> 0 \<Longrightarrow> is_msb x16 (fd_ushort_find_msb x16)"
    using *[of "ucast x8 :: u32"] *[of "ucast x16 :: u32"] is_msb_exists [of x8] is_msb_exists [of x16]
    by (auto simp: fd_uchar_find_msb_def fd_ushort_find_msb_def is_msb_widen)
  show "x32 \<noteq> 0 \<Longrightarrow> is_msb x32 (fd_uint_find_msb x32)" "x64 \<noteq> 0 \<Longrightarrow> is_msb x64 (fd_ulong_find_msb x64)"
    using *[of x32] *[of x64] is_msb_exists [of x32] is_msb_exists [of x64] by (auto simp: fd_uint_find_msb_def fd_ulong_find_msb_def)
qed

lemma find_lsb_is_lsb:
  "x8 \<noteq> 0 \<Longrightarrow> is_lsb x8 (fd_uchar_find_lsb x8)" "x16 \<noteq> 0 \<Longrightarrow> is_lsb x16 (fd_ushort_find_lsb x16)"
  "x32 \<noteq> 0 \<Longrightarrow> is_lsb x32 (fd_uint_find_lsb x32)" "x64 \<noteq> 0 \<Longrightarrow> is_lsb x64 (fd_ulong_find_lsb x64)"
proof -
  have *: "is_lsb x m \<Longrightarrow> is_lsb x (builtin_ffs x - 1)" for x :: "'a :: len word" and m
    using ffs_lsb [of x m] by simp
  show "x8 \<noteq> 0 \<Longrightarrow> is_lsb x8 (fd_uchar_find_lsb x8)" "x16 \<noteq> 0 \<Longrightarrow> is_lsb x16 (fd_ushort_find_lsb x16)"
    using *[of "ucast x8 :: u32"] *[of "ucast x16 :: u32"] is_lsb_exists [of x8] is_lsb_exists [of x16]
    by (auto simp: fd_uchar_find_lsb_def fd_ushort_find_lsb_def is_lsb_widen)
  show "x32 \<noteq> 0 \<Longrightarrow> is_lsb x32 (fd_uint_find_lsb x32)" "x64 \<noteq> 0 \<Longrightarrow> is_lsb x64 (fd_ulong_find_lsb x64)"
    using *[of x32] *[of x64] is_lsb_exists [of x32] is_lsb_exists [of x64] by (auto simp: fd_uint_find_lsb_def fd_ulong_find_lsb_def)
qed

lemma bit_halves:
  fixes x :: "128 word"
  shows "bit (ucast x :: u64) i \<longleftrightarrow> i < 64 \<and> bit x i" "bit (ucast (drop_bit 64 x) :: u64) i \<longleftrightarrow> i < 64 \<and> bit x (i + 64)"
  by (auto simp: bit_simps add.commute)

lemma halves_zero:
  fixes x :: "128 word"
  shows "(ucast x :: u64) = 0 \<longleftrightarrow> (\<forall>i < 64. \<not> bit x i)" "(ucast (drop_bit 64 x) :: u64) = 0 \<longleftrightarrow> (\<forall>i \<ge> 64. \<not> bit x i)"
proof -
  have z: "w = 0 \<longleftrightarrow> (\<forall>i. \<not> bit w i)" for w :: u64
    using bit_word_eqI [of w 0] by auto
  show "(ucast x :: u64) = 0 \<longleftrightarrow> (\<forall>i < 64. \<not> bit x i)"
    unfolding z bit_halves by auto
  show "(ucast (drop_bit 64 x) :: u64) = 0 \<longleftrightarrow> (\<forall>i \<ge> 64. \<not> bit x i)"
  proof -
    have "(\<forall>i. \<not> (i < 64 \<and> bit x (i + 64))) \<longleftrightarrow> (\<forall>i \<ge> 64. \<not> bit x i)"
      using bit_imp_le_length [of x] by (auto dest!: le_Suc_ex) (metis add.commute add_less_cancel_left le_add_diff_inverse len_num0 numeral_Bit0)
    then show ?thesis
      unfolding z bit_halves(2) .
  qed
qed

lemma find_msb_128: "x \<noteq> 0 \<Longrightarrow> is_msb x (fd_uint128_find_msb x)"
proof -
  assume "x \<noteq> 0"
  then obtain m where m: "is_msb x m"
    using is_msb_exists by blast
  then have len: "m < 128"
    using clz_msb(2) [of x m] by simp
  show ?thesis
  proof (cases "m < 64")
    case True
    then have "is_msb (ucast x :: u64) m" "(ucast (drop_bit 64 x) :: u64) = 0"
      using m unfolding is_msb_def halves_zero(2) bit_halves(1) by auto
    then show ?thesis
      using m clz_msb(1) [of "ucast x :: u64" m] True by (simp add: fd_uint128_find_msb_def Let_def fd_T_if_def)
  next
    case False
    then have "is_msb (ucast (drop_bit 64 x) :: u64) (m - 64)" "(ucast (drop_bit 64 x) :: u64) \<noteq> 0"
      using m len unfolding is_msb_def halves_zero(2) bit_halves(2) by (auto intro: exI [of _ m])
    then show ?thesis
      using m len clz_msb(1) [of "ucast (drop_bit 64 x) :: u64" "m - 64"] False by (simp add: fd_uint128_find_msb_def Let_def fd_T_if_def)
  qed
qed

lemma find_lsb_128: "x \<noteq> 0 \<Longrightarrow> is_lsb x (fd_uint128_find_lsb x)"
proof -
  assume "x \<noteq> 0"
  then obtain m where m: "is_lsb x m"
    using is_lsb_exists by blast
  then have len: "m < 128"
    using bit_imp_le_length [of x m] by (simp add: is_lsb_def)
  show ?thesis
  proof (cases "m < 64")
    case True
    then have "is_lsb (ucast x :: u64) m" "(ucast x :: u64) \<noteq> 0"
      using m unfolding is_lsb_def halves_zero(1) bit_halves(1) by auto
    then show ?thesis
      using m ffs_lsb [of "ucast x :: u64" m] by (simp add: fd_uint128_find_lsb_def Let_def fd_T_if_def)
  next
    case False
    then have "is_lsb (ucast (drop_bit 64 x) :: u64) (m - 64)" "(ucast x :: u64) = 0"
      using m len unfolding is_lsb_def halves_zero(1) bit_halves(2) by auto
    then show ?thesis
      using m ffs_lsb [of "ucast (drop_bit 64 x) :: u64" "m - 64"] False by (simp add: fd_uint128_find_lsb_def Let_def fd_T_if_def)
  qed
qed

lemma is_msb_log: "is_msb x m \<longleftrightarrow> 2 ^ m \<le> unat x \<and> unat x < 2 * 2 ^ m" for x :: "'a :: len word"
proof
  assume "is_msb x m"
  then show "2 ^ m \<le> unat x \<and> unat x < 2 * 2 ^ m"
    using msb_bounds [of x m] by (simp add: is_msb_def)
next
  assume m: "2 ^ m \<le> unat x \<and> unat x < 2 * 2 ^ m"
  then have "x \<noteq> 0"
    by auto
  then obtain k where k: "is_msb x k"
    using is_msb_exists by blast
  then have "2 ^ k \<le> unat x \<and> unat x < 2 * 2 ^ k"
    using msb_bounds [of x k] by (simp add: is_msb_def)
  then have "(2 :: nat) ^ m < 2 ^ Suc k" "(2 :: nat) ^ k < 2 ^ Suc m"
    using m by simp_all
  then have "m < Suc k" "k < Suc m"
    using power_less_imp_less_exp [of "2 :: nat" m "Suc k"] power_less_imp_less_exp [of "2 :: nat" k "Suc m"] by simp_all
  then have "m = k"
    by simp
  then show "is_msb x m"
    using k by simp
qed

text \<open>The scans find the highest and the lowest set bit of a nonzero word; the highest is the binary logarithm.\<close>

theorem fd_find_msb_lsb_spec:
  assumes "x8 \<noteq> 0" "x16 \<noteq> 0" "x32 \<noteq> 0" "x64 \<noteq> 0" "x128 \<noteq> 0"
  shows "is_msb x8 (fd_uchar_find_msb x8) \<and> is_msb x16 (fd_ushort_find_msb x16) \<and> is_msb x32 (fd_uint_find_msb x32) \<and>
    is_msb x64 (fd_ulong_find_msb x64) \<and> is_msb x128 (fd_uint128_find_msb x128) \<and>
    is_lsb x8 (fd_uchar_find_lsb x8) \<and> is_lsb x16 (fd_ushort_find_lsb x16) \<and> is_lsb x32 (fd_uint_find_lsb x32) \<and>
    is_lsb x64 (fd_ulong_find_lsb x64) \<and> is_lsb x128 (fd_uint128_find_lsb x128) \<and>
    2 ^ fd_ulong_find_msb x64 \<le> unat x64 \<and> unat x64 < 2 * 2 ^ fd_ulong_find_msb x64"
  using assms by (simp add: find_msb_is_msb find_lsb_is_lsb find_msb_128 find_lsb_128 is_msb_log [symmetric])

end
