(* ===== verification/Uwide_Shift.thy ===== *)
theory Uwide_Shift
  imports Uwide Bits_Find
begin

text \<open>
  Shifts and the bit scan of \<open>src/src/util/bits/fd_uwide.h\<close>.  The flag a shift returns says whether nonzero bits
  were lost.
\<close>

definition fd_uwide_find_msb :: "u64 \<Rightarrow> u64 \<Rightarrow> nat" where
  "fd_uwide_find_msb xh xl =
     (let (off, xl) = (if xh \<noteq> 0 then (64, xh) else (0, xl)) in off + fd_ulong_find_msb xl)"

definition fd_uwide_find_msb_default :: "u64 \<Rightarrow> u64 \<Rightarrow> int \<Rightarrow> int" where
  "fd_uwide_find_msb_default xh xl def = (if xh OR xl \<noteq> 0 then int (fd_uwide_find_msb xh xl) else def)"

definition fd_uwide_sl :: "u64 \<Rightarrow> u64 \<Rightarrow> nat \<Rightarrow> bool \<times> u64 \<times> u64" where
  "fd_uwide_sl xh xl s =
     (if s \<ge> 128 then (xh OR xl \<noteq> 0, 0, 0)
      else if s > 64 then (let s = s - 64; t = 64 - s in (xh OR drop_bit t xl \<noteq> 0, push_bit s xl, 0))
      else if s = 64 then (xh \<noteq> 0, xl, 0)
      else if s > 0 then (let t = 64 - s in (drop_bit t xh \<noteq> 0, push_bit s xh OR drop_bit t xl, push_bit s xl))
      else (False, xh, xl))"

definition fd_uwide_sr :: "u64 \<Rightarrow> u64 \<Rightarrow> nat \<Rightarrow> bool \<times> u64 \<times> u64" where
  "fd_uwide_sr xh xl s =
     (if s \<ge> 128 then (xh OR xl \<noteq> 0, 0, 0)
      else if s > 64 then (let s = s - 64; t = 64 - s in (push_bit t xh OR xl \<noteq> 0, 0, drop_bit s xh))
      else if s = 64 then (xl \<noteq> 0, 0, xh)
      else if s > 0 then (let t = 64 - s in (push_bit t xl \<noteq> 0, drop_bit s xh, drop_bit s xl OR push_bit t xh))
      else (False, xh, xl))"

text \<open>The wide number as one 128-bit word.\<close>

definition join :: "u64 \<Rightarrow> u64 \<Rightarrow> 128 word" where
  "join h l = push_bit 64 (ucast h) OR ucast l"

lemma bit_join: "bit (join h l) i \<longleftrightarrow> (if i < 64 then bit l i else bit h (i - 64))"
  using bit_imp_le_length [of h "i - 64"] bit_imp_le_length [of l i] by (auto simp: join_def bit_simps)

lemma unat_join: "unat (join h l) = wide h l"
proof -
  have "join h l = push_bit 64 (ucast h) + ucast l"
    unfolding join_def by (rule disjunctive_add [symmetric]) (auto simp: bit_simps dest: bit_imp_le_length)
  moreover have "unat (push_bit 64 (ucast h) :: 128 word) = unat h * 2 ^ 64"
    using unat_u64_less [of h] by (subst unsigned_push_bit_eq) (simp add: push_bit_eq_mult take_bit_nat_eq_self unat_ucast_widen)
  ultimately show ?thesis
    using unat_u64_less [of h] unat_u64_less [of l] by (simp add: unat_word_ariths wide_def unat_ucast_widen)
qed

lemma word_zero_bits: "w \<noteq> 0 \<longleftrightarrow> (\<exists>i. bit w i)" for w :: "'a :: len word"
  using bit_word_eqI [of w 0] by auto

lemma high_bits: "(\<exists>i \<ge> k. bit X i) \<longleftrightarrow> 2 ^ k \<le> unat X" for X :: "'a :: len word"
proof -
  have "(\<forall>i \<ge> k. \<not> bit X i) \<longleftrightarrow> take_bit k X = X"
  proof
    assume "\<forall>i \<ge> k. \<not> bit X i"
    then show "take_bit k X = X"
      by (intro bit_word_eqI) (auto simp: bit_simps not_less [symmetric])
  next
    assume "take_bit k X = X"
    then have "bit X i \<longleftrightarrow> i < k \<and> bit X i" for i
      by (metis bit_take_bit_iff)
    then show "\<forall>i \<ge> k. \<not> bit X i"
      by (metis not_less)
  qed
  also have "\<dots> \<longleftrightarrow> unat (take_bit k X) = unat X"
    by (metis unsigned_word_eqI)
  also have "\<dots> \<longleftrightarrow> unat X < 2 ^ k"
    by (subst unsigned_take_bit_eq) (simp add: take_bit_nat_eq_self_iff)
  finally show ?thesis
    by auto
qed

lemma low_bits: "(\<exists>i < k. bit X i) \<longleftrightarrow> unat X mod 2 ^ k \<noteq> 0" for X :: "'a :: len word"
proof -
  have "(\<exists>i < k. bit X i) \<longleftrightarrow> take_bit k X \<noteq> 0"
    unfolding word_zero_bits by (auto simp: bit_simps)
  also have "\<dots> \<longleftrightarrow> unat (take_bit k X) \<noteq> 0"
    by (metis unat_0 unsigned_word_eqI)
  also have "\<dots> \<longleftrightarrow> unat X mod 2 ^ k \<noteq> 0"
    by (subst unsigned_take_bit_eq) (simp add: take_bit_eq_mod)
  finally show ?thesis .
qed

lemma u64_bit_less: "bit (w :: u64) i \<Longrightarrow> i < 64"
  using bit_imp_le_length [of w i] by simp

lemma sl_join_below:
  assumes "0 < s" "s < 64"
  shows "join (push_bit s xh OR drop_bit (64 - s) xl) (push_bit s xl) = push_bit s (join xh xl)"
proof (rule bit_word_eqI)
  fix n
  assume n: "n < LENGTH(128)"
  show "bit (join (push_bit s xh OR drop_bit (64 - s) xl) (push_bit s xl)) n = bit (push_bit s (join xh xl)) n"
  proof (cases "s \<le> n")
    case True
    then obtain k where k: "n = s + k"
      using le_Suc_ex by blast
    have e: "64 \<le> s + k \<Longrightarrow> 64 - s + (s + k - 64) = k" "64 \<le> k \<Longrightarrow> s + k - 64 - s = k - 64"
        "64 \<le> s + k \<Longrightarrow> s \<le> s + k - 64 \<longleftrightarrow> 64 \<le> k" "64 \<le> s + k \<Longrightarrow> s + k - 64 < 64"
      using assms n k by auto
    show ?thesis
      using assms n e u64_bit_less [of xl k] by (cases "64 \<le> k"; cases "64 \<le> s + k") (auto simp: k bit_join bit_simps)
  qed (use assms n in \<open>simp add: bit_join bit_simps\<close>)
qed

lemma sr_join_below:
  assumes "0 < s" "s < 64"
  shows "join (drop_bit s xh) (drop_bit s xl OR push_bit (64 - s) xh) = drop_bit s (join xh xl)"
proof (rule bit_word_eqI)
  fix n
  assume n: "n < LENGTH(128)"
  have e: "64 \<le> s + n \<Longrightarrow> n - (64 - s) = s + n - 64" "64 \<le> n \<Longrightarrow> s + (n - 64) = s + n - 64"
    using assms by simp_all
  show "bit (join (drop_bit s xh) (drop_bit s xl OR push_bit (64 - s) xh)) n = bit (drop_bit s (join xh xl)) n"
    using assms n e u64_bit_less [of xl "s + n"] by (cases "64 \<le> n"; cases "64 \<le> s + n") (auto simp: bit_join bit_simps)
qed

lemma sl_join:
  assumes "fd_uwide_sl xh xl s = (f, zh, zl)"
  shows "join zh zl = push_bit s (join xh xl)"
proof -
  consider "128 \<le> s" | "64 < s" "s < 128" | "s = 64" | "0 < s" "s < 64" | "s = 0"
    by linarith
  then show ?thesis
  proof cases
    case 2
    have "join (push_bit (s - 64) xl) 0 = push_bit s (join xh xl)"
      using 2 by (intro bit_word_eqI) (auto simp: bit_join bit_simps)
    then show ?thesis
      using 2 assms by (simp add: fd_uwide_sl_def Let_def)
  next
    case 4
    then show ?thesis
      using assms sl_join_below [OF 4, of xh xl] by (simp add: fd_uwide_sl_def Let_def)
  qed (use assms in \<open>auto simp: fd_uwide_sl_def bit_join bit_simps split: if_splits intro!: bit_word_eqI\<close>)
qed

lemma sr_join:
  assumes "fd_uwide_sr xh xl s = (f, zh, zl)"
  shows "join zh zl = drop_bit s (join xh xl)"
proof -
  consider "128 \<le> s" | "64 < s" "s < 128" | "s = 64" | "0 < s" "s < 64" | "s = 0"
    by linarith
  then show ?thesis
  proof cases
    case 2
    have "join 0 (drop_bit (s - 64) xh) = drop_bit s (join xh xl)"
      using 2 by (intro bit_word_eqI) (auto simp: bit_join bit_simps dest: u64_bit_less)
    then show ?thesis
      using 2 assms by (simp add: fd_uwide_sr_def Let_def)
  next
    case 4
    then show ?thesis
      using assms sr_join_below [OF 4, of xh xl] by (simp add: fd_uwide_sr_def Let_def)
  qed (use assms in \<open>auto simp: fd_uwide_sr_def bit_join bit_simps split: if_splits intro!: bit_word_eqI dest: u64_bit_less\<close>)
qed

text \<open>The flags in terms of the values.\<close>

lemma drop_nonzero: "drop_bit t x \<noteq> 0 \<longleftrightarrow> 2 ^ t \<le> unat x" for x :: u64
proof -
  have "drop_bit t x \<noteq> 0 \<longleftrightarrow> unat (drop_bit t x) \<noteq> 0"
    by (metis unat_0 unsigned_word_eqI)
  then show ?thesis
    by (simp add: unat_high div_eq_0_iff not_less)
qed

lemma push_nonzero: "push_bit t x \<noteq> 0 \<longleftrightarrow> unat x mod 2 ^ (64 - t) \<noteq> 0" for x :: u64
proof -
  have "push_bit t x \<noteq> 0 \<longleftrightarrow> (\<exists>i < 64 - t. bit x i)"
  proof
    assume "push_bit t x \<noteq> 0"
    then obtain j where "t \<le> j" "j < 64" "bit x (j - t)"
      unfolding word_zero_bits by (auto simp: bit_simps)
    then show "\<exists>i < 64 - t. bit x i"
      by (intro exI [of _ "j - t"]) simp
  next
    assume "\<exists>i < 64 - t. bit x i"
    then obtain i where "i < 64 - t" "bit x i"
      by blast
    then have "bit (push_bit t x) (t + i)"
      by (simp add: bit_simps)
    then show "push_bit t x \<noteq> 0"
      by auto
  qed
  then show ?thesis
    by (simp add: low_bits)
qed

lemma wide_ge: "2 ^ k \<le> wide h l \<longleftrightarrow> (if k \<le> 64 then h \<noteq> 0 \<or> 2 ^ k \<le> unat l else 2 ^ (k - 64) \<le> unat h)"
proof (cases "k \<le> 64")
  case True
  show ?thesis
  proof (cases "h = 0")
    case False
    then have "1 \<le> unat h"
      by (simp add: Suc_leI unat_gt_0)
    then have "2 ^ 64 \<le> wide h l"
      unfolding wide_def by simp
    moreover have "(2 :: nat) ^ k \<le> 2 ^ 64"
      using True by (intro power_increasing) simp_all
    ultimately show ?thesis
      using True False by simp
  qed (use True in \<open>simp add: wide_def\<close>)
next
  case False
  then have "(2 :: nat) ^ k = 2 ^ (k - 64) * 2 ^ 64"
    using power_add [of "2 :: nat" "k - 64" 64] by simp
  moreover have "a * 2 ^ 64 \<le> wide h l \<longleftrightarrow> a \<le> unat h" for a
    using unat_u64_less [of l] by (auto simp: wide_def)
  ultimately show ?thesis
    using False by simp
qed

lemma wide_mod: "wide h l mod 2 ^ s \<noteq> 0 \<longleftrightarrow> (if s \<le> 64 then unat l mod 2 ^ s \<noteq> 0 else l \<noteq> 0 \<or> unat h mod 2 ^ (s - 64) \<noteq> 0)"
proof (cases "s \<le> 64")
  case True
  then have "(2 :: nat) ^ s dvd 2 ^ 64"
    by (rule le_imp_power_dvd)
  then have "wide h l mod 2 ^ s = unat l mod 2 ^ s"
    unfolding wide_def by (metis dvd_triv_right dvd_trans mod_add_eq mod_eq_0_iff_dvd add_0 mod_mod_trivial)
  then show ?thesis
    using True by simp
next
  case False
  then have e: "(2 :: nat) ^ s = 2 ^ 64 * 2 ^ (s - 64)"
    using power_add [of "2 :: nat" 64 "s - 64"] by simp
  have "wide h l mod 2 ^ s = 2 ^ 64 * (wide h l div 2 ^ 64 mod 2 ^ (s - 64)) + wide h l mod 2 ^ 64"
    unfolding e by (rule mod_mult2_eq)
  then show ?thesis
    using False unfolding wide_parts by (auto simp: unat_eq_zero)
qed

lemma or_nonzero: "x OR y \<noteq> 0 \<longleftrightarrow> x \<noteq> 0 \<or> y \<noteq> 0" for x y :: u64
  by (simp add: or_eq_0_iff)

lemma wide_nonzero: "h \<noteq> 0 \<or> l \<noteq> 0 \<longleftrightarrow> 1 \<le> wide h l"
  using wide_ge [of 0 h l] by (auto simp: unat_gt_0 Suc_le_eq)

lemma fd_uwide_sl_wide:
  assumes "fd_uwide_sl xh xl s = (f, zh, zl)"
  shows "wide zh zl = (wide xh xl * 2 ^ s) mod 2 ^ 128 \<and> (f \<longleftrightarrow> 2 ^ 128 \<le> wide xh xl * 2 ^ s)"
proof
  have "unat (push_bit s (join xh xl)) = (unat (join xh xl) * 2 ^ s) mod 2 ^ 128"
    by (subst unsigned_push_bit_eq) (simp add: push_bit_eq_mult take_bit_eq_mod)
  then show "wide zh zl = (wide xh xl * 2 ^ s) mod 2 ^ 128"
    using sl_join [OF assms] by (metis unat_join)
  show "f \<longleftrightarrow> 2 ^ 128 \<le> wide xh xl * 2 ^ s"
  proof (cases "128 \<le> s")
    case True
    then have "(2 :: nat) ^ 128 \<le> 2 ^ s"
      by (intro power_increasing) simp_all
    then have "1 \<le> wide xh xl \<longleftrightarrow> 2 ^ 128 \<le> wide xh xl * 2 ^ s"
      by (cases "wide xh xl") (simp_all add: trans_le_add1)
    then show ?thesis
      using assms True by (simp only: fd_uwide_sl_def if_True prod.inject or_nonzero wide_nonzero)
  next
    case False
    then have p: "(2 :: nat) ^ 128 = 2 ^ (128 - s) * 2 ^ s"
      using power_add [of "2 :: nat" "128 - s" s] by simp
    have "2 ^ 128 \<le> wide xh xl * 2 ^ s \<longleftrightarrow> 2 ^ (128 - s) \<le> wide xh xl"
      unfolding p by simp
    also have "\<dots> \<longleftrightarrow> f"
      using assms False unat_u64_less [of zh] unfolding wide_ge by (auto simp: fd_uwide_sl_def Let_def or_nonzero drop_nonzero split: if_splits)
    finally show ?thesis
      by simp
  qed
qed

lemma fd_uwide_sr_wide:
  assumes "fd_uwide_sr xh xl s = (f, zh, zl)"
  shows "wide zh zl = wide xh xl div 2 ^ s \<and> (f \<longleftrightarrow> wide xh xl mod 2 ^ s \<noteq> 0)"
proof
  have "unat (drop_bit s (join xh xl)) = unat (join xh xl) div 2 ^ s"
    using unsigned_less [of "join xh xl", where 'a = nat] by (subst unsigned_drop_bit_eq) (simp add: drop_bit_eq_div take_bit_nat_eq_self)
  then show "wide zh zl = wide xh xl div 2 ^ s"
    using sr_join [OF assms] by (metis unat_join)
  show "f \<longleftrightarrow> wide xh xl mod 2 ^ s \<noteq> 0"
  proof (cases "128 \<le> s")
    case True
    then have "(2 :: nat) ^ 128 \<le> 2 ^ s"
      by (intro power_increasing) simp_all
    then have "wide xh xl mod 2 ^ s = wide xh xl"
      using wide_less [of xh xl] by (intro mod_less) linarith
    then show ?thesis
      using assms True wide_nonzero [of xh xl] by (auto simp: fd_uwide_sr_def or_nonzero)
  next
    case False
    have "s < 64 \<Longrightarrow> push_bit (64 - s) xl \<noteq> 0 \<longleftrightarrow> unat xl mod 2 ^ s \<noteq> 0" "64 < s \<Longrightarrow> push_bit (64 - (s - 64)) xh \<noteq> 0 \<longleftrightarrow> unat xh mod 2 ^ (s - 64) \<noteq> 0"
      using False push_nonzero [of "64 - s" xl] push_nonzero [of "64 - (s - 64)" xh] by simp_all
    moreover have "unat xl mod 2 ^ 64 \<noteq> 0 \<longleftrightarrow> xl \<noteq> 0"
      using unat_u64_less [of xl] by (simp add: unat_eq_zero)
    ultimately show ?thesis
      using assms False unfolding wide_mod by (auto simp only: fd_uwide_sr_def Let_def or_nonzero prod.inject split: if_splits) auto
  qed
qed

text \<open>
  C38. Shifting a 128-bit number left or right by any amount is exact, modulo 2^128 and rounding
  down, and the flag returned tells whether nonzero bits were lost; the bit scan returns the binary
  logarithm, and the default for zero.
\<close>

theorem fd_uwide_shifts_exact:
  "(case fd_uwide_sl xh xl s of (f, zh, zl) \<Rightarrow> wide zh zl = (wide xh xl * 2 ^ s) mod 2 ^ 128 \<and> (f \<longleftrightarrow> 2 ^ 128 \<le> wide xh xl * 2 ^ s)) \<and>
   (case fd_uwide_sr xh xl s of (f, zh, zl) \<Rightarrow> wide zh zl = wide xh xl div 2 ^ s \<and> (f \<longleftrightarrow> wide xh xl mod 2 ^ s \<noteq> 0)) \<and>
   (if wide xh xl = 0 then fd_uwide_find_msb_default xh xl d = d
    else \<exists>m. fd_uwide_find_msb_default xh xl d = int m \<and> 2 ^ m \<le> wide xh xl \<and> wide xh xl < 2 * 2 ^ m)"
proof (intro conjI)
  show "case fd_uwide_sl xh xl s of (f, zh, zl) \<Rightarrow> wide zh zl = (wide xh xl * 2 ^ s) mod 2 ^ 128 \<and> (f \<longleftrightarrow> 2 ^ 128 \<le> wide xh xl * 2 ^ s)"
    using fd_uwide_sl_wide by (auto split: prod.split)
  show "case fd_uwide_sr xh xl s of (f, zh, zl) \<Rightarrow> wide zh zl = wide xh xl div 2 ^ s \<and> (f \<longleftrightarrow> wide xh xl mod 2 ^ s \<noteq> 0)"
    using fd_uwide_sr_wide by (auto split: prod.split)
  show "if wide xh xl = 0 then fd_uwide_find_msb_default xh xl d = d
    else \<exists>m. fd_uwide_find_msb_default xh xl d = int m \<and> 2 ^ m \<le> wide xh xl \<and> wide xh xl < 2 * 2 ^ m"
  proof (cases "xh = 0")
    case True
    then show ?thesis
      using find_msb_is_msb(4) [of xl] by (auto simp: fd_uwide_find_msb_default_def fd_uwide_find_msb_def wide_def is_msb_log unat_eq_zero)
  next
    case False
    let ?m = "fd_ulong_find_msb xh"
    have m: "2 ^ ?m \<le> unat xh" "unat xh < 2 ^ Suc ?m"
      using find_msb_is_msb(4) [OF False] by (simp_all add: is_msb_log)
    have g: "2 ^ (64 + k) \<le> wide xh xl \<longleftrightarrow> 2 ^ k \<le> unat xh" for k
      using wide_ge [of "64 + k" xh xl] False by (cases k) (simp_all add: Suc_le_eq unat_gt_0)
    have "2 ^ (64 + ?m) \<le> wide xh xl" "wide xh xl < 2 * 2 ^ (64 + ?m)"
      using m g [of ?m] g [of "Suc ?m"] unfolding add_Suc_right power_Suc by linarith+
    moreover have "wide xh xl \<noteq> 0"
      using wide_nonzero [of xh xl] False by simp
    ultimately show ?thesis
      using False by (auto simp: fd_uwide_find_msb_default_def fd_uwide_find_msb_def or_nonzero intro!: exI [of _ "64 + ?m"])
  qed
qed

end
