(* ===== verification/Uwide_Div.thy ===== *)
theory Uwide_Div
  imports Uwide_Shift
begin

text \<open>
  Division of a 128-bit by a 64-bit number, \<open>fd_uwide_div\<close> and \<open>fd_uwide_divrem\<close> of \<open>src/src/util/bits/fd_uwide.h\<close>: the
  quotient is corrected by an approximate reciprocal until the error fits 64 bits.  The loop is a
  \<open>partial_function\<close> into \<open>option\<close>; that it returns is part of what is proved.
\<close>

definition fd_uwide_private_div_approx_init :: "u64 \<Rightarrow> u64" where
  "fd_uwide_private_div_approx_init d = (let m = drop_bit 32 d + 1 in (- m) div m - 0xffffffff)"

definition fd_uwide_private_div_approx :: "u64 \<Rightarrow> u64 \<Rightarrow> u64" where
  "fd_uwide_private_div_approx n m =
     (let nh = drop_bit 32 n; nl = ucast (ucast n :: u32) in n + nh * m + drop_bit 32 (nl * m))"

partial_function (option) div_loop :: "u64 \<Rightarrow> u64 \<Rightarrow> u64 \<Rightarrow> u64 \<Rightarrow> u64 \<Rightarrow> u64 \<Rightarrow> (u64 \<times> u64) option" where
  "div_loop nh nl d m eh ql =
     (let ql = ql + fd_uwide_private_div_approx eh m;
          (eh, el) = fd_uwide_mul ql d;
          (_, eh, el) = fd_uwide_sub nh nl eh el 0
      in if eh \<noteq> 0 then div_loop nh nl d m eh ql else Some (ql, el))"

definition fd_uwide_div :: "u64 \<Rightarrow> u64 \<Rightarrow> u64 \<Rightarrow> (bool \<times> u64 \<times> u64) option" where
  "fd_uwide_div xh xl y =
     (if y = 0 then Some (True, 0, 0)
      else if xh = 0 then Some (False, 0, xl div y)
      else let n = fd_ulong_find_msb y in
        if fd_T_pop_lsb y = 0 then (case fd_uwide_sr xh xl n of (_, zh, zl) \<Rightarrow> Some (False, zh, zl))
        else let qh = xh div y; rh = xh - qh * y in
          if rh = 0 then Some (False, qh, xl div y)
          else let s = 63 - n;
                   (_, nh, nl) = fd_uwide_sl rh xl s;
                   d = push_bit s y;
                   m = fd_uwide_private_div_approx_init d
               in case div_loop nh nl d m nh 0 of
                    None \<Rightarrow> None
                  | Some (ql, el) \<Rightarrow> Some (False, qh, ql + el div d))"

definition fd_uwide_divrem :: "u64 \<Rightarrow> u64 \<Rightarrow> u64 \<Rightarrow> (u64 \<times> u64 \<times> u64) option" where
  "fd_uwide_divrem xh xl y =
     (if y = 0 then Some (- 1, 0, 0)
      else if xh = 0 then (let ql = xl div y; r = xl - ql * y in Some (r, 0, ql))
      else let n = fd_ulong_find_msb y in
        if fd_T_pop_lsb y = 0 then
          (let s = 64 - n in case fd_uwide_sr xh xl n of (_, zh, zl) \<Rightarrow> Some (if n \<noteq> 0 then drop_bit s (push_bit s xl) else 0, zh, zl))
        else let qh = xh div y; rh = xh - qh * y in
          if rh = 0 then (let ql = xl div y; r = xl - ql * y in Some (r, qh, ql))
          else let s = 63 - n;
                   (_, nh, nl) = fd_uwide_sl rh xl s;
                   d = push_bit s y;
                   m = fd_uwide_private_div_approx_init d
               in case div_loop nh nl d m nh 0 of
                    None \<Rightarrow> None
                  | Some (ql, el) \<Rightarrow> (let dq = el div d; r = drop_bit s (el - dq * d) in Some (r, qh, ql + dq)))"

subsection \<open>The approximate reciprocal\<close>

lemma unat_div: "unat (x div y :: u64) = unat x div unat y"
  by (simp add: unat_div_distrib)

lemma unat_mod: "unat (x - x div y * y :: u64) = unat x mod unat y"
  unfolding minus_div_mult_eq_mod by (rule unat_mod_distrib)

lemma unat_minus_u64: "x \<noteq> 0 \<Longrightarrow> unat (- x :: u64) = 18446744073709551616 - unat x"
  using add_carry [of "- x" x] unat_u64_less [of x] by (simp add: unat_flag unat_gt_0 word_less_nat_alt)

lemma reciprocal_bounds:
  fixes M :: nat
  assumes "2147483648 < M" "M \<le> 4294967296"
  shows "4294967296 \<le> 18446744073709551616 div M" "18446744073709551616 div M < 8589934592"
proof -
  have "4294967296 * M \<le> 18446744073709551616"
    using assms by simp
  then show "4294967296 \<le> 18446744073709551616 div M"
    using assms by (simp add: less_eq_div_iff_mult_less_eq)
  show "18446744073709551616 div M < 8589934592"
    using assms by (simp add: div_less_iff_less_mult)
qed

lemma approx_init:
  assumes "9223372036854775808 \<le> unat d"
  defines "M \<equiv> unat d div 4294967296 + 1"
  shows "unat (fd_uwide_private_div_approx_init d) + 4294967296 = 18446744073709551616 div M"
    "unat (fd_uwide_private_div_approx_init d) < 4294967296" "2147483648 < M" "M \<le> 4294967296"
proof -
  let ?m = "drop_bit 32 d + 1"
  have "9223372036854775808 div 4294967296 \<le> unat d div 4294967296"
    using assms(1) by (rule div_le_mono)
  moreover have "unat d div 4294967296 < 4294967296"
    using unat_u64_less [of d] by (simp add: less_mult_imp_div_less)
  ultimately show M: "2147483648 < M" "M \<le> 4294967296"
    by (simp_all add: M_def)
  have m: "unat ?m = M"
    using unat_add_exact [of "drop_bit 32 d" 1] M by (simp add: unat_high M_def)
  then have "?m \<noteq> 0"
    using M by auto
  from unat_minus_u64 [OF this] have "unat ((- ?m) div ?m) = (18446744073709551616 - M) div M"
    by (simp only: unat_div m)
  also have "\<dots> = 18446744073709551616 div M - 1"
    using le_div_geq [of M 18446744073709551616] M by linarith
  finally have q: "unat ((- ?m) div ?m) = 18446744073709551616 div M - 1" .
  have "unat ((- ?m) div ?m - 0xffffffff) = 18446744073709551616 div M - 1 - 4294967295"
    using reciprocal_bounds [OF M] q by (subst unat_sub) (simp_all add: word_le_nat_alt)
  then show "unat (fd_uwide_private_div_approx_init d) + 4294967296 = 18446744073709551616 div M"
    "unat (fd_uwide_private_div_approx_init d) < 4294967296"
    using reciprocal_bounds [OF M] by (simp_all add: fd_uwide_private_div_approx_init_def Let_def)
qed

lemma approx_bound:
  fixes N D r M :: nat
  assumes "r + 4294967296 = 18446744073709551616 div M" "M = D div 4294967296 + 1"
  shows "(N + N div 4294967296 * r + (N mod 4294967296 * r) div 4294967296) * D \<le> N * 18446744073709551616"
proof -
  let ?V = "N + N div 4294967296 * r + (N mod 4294967296 * r) div 4294967296"
  have D: "D \<le> M * 4294967296"
    using assms(2) by simp
  have "(N mod 4294967296 * r) div 4294967296 * 4294967296 \<le> N mod 4294967296 * r"
    by (rule div_times_less_eq_dividend)
  then have "?V * 4294967296 \<le> N * 4294967296 + (N div 4294967296 * 4294967296 + N mod 4294967296) * r"
    unfolding distrib_right by (simp add: mult.commute mult.left_commute)
  also have "\<dots> = N * (r + 4294967296)"
    by (simp add: div_mult_mod_eq distrib_left)
  finally have V: "?V * 4294967296 \<le> N * (18446744073709551616 div M)"
    by (simp only: assms(1))
  have "?V * D \<le> ?V * (M * 4294967296)"
    using D by (rule mult_le_mono2)
  also have "\<dots> = ?V * 4294967296 * M"
    by (simp only: ac_simps)
  also have "\<dots> \<le> N * (18446744073709551616 div M) * M"
    using V by (rule mult_le_mono1)
  also have "\<dots> = N * (18446744073709551616 div M * M)"
    by (simp only: mult.assoc)
  also have "\<dots> \<le> N * 18446744073709551616"
    by (intro mult_le_mono2 div_times_less_eq_dividend)
  finally show ?thesis .
qed

lemma approx_le:
  assumes d: "9223372036854775808 \<le> unat d" and n: "unat n < unat d"
  defines "q \<equiv> fd_uwide_private_div_approx n (fd_uwide_private_div_approx_init d)"
  shows "unat n \<le> unat q" "unat q * unat d \<le> unat n * 18446744073709551616"
proof -
  note I = approx_init [OF d]
  let ?m = "fd_uwide_private_div_approx_init d"
  let ?nh = "drop_bit 32 n" and ?nl = "ucast (ucast n :: u32) :: u64"
  let ?V = "unat n + unat n div 4294967296 * unat ?m + (unat n mod 4294967296 * unat ?m) div 4294967296"
  have V: "?V * unat d \<le> unat n * 18446744073709551616"
    by (rule approx_bound [OF I(1) refl])
  have "unat n * 18446744073709551616 < 18446744073709551616 * unat d"
    using n by simp
  with V have "?V * unat d < 18446744073709551616 * unat d"
    by (rule le_less_trans)
  then have small: "?V < 18446744073709551616"
    by simp
  have h: "unat ?nh = unat n div 4294967296" "unat ?nl = unat n mod 4294967296"
    by (simp_all add: unat_high unat_low32)
  then have "unat ?nh < 4294967296" "unat ?nl < 4294967296"
    using unat_u64_less [of n] by (simp_all add: less_mult_imp_div_less)
  then have p: "unat (?nh * ?m) = unat n div 4294967296 * unat ?m" "unat (?nl * ?m) = unat n mod 4294967296 * unat ?m"
    using I(2) by (simp_all only: unat_mul_32 h)
  have "unat (drop_bit 32 (?nl * ?m)) = (unat n mod 4294967296 * unat ?m) div 4294967296"
    by (simp add: unat_high p)
  then have "unat q = ?V"
    using small p(1) unat_add_exact [of n "?nh * ?m"] unat_add_exact [of "n + ?nh * ?m" "drop_bit 32 (?nl * ?m)"]
    unfolding q_def fd_uwide_private_div_approx_def Let_def by linarith
  then show "unat n \<le> unat q" "unat q * unat d \<le> unat n * 18446744073709551616"
    using V by simp_all
qed

subsection \<open>The loop\<close>

lemma sub_exact:
  assumes "wide yh yl \<le> wide xh xl" "fd_uwide_sub xh xl yh yl 0 = (bo, zh, zl)"
  shows "wide zh zl + wide yh yl = wide xh xl"
proof -
  have "wide zh zl + wide yh yl = unat bo * 2 ^ 128 + wide xh xl"
    using fd_uwide_sub_wide [where xh = xh and xl = xl and yh = yh and yl = yl and bi = 0] assms(2) by simp
  moreover have "unat bo = 0"
  proof (rule ccontr)
    assume "unat bo \<noteq> 0"
    then have "1 * 2 ^ 128 \<le> unat bo * 2 ^ 128"
      by (intro mult_le_mono1) linarith
    then show False
      using calculation wide_less [of zh zl] assms(1) by linarith
  qed
  ultimately show ?thesis
    by simp
qed

text \<open>One round of the loop: the quotient grows and stays below the true one.\<close>

lemma div_round:
  assumes d: "9223372036854775808 \<le> unat d" and N: "unat nh < unat d" and ql: "unat ql * unat d \<le> wide nh nl"
    and eh: "unat eh = (wide nh nl - unat ql * unat d) div 2 ^ 64" "eh \<noteq> 0"
  defines "q \<equiv> fd_uwide_private_div_approx eh (fd_uwide_private_div_approx_init d)"
  shows "unat (ql + q) = unat ql + unat q" "0 < unat q" "(unat ql + unat q) * unat d \<le> wide nh nl"
proof -
  have "unat eh \<le> wide nh nl div 2 ^ 64"
    unfolding eh(1) by (intro div_le_mono diff_le_self)
  then have "unat eh < unat d"
    using N unfolding wide_parts by simp
  note A = approx_le [OF d this, folded q_def]
  show "0 < unat q"
    using A(1) eh(2) by (metis unat_gt_0 less_le_trans)
  have "unat q * unat d \<le> wide nh nl - unat ql * unat d"
    using A(2) eh(1) div_times_less_eq_dividend [of "wide nh nl - unat ql * unat d" "2 ^ 64"] by simp
  then show le: "(unat ql + unat q) * unat d \<le> wide nh nl"
    using ql unfolding distrib_right by linarith
  have "wide nh nl < 18446744073709551616 * unat d"
    using N unat_u64_less [of nl] by (simp add: wide_def)
  with le have "(unat ql + unat q) * unat d < 18446744073709551616 * unat d"
    by (rule le_less_trans)
  then have "unat ql + unat q < 18446744073709551616"
    by simp
  then show "unat (ql + q) = unat ql + unat q"
    by (rule unat_add_exact)
qed

lemma div_loop_spec:
  assumes d: "9223372036854775808 \<le> unat d" and N: "unat nh < unat d" and "unat ql * unat d \<le> wide nh nl"
    and "unat eh = (wide nh nl - unat ql * unat d) div 2 ^ 64" "eh \<noteq> 0"
  shows "\<exists>ql' el. div_loop nh nl d (fd_uwide_private_div_approx_init d) eh ql = Some (ql', el) \<and> unat ql' * unat d + unat el = wide nh nl"
  using assms(3-)
proof (induction "wide nh nl - unat ql * unat d" arbitrary: ql eh rule: less_induct)
  case less
  let ?m = "fd_uwide_private_div_approx_init d"
  define q where "q = ql + fd_uwide_private_div_approx eh ?m"
  note R = div_round [OF d N less.prems, folded q_def]
  obtain ph pl where p: "fd_uwide_mul q d = (ph, pl)"
    by (cases "fd_uwide_mul q d")
  obtain bo zh zl where s: "fd_uwide_sub nh nl ph pl 0 = (bo, zh, zl)"
    by (cases "fd_uwide_sub nh nl ph pl 0")
  have wp: "wide ph pl = unat q * unat d"
    using fd_uwide_mul_wide [where x = q and y = d] p by simp
  have wz: "wide zh zl + unat q * unat d = wide nh nl"
    using sub_exact [OF _ s] R(1,3) wp by simp
  have step: "div_loop nh nl d ?m eh ql = (if zh \<noteq> 0 then div_loop nh nl d ?m zh q else Some (q, zl))"
    by (subst div_loop.simps) (simp add: Let_def p s flip: q_def)
  show ?case
  proof (cases "zh = 0")
    case True
    then show ?thesis
      using step wz by (simp add: wide_def add.commute)
  next
    case False
    have "unat ql * unat d < unat q * unat d"
      using R(1,2) d by simp
    then have "wide nh nl - unat q * unat d < wide nh nl - unat ql * unat d"
      using wz by linarith
    moreover have "unat zh = (wide nh nl - unat q * unat d) div 2 ^ 64"
      using wz wide_parts(1) [of zh zl] by (metis add_diff_cancel_right')
    ultimately show ?thesis
      using less.hyps [of q zh] False wz step by simp
  qed
qed

subsection \<open>Quotient and remainder\<close>

lemma normalized:
  assumes "y \<noteq> 0"
  defines "s \<equiv> 63 - fd_ulong_find_msb y"
  shows "unat (push_bit s y) = unat y * 2 ^ s" "9223372036854775808 \<le> unat y * 2 ^ s" "unat y * 2 ^ s < 18446744073709551616" "s \<le> 63"
proof -
  let ?n = "fd_ulong_find_msb y"
  have m: "2 ^ ?n \<le> unat y" "unat y < 2 * 2 ^ ?n" "?n < 64"
    using find_msb_is_msb(4) [OF assms(1)] clz_msb(2) [of y ?n] by (simp_all add: is_msb_log [symmetric]) (simp_all add: is_msb_log)
  have p: "2 ^ ?n * 2 ^ s = (9223372036854775808 :: nat)"
    using m(3) unfolding s_def by (simp flip: power_add)
  have "2 ^ ?n * 2 ^ s \<le> unat y * 2 ^ s"
    using m(1) by simp
  then show "9223372036854775808 \<le> unat y * 2 ^ s"
    unfolding p .
  have "unat y * 2 ^ s < 2 * 2 ^ ?n * 2 ^ s"
    using m(2) by simp
  then show *: "unat y * 2 ^ s < 18446744073709551616"
    unfolding mult.assoc p by simp
  show "unat (push_bit s y) = unat y * 2 ^ s"
    using * by (rule unat_push_exact)
  show "s \<le> 63"
    by (simp add: s_def)
qed

lemma div_core:
  assumes y: "y \<noteq> 0" and rh: "rh \<noteq> 0" "unat rh < unat y"
  defines "s \<equiv> 63 - fd_ulong_find_msb y"
  defines "d \<equiv> push_bit s y"
  assumes sl: "fd_uwide_sl rh xl s = (f, nh, nl)"
  shows "\<exists>ql el. div_loop nh nl d (fd_uwide_private_div_approx_init d) nh 0 = Some (ql, el) \<and>
    unat (ql + el div d) = wide rh xl div unat y \<and> unat (drop_bit s (el - el div d * d)) = wide rh xl mod unat y"
proof -
  note S = normalized [OF y, folded s_def d_def]
  have W: "wide rh xl < unat y * 18446744073709551616"
    using rh(2) unat_u64_less [of xl] by (simp add: wide_def)
  then have "wide rh xl * 2 ^ s < unat y * 18446744073709551616 * 2 ^ s"
    by simp
  also have "\<dots> = unat y * 2 ^ s * 18446744073709551616"
    by (simp only: ac_simps)
  finally have N1: "wide rh xl * 2 ^ s < unat d * 18446744073709551616"
    by (simp only: S(1))
  moreover have "unat d * 18446744073709551616 < 2 ^ 128"
    using S(1,3) by simp
  ultimately have N: "wide nh nl = wide rh xl * 2 ^ s"
    using fd_uwide_sl_wide [OF sl] by simp
  have "unat nh * 18446744073709551616 \<le> wide nh nl"
    by (simp add: wide_def)
  then have "unat nh * 18446744073709551616 < unat d * 18446744073709551616"
    using N1 unfolding N by (rule le_less_trans)
  then have nh: "unat nh < unat d"
    by simp
  have "2 ^ 64 \<le> wide rh xl"
    using wide_ge [of 64 rh xl] rh(1) by simp
  also have "wide rh xl \<le> wide nh nl"
    by (simp add: N)
  finally have "nh \<noteq> 0"
    using unat_u64_less [of nl] by (auto simp: wide_def)
  then obtain ql el where L: "div_loop nh nl d (fd_uwide_private_div_approx_init d) nh 0 = Some (ql, el)" "unat ql * unat d + unat el = wide nh nl"
    using div_loop_spec [of d nh 0 nl nh] S(1,2) nh wide_parts(1) [of nh nl] by auto
  have q: "wide rh xl div unat y = unat ql + unat el div unat d"
  proof -
    have "wide rh xl div unat y = wide nh nl div unat d"
      by (simp add: N S(1))
    then show ?thesis
      using L(2) S(1,2) by (metis add.commute div_mult_self1 gr_implies_not0 less_le_trans zero_less_numeral)
  qed
  have "wide rh xl div unat y < 18446744073709551616"
    using W by (simp add: less_mult_imp_div_less mult.commute)
  then have "unat (ql + el div d) = wide rh xl div unat y"
    using unat_add_exact [of ql "el div d"] by (simp add: q unat_div)
  moreover have "unat (drop_bit s (el - el div d * d)) = wide rh xl mod unat y"
  proof -
    have "unat el mod unat d = wide nh nl mod unat d"
      using L(2) by (metis add.commute mod_mult_self1)
    also have "\<dots> = wide rh xl mod unat y * 2 ^ s"
      by (simp only: N S(1) mult_mod_left)
    finally show ?thesis
      by (simp add: unat_high unat_mod)
  qed
  ultimately show ?thesis
    using L(1) by blast
qed

lemma div_split:
  fixes xh xl y :: u64
  assumes "unat y \<noteq> 0"
  defines "qh \<equiv> xh div y"
  defines "rh \<equiv> xh - qh * y"
  shows "wide xh xl div unat y = unat qh * 2 ^ 64 + wide rh xl div unat y" "wide xh xl mod unat y = wide rh xl mod unat y"
    "unat rh < unat y"
proof -
  have r: "unat rh = unat xh mod unat y" "unat qh = unat xh div unat y"
    by (simp_all only: rh_def qh_def unat_mod unat_div)
  have "unat xh = unat qh * unat y + unat rh"
    by (simp add: r)
  then have "wide xh xl = wide rh xl + unat qh * 2 ^ 64 * unat y"
    by (simp add: wide_def algebra_simps)
  then show "wide xh xl div unat y = unat qh * 2 ^ 64 + wide rh xl div unat y" "wide xh xl mod unat y = wide rh xl mod unat y"
    by (simp_all only: div_mult_self1 [OF assms(1)] mod_mult_self1)
  show "unat rh < unat y"
    unfolding r(1) using assms(1) by (intro mod_less_divisor) linarith
qed

lemma pow2_case:
  assumes "y \<noteq> 0" "fd_T_pop_lsb y = 0"
  shows "unat y = 2 ^ fd_ulong_find_msb y" "fd_ulong_find_msb y < 64"
proof -
  have "fd_T_is_pow2 y"
    using assms by (simp add: fd_T_is_pow2_def fd_T_pop_lsb_def)
  then obtain k where k: "k < LENGTH(64)" "y = 2 ^ k"
    using fd_T_is_pow2_iff by blast
  then have u: "unat y = 2 ^ k"
    by (simp add: unat_pow2)
  then have "is_msb y k"
    by (simp add: is_msb_log)
  then have "fd_ulong_find_msb y = k"
    using find_msb_is_msb(4) [OF assms(1)] is_msb_unique by blast
  then show "unat y = 2 ^ fd_ulong_find_msb y" "fd_ulong_find_msb y < 64"
    using u k(1) by simp_all
qed

lemma low_part:
  assumes "n < 64"
  shows "unat (if n \<noteq> 0 then drop_bit (64 - n) (push_bit (64 - n) xl) else 0) = wide xh xl mod 2 ^ n"
proof -
  have "(2 :: nat) ^ n dvd 2 ^ 64"
    using assms by (intro le_imp_power_dvd) simp
  then have w: "wide xh xl mod 2 ^ n = unat xl mod 2 ^ n"
    unfolding wide_def by (metis dvd_triv_right dvd_trans mod_add_eq mod_eq_0_iff_dvd add_0 mod_mod_trivial)
  have "drop_bit (64 - n) (push_bit (64 - n) xl) = take_bit n xl" if "n \<noteq> 0"
    using assms that by (intro bit_word_eqI) (auto simp: bit_simps)
  moreover have "unat (take_bit n xl) = unat xl mod 2 ^ n"
    by (subst unsigned_take_bit_eq) (simp add: take_bit_eq_mod)
  ultimately show ?thesis
    unfolding w by simp
qed

text \<open>
  C35. Dividing any 128-bit number by any nonzero 64-bit number returns, after finitely many
  corrections, the exact quotient and, for divrem, the exact remainder; division by zero is
  reported.
\<close>

theorem fd_uwide_div_exact:
  "if y = 0 then fd_uwide_div xh xl y = Some (True, 0, 0) \<and> fd_uwide_divrem xh xl y = Some (- 1, 0, 0)
   else \<exists>zh zl r. fd_uwide_div xh xl y = Some (False, zh, zl) \<and> fd_uwide_divrem xh xl y = Some (r, zh, zl) \<and>
     wide zh zl = wide xh xl div unat y \<and> unat r = wide xh xl mod unat y"
proof (cases "y = 0")
  case False
  then have Y: "unat y \<noteq> 0"
    by (simp add: unat_eq_zero)
  let ?n = "fd_ulong_find_msb y" and ?qh = "xh div y" and ?rh = "xh - xh div y * y"
  note D = div_split(1,2) [OF Y, where xh = xh and xl = xl]
  consider "xh = 0" | "xh \<noteq> 0" "fd_T_pop_lsb y = 0" | "xh \<noteq> 0" "fd_T_pop_lsb y \<noteq> 0" "?rh = 0" | "xh \<noteq> 0" "fd_T_pop_lsb y \<noteq> 0" "?rh \<noteq> 0"
    by blast
  then show ?thesis
  proof cases
    case 1
    then show ?thesis
      using False by (simp add: fd_uwide_div_def fd_uwide_divrem_def Let_def wide_def unat_div unat_mod)
  next
    case 2
    obtain f zh zl where s: "fd_uwide_sr xh xl ?n = (f, zh, zl)"
      by (cases "fd_uwide_sr xh xl ?n")
    show ?thesis
      using False 2 s fd_uwide_sr_wide [OF s] pow2_case [OF False 2(2)] low_part [of ?n xl xh]
      by (simp add: fd_uwide_div_def fd_uwide_divrem_def Let_def)
  next
    case 3
    then have "wide ?rh xl = unat xl"
      by (simp add: wide_def)
    then show ?thesis
      using False 3 D by (simp add: fd_uwide_div_def fd_uwide_divrem_def Let_def wide_def [of ?qh] unat_div unat_mod)
  next
    case 4
    obtain f nh nl where sl: "fd_uwide_sl ?rh xl (63 - ?n) = (f, nh, nl)"
      by (cases "fd_uwide_sl ?rh xl (63 - ?n)")
    from div_core [OF False 4(3) div_split(3) [OF Y] sl] obtain ql el where
      "div_loop nh nl (push_bit (63 - ?n) y) (fd_uwide_private_div_approx_init (push_bit (63 - ?n) y)) nh 0 = Some (ql, el)"
      "unat (ql + el div push_bit (63 - ?n) y) = wide ?rh xl div unat y"
      "unat (drop_bit (63 - ?n) (el - el div push_bit (63 - ?n) y * push_bit (63 - ?n) y)) = wide ?rh xl mod unat y"
      by blast
    then show ?thesis
      using False 4 sl D by (simp add: fd_uwide_div_def fd_uwide_divrem_def Let_def wide_def [of ?qh])
  qed
qed (simp add: fd_uwide_div_def fd_uwide_divrem_def)

end
