(* ===== verification/Sqrt.thy ===== *)
theory Sqrt
  imports Uwide_Div Bits_Hash
begin

text \<open>
  The integer square roots of \<open>src/src/util/math/fd_sqrt.h\<close>.  Each loop iterates \<open>y' = (y^2 + y + x) / (2 y + 1)\<close> until it
  repeats: the 32-bit root in 64-bit, the 64-bit root in 128-bit arithmetic, and the portable 64-bit root
  with the quotients and remainders of the two terms apart.  The loops are \<open>partial_function\<close>s into
  \<open>option\<close>, and that they return is proved.
\<close>

subsection \<open>The iteration on natural numbers\<close>

definition newton_step :: "nat \<Rightarrow> nat \<Rightarrow> nat" where
  "newton_step x y = (y * y + y + x) div (2 * y + 1)"

definition floor_sqrt :: "nat \<Rightarrow> nat \<Rightarrow> bool" where
  "floor_sqrt x r \<longleftrightarrow> r * r \<le> x \<and> x < (r + 1) * (r + 1)"

lemma newton_ge:
  assumes "floor_sqrt x r"
  shows "r \<le> newton_step x y"
proof -
  have "0 \<le> (int y - int r) * (int y - int r + 1)"
    by (cases "y \<ge> r") (auto intro: mult_nonneg_nonneg mult_nonpos_nonpos)
  then have "int r * (2 * int y + 1) \<le> int y * int y + int y + int r * int r"
    by (simp add: algebra_simps)
  then have "int (r * (2 * y + 1)) \<le> int (y * y + y + r * r)"
    by (simp only: of_nat_mult of_nat_add of_nat_1 of_nat_numeral)
  then have "r * (2 * y + 1) \<le> y * y + y + r * r"
    by (simp only: of_nat_le_iff)
  also have "\<dots> \<le> y * y + y + x"
    using assms by (simp add: floor_sqrt_def)
  finally show ?thesis
    unfolding newton_step_def by (simp add: less_eq_div_iff_mult_less_eq)
qed

lemma newton_less:
  assumes "floor_sqrt x r" "r < y"
  shows "newton_step x y < y"
proof -
  have "(r + 1) * (r + 1) \<le> y * y"
    using assms(2) by (intro mult_le_mono) simp_all
  then have "y * y + y + x < y * (2 * y + 1)"
    using assms(1) unfolding floor_sqrt_def distrib_left by (simp only: mult.assoc mult.commute) linarith
  then show ?thesis
    unfolding newton_step_def by (simp only: less_mult_imp_div_less)
qed

lemma newton_fixed:
  assumes "floor_sqrt x r"
  shows "newton_step x r = r"
proof -
  have "r * r + r + x < (r + 1) * (2 * r + 1)"
    using assms by (simp add: floor_sqrt_def algebra_simps)
  then have "newton_step x r < r + 1"
    unfolding newton_step_def by (simp only: less_mult_imp_div_less)
  then show ?thesis
    using newton_ge [OF assms, of r] by simp
qed

lemma newton_bounded:
  assumes "4 \<le> y" "y \<le> K" "x \<le> 4 * K"
  shows "newton_step x y \<le> K"
proof -
  have "y * y \<le> K * y"
    using assms(2) by simp
  moreover have "K * 4 \<le> K * y"
    using assms(1) by simp
  ultimately have "y * y + y + x < (K + 1) * (2 * y + 1)"
    using assms unfolding distrib_left distrib_right by linarith
  then have "newton_step x y < K + 1"
    unfolding newton_step_def by (simp only: less_mult_imp_div_less)
  then show ?thesis
    by simp
qed

lemma floor_sqrt_ge: "floor_sqrt x r \<Longrightarrow> k * k \<le> x \<Longrightarrow> k \<le> r"
proof (rule ccontr)
  assume a: "floor_sqrt x r" "k * k \<le> x" "\<not> k \<le> r"
  then have "(r + 1) * (r + 1) \<le> k * k"
    by (intro mult_le_mono) simp_all
  then show False
    using a by (simp add: floor_sqrt_def)
qed

lemma floor_sqrt_exists: "\<exists>r. floor_sqrt x r"
proof -
  have "\<exists>k. x < k * k"
    by (rule exI [of _ "Suc x"]) simp
  then obtain k where k: "x < k * k" "\<And>j. j < k \<Longrightarrow> j * j \<le> x"
    using exists_least_iff [of "\<lambda>k. x < k * k"] by (auto simp: not_less)
  then show ?thesis
    by (cases k) (auto simp: floor_sqrt_def)
qed

text \<open>
  A loop that iterates a machine version of the step, exact while the value is between 4 and \<open>K\<close>, ends at
  the square root.
\<close>

locale newton_loop =
  fixes loop :: "'w \<Rightarrow> 'w option" and step :: "'w \<Rightarrow> 'w" and val :: "'w \<Rightarrow> nat" and x K :: nat
  assumes loop: "loop y = (if step y = y then Some y else loop (step y))"
    and step: "4 \<le> val y \<Longrightarrow> val y \<le> K \<Longrightarrow> val (step y) = newton_step x (val y)"
    and val_inj: "val a = val b \<Longrightarrow> a = b"
    and x_bound: "x \<le> 4 * K"
begin

lemma descends:
  assumes "floor_sqrt x r" "4 \<le> r" "r \<le> val y" "val y \<le> K"
  shows "\<exists>z. loop y = Some z \<and> val z = r"
  using assms(3,4)
proof (induction "val y" arbitrary: y rule: less_induct)
  case less
  have v: "val (step y) = newton_step x (val y)"
    using step less.prems assms(2) by simp
  show ?case
  proof (cases "val y = r")
    case True
    then have "step y = y"
      using v newton_fixed [OF assms(1)] by (intro val_inj) simp
    then show ?thesis
      using True by (subst loop) simp
  next
    case False
    then have l: "val (step y) < val y"
      using v newton_less [OF assms(1)] less.prems by simp
    then have "step y \<noteq> y"
      by auto
    then show ?thesis
      using less.hyps [OF l] newton_ge [OF assms(1)] v l less.prems by (subst loop) simp
  qed
qed

lemma converges:
  assumes "16 \<le> x" "4 \<le> val y" "val y \<le> K"
  shows "\<exists>z. loop y = Some z \<and> floor_sqrt x (val z)"
proof -
  obtain r where r: "floor_sqrt x r"
    using floor_sqrt_exists by blast
  then have "4 \<le> r"
    using floor_sqrt_ge [OF r, of 4] assms(1) by simp
  note D = descends [OF r this]
  have v: "val (step y) = newton_step x (val y)"
    using step assms by simp
  show ?thesis
  proof (cases "step y = y")
    case True
    then have "loop y = Some y"
      by (subst loop) simp
    moreover have "val y = r"
      using newton_less [OF r, of "val y"] newton_ge [OF r, of "val y"] v True by (cases "r < val y") simp_all
    ultimately show ?thesis
      using r by simp
  next
    case False
    then have "loop y = loop (step y)"
      by (subst loop) simp
    then show ?thesis
      using D [of "step y"] newton_ge [OF r, of "val y"] newton_bounded [OF assms(2,3) x_bound] v r by auto
  qed
qed

end

subsection \<open>The roots\<close>

partial_function (option) uint_sqrt_loop :: "u32 \<Rightarrow> u64 \<Rightarrow> u64 option" where
  "uint_sqrt_loop x y =
     (let z = (y * y + y + ucast x) div (push_bit 1 y + 1) in if z = y then Some y else uint_sqrt_loop x z)"

definition fd_uint_sqrt :: "u32 \<Rightarrow> u32 option" where
  "fd_uint_sqrt x =
     (if x < 21 then Some (ucast (drop_bit (3 * unat x) (0x49246db6da492248 :: u64) AND 7))
      else let n = fd_uint_find_msb x;
               y = drop_bit (15 - n div 2) (if odd n then 0xb504 else 0x8000) :: u32
           in map_option ucast (uint_sqrt_loop x (ucast y)))"

partial_function (option) ulong_sqrt_loop :: "u64 \<Rightarrow> 128 word \<Rightarrow> 128 word option" where
  "ulong_sqrt_loop x y =
     (let z = (y * y + y + ucast x) div (push_bit 1 y + 1) in if z = y then Some y else ulong_sqrt_loop x z)"

definition fd_ulong_sqrt :: "u64 \<Rightarrow> u64 option" where
  "fd_ulong_sqrt x =
     (if x < 21 then Some (drop_bit (3 * unat x) (0x49246db6da492248 :: u64) AND 7)
      else let n = fd_ulong_find_msb x;
               y = drop_bit (31 - n div 2) (if odd n then 0xb504f333 else 0x80000000) :: u64
           in map_option ucast (ulong_sqrt_loop x (ucast y)))"

partial_function (option) ulong_sqrt_portable_loop :: "u64 \<Rightarrow> u64 \<Rightarrow> u64 option" where
  "ulong_sqrt_portable_loop x y =
     (let d = push_bit 1 y + 1;
          qx = x div d; rx = x - qx * d;
          qy = drop_bit 1 y; ry = fd_T_if (y AND 1 \<noteq> 0) (y + qy + 1) qy;
          q = qx + qy; r = rx + ry;
          q = q + of_flag (r \<ge> d)
      in if y = q then Some y else ulong_sqrt_portable_loop x q)"

definition fd_ulong_sqrt_portable :: "u64 \<Rightarrow> u64 option" where
  "fd_ulong_sqrt_portable x =
     (if x < 21 then Some (drop_bit (3 * unat x) (0x49246db6da492248 :: u64) AND 7)
      else let n = fd_ulong_find_msb x;
               y = drop_bit (31 - n div 2) (if odd n then 0xb504f333 else 0x80000000)
           in ulong_sqrt_portable_loop x y)"

text \<open>Narrower and signed roots; the casts between signed and unsigned types keep the word.\<close>

definition fd_uchar_sqrt :: "u8 \<Rightarrow> u8 option" where
  "fd_uchar_sqrt x = map_option ucast (fd_uint_sqrt (ucast x))"

definition fd_ushort_sqrt :: "u16 \<Rightarrow> u16 option" where
  "fd_ushort_sqrt x = map_option ucast (fd_uint_sqrt (ucast x))"

definition fd_schar_sqrt :: "u8 \<Rightarrow> u8 option" where "fd_schar_sqrt x = fd_uchar_sqrt x"
definition fd_short_sqrt :: "u16 \<Rightarrow> u16 option" where "fd_short_sqrt x = fd_ushort_sqrt x"
definition fd_int_sqrt :: "u32 \<Rightarrow> u32 option" where "fd_int_sqrt x = fd_uint_sqrt x"
definition fd_long_sqrt :: "u64 \<Rightarrow> u64 option" where "fd_long_sqrt x = fd_ulong_sqrt x"

definition fd_schar_re_sqrt :: "u8 \<Rightarrow> u8 option" where "fd_schar_re_sqrt x = (if sint x > 0 then fd_uchar_sqrt x else Some 0)"
definition fd_short_re_sqrt :: "u16 \<Rightarrow> u16 option" where "fd_short_re_sqrt x = (if sint x > 0 then fd_ushort_sqrt x else Some 0)"
definition fd_int_re_sqrt :: "u32 \<Rightarrow> u32 option" where "fd_int_re_sqrt x = (if sint x > 0 then fd_uint_sqrt x else Some 0)"
definition fd_long_re_sqrt :: "u64 \<Rightarrow> u64 option" where "fd_long_re_sqrt x = (if sint x > 0 then fd_ulong_sqrt x else Some 0)"

definition fd_schar_sqrt_abs :: "u8 \<Rightarrow> u8 option" where "fd_schar_sqrt_abs x = fd_uchar_sqrt (fd_sT_abs x)"
definition fd_short_sqrt_abs :: "u16 \<Rightarrow> u16 option" where "fd_short_sqrt_abs x = fd_ushort_sqrt (fd_sT_abs x)"
definition fd_int_sqrt_abs :: "u32 \<Rightarrow> u32 option" where "fd_int_sqrt_abs x = fd_uint_sqrt (fd_sT_abs x)"
definition fd_long_sqrt_abs :: "u64 \<Rightarrow> u64 option" where "fd_long_sqrt_abs x = fd_ulong_sqrt (fd_sT_abs x)"

subsection \<open>The loops compute the square root\<close>

lemma step_exact:
  fixes y w :: "'a :: len word"
  assumes y: "unat y \<le> 2 ^ k" and w: "unat w \<le> 4 * 2 ^ k" and len: "2 * k + 3 \<le> LENGTH('a)"
  shows "unat ((y * y + y + w) div (push_bit 1 y + 1)) = newton_step (unat w) (unat y)"
proof -
  have "(2 :: nat) ^ k * 2 ^ k * 8 = 2 ^ (2 * k + 3)"
    by (simp only: power_add power_even_eq power2_eq_square) simp
  also have "\<dots> \<le> 2 ^ LENGTH('a)"
    using len by (intro power_increasing) simp_all
  finally have L: "2 ^ k * 2 ^ k * 8 \<le> (2 :: nat) ^ LENGTH('a)" .
  have yy: "unat y * unat y \<le> 2 ^ k * 2 ^ k"
    using y by (intro mult_le_mono)
  have "(2 :: nat) ^ k * 1 \<le> 2 ^ k * 2 ^ k"
    by (intro mult_le_mono2) simp
  then have kk: "(2 :: nat) ^ k \<le> 2 ^ k * 2 ^ k" "(1 :: nat) \<le> 2 ^ k * 2 ^ k"
    using one_le_power [of "2 :: nat" k] by simp_all
  have s: "unat y * unat y + unat y + unat w < 2 ^ LENGTH('a)" "2 * unat y + 1 < 2 ^ LENGTH('a)"
    using L yy y w kk by linarith+
  have "unat (y * y) = unat y * unat y"
    using s by (simp add: unat_word_ariths)
  moreover from this have "unat (y * y + y) = unat y * unat y + unat y"
    using s by (simp add: unat_word_ariths)
  ultimately have "unat (y * y + y + w) = unat y * unat y + unat y + unat w"
    using s by (simp add: unat_word_ariths)
  moreover have "unat (push_bit 1 y) = 2 * unat y"
    using s by (subst unsigned_push_bit_eq) (simp add: push_bit_eq_mult take_bit_nat_eq_self mult.commute)
  then have "unat (push_bit 1 y + 1) = 2 * unat y + 1"
    using s(2) by (simp only: unat_word_ariths unat_1) simp
  ultimately show ?thesis
    by (simp add: newton_step_def unat_div_distrib)
qed

interpretation uint_newton: newton_loop "uint_sqrt_loop x" "\<lambda>y. (y * y + y + ucast x) div (push_bit 1 y + 1)" unat "unat x" "2 ^ 30" for x
proof unfold_locales
  fix y a b :: u64
  show "uint_sqrt_loop x y = (if (y * y + y + ucast x) div (push_bit 1 y + 1) = y then Some y
      else uint_sqrt_loop x ((y * y + y + ucast x) div (push_bit 1 y + 1)))"
    by (subst uint_sqrt_loop.simps) (simp only: Let_def)
  show x: "unat x \<le> 4 * 2 ^ 30"
    using unsigned_less [of x, where 'a = nat] by simp
  show "unat y \<le> 2 ^ 30 \<Longrightarrow> unat ((y * y + y + ucast x) div (push_bit 1 y + 1)) = newton_step (unat x) (unat y)"
    using step_exact [of y 30 "ucast x"] x by (simp add: unat_ucast_widen)
qed (rule unsigned_word_eqI)

interpretation ulong_newton: newton_loop "ulong_sqrt_loop x" "\<lambda>y. (y * y + y + ucast x) div (push_bit 1 y + 1)" unat "unat x" "2 ^ 62" for x
proof unfold_locales
  fix y a b :: "128 word"
  show "ulong_sqrt_loop x y = (if (y * y + y + ucast x) div (push_bit 1 y + 1) = y then Some y
      else ulong_sqrt_loop x ((y * y + y + ucast x) div (push_bit 1 y + 1)))"
    by (subst ulong_sqrt_loop.simps) (simp only: Let_def)
  show x: "unat x \<le> 4 * 2 ^ 62"
    using unat_u64_less [of x] by simp
  show "unat y \<le> 2 ^ 62 \<Longrightarrow> unat ((y * y + y + ucast x) div (push_bit 1 y + 1)) = newton_step (unat x) (unat y)"
    using step_exact [of y 62 "ucast x"] x by (simp add: unat_ucast_widen)
qed (rule unsigned_word_eqI)

text \<open>The portable step adds the quotients and carries the remainders.\<close>

lemma portable_parts:
  fixes y :: nat
  defines "d \<equiv> 2 * y + 1"
  defines "ry \<equiv> if odd y then y + y div 2 + 1 else y div 2"
  shows "y * y + y = y div 2 * d + ry" "ry < d"
proof -
  obtain h where h: "y = 2 * h \<or> y = 2 * h + 1"
    by (metis oddE evenE)
  then show "y * y + y = y div 2 * d + ry" "ry < d"
    by (auto simp: d_def ry_def algebra_simps)
qed

lemma newton_portable:
  fixes x y :: nat
  defines "d \<equiv> 2 * y + 1"
  defines "ry \<equiv> if odd y then y + y div 2 + 1 else y div 2"
  shows "newton_step x y = x div d + y div 2 + (if d \<le> x mod d + ry then 1 else 0)"
proof -
  note P = portable_parts [of y, folded d_def ry_def]
  have "y * y + y + x = (x mod d + ry) + (x div d + y div 2) * d"
    unfolding P(1) distrib_right by simp
  moreover have d: "0 < d"
    by (simp add: d_def)
  moreover have "x mod d + ry - d < d"
    using P(2) mod_less_divisor [OF d, of x] by linarith
  then have "(x mod d + ry) div d = (if d \<le> x mod d + ry then 1 else 0)"
    using d div_less [of "x mod d + ry - d" d] by (simp add: le_div_geq)
  ultimately show ?thesis
    unfolding newton_step_def d_def [symmetric] by simp
qed

lemma portable_step_exact:
  assumes "unat y \<le> 2 ^ 62" "4 \<le> unat y"
  defines "d \<equiv> push_bit 1 y + 1"
  shows "unat (x div d + drop_bit 1 y + of_flag (x - x div d * d + fd_T_if (y AND 1 \<noteq> 0) (y + drop_bit 1 y + 1) (drop_bit 1 y) \<ge> d)) =
    newton_step (unat x) (unat y)"
proof -
  let ?Y = "unat y"
  let ?ry = "if odd ?Y then ?Y + ?Y div 2 + 1 else ?Y div 2"
  have "unat (push_bit 1 y) = 2 * ?Y"
    using unat_push_exact [of y 1] assms(1) by simp
  then have d: "unat d = 2 * ?Y + 1"
    using unat_add_exact [of "push_bit 1 y" 1] assms(1) by (simp add: d_def)
  have h: "unat (drop_bit 1 y) = ?Y div 2"
    using unat_high [of 1 y] by simp
  have "y AND 1 \<noteq> 0 \<longleftrightarrow> odd ?Y"
    using bit_unsigned_iff [of y 0, where 'a = nat] by (simp add: and_one_bit bit_0)
  moreover have "unat (y + drop_bit 1 y + 1) = ?Y + ?Y div 2 + 1"
    using unat_add_exact [of y "drop_bit 1 y"] unat_add_exact [of "y + drop_bit 1 y" 1] assms(1) h by simp
  ultimately have ry: "unat (fd_T_if (y AND 1 \<noteq> 0) (y + drop_bit 1 y + 1) (drop_bit 1 y)) = ?ry" (is "unat ?r = _")
    using h by (simp add: fd_T_if_def)
  have "?ry < 2 * ?Y + 1" "unat x mod unat d < 2 * ?Y + 1"
    using portable_parts(2) [of ?Y] by (simp_all add: d)
  then have r: "unat (x - x div d * d + ?r) = unat x mod unat d + ?ry"
    using unat_add_exact [of "x - x div d * d" ?r] assms(1) unfolding unat_mod ry by simp
  have q: "newton_step (unat x) ?Y = unat x div unat d + ?Y div 2 + unat (of_flag (x - x div d * d + ?r \<ge> d))"
    unfolding newton_portable [of "unat x" ?Y] unat_flag word_le_nat_alt r d ..
  have "newton_step (unat x) ?Y \<le> 2 ^ 62"
    using newton_bounded [OF assms(2,1)] unat_u64_less [of x] by simp
  then show ?thesis
    using unat_add_exact [of "x div d" "drop_bit 1 y"]
      unat_add_exact [of "x div d + drop_bit 1 y" "of_flag (x - x div d * d + ?r \<ge> d)"] unfolding q unat_div h by simp
qed

interpretation ulong_portable_newton: newton_loop "ulong_sqrt_portable_loop x"
  "\<lambda>y. x div (push_bit 1 y + 1) + drop_bit 1 y + of_flag (x - x div (push_bit 1 y + 1) * (push_bit 1 y + 1) +
     fd_T_if (y AND 1 \<noteq> 0) (y + drop_bit 1 y + 1) (drop_bit 1 y) \<ge> push_bit 1 y + 1)" unat "unat x" "2 ^ 62" for x
proof unfold_locales
  fix y :: u64
  show "ulong_sqrt_portable_loop x y =
     (if x div (push_bit 1 y + 1) + drop_bit 1 y + of_flag (x - x div (push_bit 1 y + 1) * (push_bit 1 y + 1) +
        fd_T_if (y AND 1 \<noteq> 0) (y + drop_bit 1 y + 1) (drop_bit 1 y) \<ge> push_bit 1 y + 1) = y then Some y
      else ulong_sqrt_portable_loop x (x div (push_bit 1 y + 1) + drop_bit 1 y + of_flag (x - x div (push_bit 1 y + 1) * (push_bit 1 y + 1) +
        fd_T_if (y AND 1 \<noteq> 0) (y + drop_bit 1 y + 1) (drop_bit 1 y) \<ge> push_bit 1 y + 1)))"
    by (subst ulong_sqrt_portable_loop.simps) (simp only: Let_def eq_commute [of y])
  show "unat x \<le> 4 * 2 ^ 62"
    using unat_u64_less [of x] by simp
qed (rule portable_step_exact unsigned_word_eqI; assumption)+

text \<open>Small arguments are looked up, and the first guess of the others is in range.\<close>

lemma sqrt_table: "n < 21 \<Longrightarrow> floor_sqrt n (unat (drop_bit (3 * n) (0x49246db6da492248 :: u64) AND 7))"
proof -
  have "\<forall>n \<in> set [0..<21]. floor_sqrt n (unat (drop_bit (3 * n) (0x49246db6da492248 :: u64) AND 7))"
    by code_simp
  then show "n < 21 \<Longrightarrow> floor_sqrt n (unat (drop_bit (3 * n) (0x49246db6da492248 :: u64) AND 7))"
    by simp
qed

lemma guess_range:
  fixes c B :: nat
  assumes "2 ^ k \<le> c" "2 \<le> h" "h \<le> k" "c \<le> B"
  shows "4 \<le> c div 2 ^ (k - h)" "c div 2 ^ (k - h) \<le> B"
proof -
  have "(4 :: nat) * 2 ^ (k - h) = 2 ^ (2 + (k - h))"
    by (simp add: power_add)
  also have "\<dots> \<le> 2 ^ k"
    using assms(2,3) by (intro power_increasing) simp_all
  finally show "4 \<le> c div 2 ^ (k - h)"
    using assms(1) by (simp add: less_eq_div_iff_mult_less_eq)
  show "c div 2 ^ (k - h) \<le> B"
    using div_le_dividend assms(4) by (rule le_trans)
qed

lemma msb_half:
  fixes x :: "'a :: len word"
  assumes "is_msb x n" "21 \<le> unat x" "LENGTH('a) = 2 * k + 2"
  shows "2 \<le> n div 2" "n div 2 \<le> k"
proof -
  have "n < LENGTH('a)"
    using clz_msb(2) [OF assms(1)] .
  then show "n div 2 \<le> k"
    using assms(3) by simp
  have "4 \<le> n"
  proof (rule ccontr)
    assume "\<not> 4 \<le> n"
    then have "(2 :: nat) ^ n \<le> 2 ^ 3"
      by (intro power_increasing) simp_all
    then show False
      using assms(1,2) by (simp add: is_msb_log)
  qed
  then show "2 \<le> n div 2"
    by simp
qed

lemma floor_sqrt_unique: "floor_sqrt x r \<Longrightarrow> floor_sqrt x r' \<Longrightarrow> r = r'"
  using floor_sqrt_ge [of x r r'] floor_sqrt_ge [of x r' r] by (simp add: floor_sqrt_def)

lemma floor_sqrt_le: "floor_sqrt x r \<Longrightarrow> r \<le> x"
  using le_square [of r] unfolding floor_sqrt_def by linarith

lemma fd_uint_sqrt_exact: "\<exists>r. fd_uint_sqrt x = Some r \<and> floor_sqrt (unat x) (unat r)"
proof (cases "x < 21")
  case True
  let ?t = "drop_bit (3 * unat x) (0x49246db6da492248 :: u64) AND 7"
  have "unat ?t \<le> unat x" "floor_sqrt (unat x) (unat ?t)"
    using True sqrt_table [of "unat x"] floor_sqrt_le by (simp_all add: word_less_nat_alt)
  moreover have "unat (ucast ?t :: u32) = unat ?t"
    using calculation(1) unsigned_less [of x, where 'a = nat] by (simp add: unsigned_ucast_eq take_bit_nat_eq_self)
  ultimately show ?thesis
    using True by (simp add: fd_uint_sqrt_def)
next
  case False
  then have x: "21 \<le> unat x" "x \<noteq> 0"
    by (auto simp: word_less_nat_alt)
  let ?n = "fd_uint_find_msb x"
  let ?c = "if odd ?n then 0xb504 else 0x8000 :: u32"
  note H = msb_half [OF find_msb_is_msb(3) [OF x(2)] x(1), of 15, simplified]
  have "unat (drop_bit (15 - ?n div 2) ?c) = unat ?c div 2 ^ (15 - ?n div 2)"
    using unsigned_less [of ?c, where 'a = nat] by (subst unsigned_drop_bit_eq) (simp add: drop_bit_eq_div take_bit_nat_eq_self)
  then have "4 \<le> unat (drop_bit (15 - ?n div 2) ?c)" "unat (drop_bit (15 - ?n div 2) ?c) \<le> 2 ^ 30"
    using guess_range [of 15 "unat ?c" "?n div 2" "2 ^ 30"] H by (auto split: if_splits)
  then obtain z where z: "uint_sqrt_loop x (ucast (drop_bit (15 - ?n div 2) ?c)) = Some z" "floor_sqrt (unat x) (unat z)"
    using uint_newton.converges [of x "ucast (drop_bit (15 - ?n div 2) ?c)"] x(1) by (auto simp: unat_ucast_widen)
  moreover have "unat (ucast z :: u32) = unat z"
    using floor_sqrt_le [OF z(2)] unsigned_less [of x, where 'a = nat] by (simp add: unsigned_ucast_eq take_bit_nat_eq_self)
  ultimately show ?thesis
    using False by (simp add: fd_uint_sqrt_def Let_def)
qed

lemma fd_ulong_sqrt_exact:
  "\<exists>r. fd_ulong_sqrt x = Some r \<and> floor_sqrt (unat x) (unat r)" "\<exists>r. fd_ulong_sqrt_portable x = Some r \<and> floor_sqrt (unat x) (unat r)"
proof -
  let ?t = "drop_bit (3 * unat x) (0x49246db6da492248 :: u64) AND 7"
  let ?n = "fd_ulong_find_msb x"
  let ?c = "if odd ?n then 0xb504f333 else 0x80000000 :: u64"
  have small: "floor_sqrt (unat x) (unat ?t)" if "x < 21"
    using that sqrt_table [of "unat x"] by (simp add: word_less_nat_alt)
  have guess: "4 \<le> unat (drop_bit (31 - ?n div 2) ?c)" "unat (drop_bit (31 - ?n div 2) ?c) \<le> 2 ^ 62" "16 \<le> unat x" if "\<not> x < 21"
  proof -
    have x: "21 \<le> unat x" "x \<noteq> 0"
      using that by (auto simp: word_less_nat_alt)
    note H = msb_half [OF find_msb_is_msb(4) [OF x(2)] x(1), of 31, simplified]
    show "4 \<le> unat (drop_bit (31 - ?n div 2) ?c)" "unat (drop_bit (31 - ?n div 2) ?c) \<le> 2 ^ 62" "16 \<le> unat x"
      using guess_range [of 31 "unat ?c" "?n div 2" "2 ^ 62"] H x(1) by (auto simp: unat_high split: if_splits)
  qed
  show "\<exists>r. fd_ulong_sqrt_portable x = Some r \<and> floor_sqrt (unat x) (unat r)"
    using small guess ulong_portable_newton.converges [of x "drop_bit (31 - ?n div 2) ?c"]
    by (cases "x < 21") (simp_all add: fd_ulong_sqrt_portable_def Let_def)
  show "\<exists>r. fd_ulong_sqrt x = Some r \<and> floor_sqrt (unat x) (unat r)"
  proof (cases "x < 21")
    case False
    then obtain z where z: "ulong_sqrt_loop x (ucast (drop_bit (31 - ?n div 2) ?c)) = Some z" "floor_sqrt (unat x) (unat z)"
      using ulong_newton.converges [of x "ucast (drop_bit (31 - ?n div 2) ?c)"] guess by (auto simp: unat_ucast_widen)
    moreover have "unat (ucast z :: u64) = unat z"
      using floor_sqrt_le [OF z(2)] unat_u64_less [of x] by (simp add: unsigned_ucast_eq take_bit_nat_eq_self)
    ultimately show ?thesis
      using False by (simp add: fd_ulong_sqrt_def Let_def)
  qed (use small in \<open>simp add: fd_ulong_sqrt_def\<close>)
qed

text \<open>A computation that returns the square root.\<close>

definition is_root :: "'a :: len word option \<Rightarrow> nat \<Rightarrow> bool" where
  "is_root res x \<longleftrightarrow> (\<exists>r. res = Some r \<and> floor_sqrt x (unat r))"

lemma is_root_narrow:
  fixes x :: "'a :: len word" and r :: "'b :: len word option"
  assumes "is_root r (unat x)"
  shows "is_root (map_option ucast r :: 'a word option) (unat x)"
proof -
  obtain z where z: "r = Some z" "floor_sqrt (unat x) (unat z)"
    using assms by (auto simp: is_root_def)
  have "unat z < 2 ^ LENGTH('a)"
    by (rule le_less_trans [OF floor_sqrt_le [OF z(2)] unsigned_less])
  then have "unat (ucast z :: 'a word) = unat z"
    by (simp add: unsigned_ucast_eq take_bit_nat_eq_self)
  then show ?thesis
    using z by (simp add: is_root_def)
qed

lemma unsigned_roots:
  "is_root (fd_uint_sqrt x32) (unat x32)" "is_root (fd_ulong_sqrt x64) (unat x64)" "is_root (fd_uchar_sqrt x8) (unat x8)"
  "is_root (fd_ushort_sqrt x16) (unat x16)"
proof -
  show u: "is_root (fd_uint_sqrt x32) (unat x32)" for x32
    unfolding is_root_def by (rule fd_uint_sqrt_exact)
  show "is_root (fd_ulong_sqrt x64) (unat x64)"
    unfolding is_root_def by (rule fd_ulong_sqrt_exact)
  show "is_root (fd_uchar_sqrt x8) (unat x8)" "is_root (fd_ushort_sqrt x16) (unat x16)"
    using is_root_narrow [of "fd_uint_sqrt (ucast x8)" x8] is_root_narrow [of "fd_uint_sqrt (ucast x16)" x16] u [of "ucast x8"] u [of "ucast x16"]
    by (simp_all add: fd_uchar_sqrt_def fd_ushort_sqrt_def unat_ucast_widen)
qed

lemma unat_nonneg: "0 \<le> sint x \<Longrightarrow> unat x = nat (sint x)" for x :: "'a :: len word"
  using uint_via_sint [where 'a = 'a, of "sint x"] sint_range [of x] two_halves [where 'a = 'a] by (simp add: unat_eq_nat_uint)

lemma is_root_re: "(0 < sint x \<Longrightarrow> is_root r (unat x)) \<Longrightarrow> is_root (if 0 < sint x then r else Some 0) (nat (sint x))" for x :: "'a :: len word"
  using unat_nonneg [of x] by (auto simp: is_root_def floor_sqrt_def)

lemma unat_abs: "unat (fd_sT_abs x) = nat \<bar>sint x\<bar>"
  using uint_abs [of x] by (simp add: unat_eq_nat_uint)

text \<open>
  C39. The integer square roots of every width return, for every argument, the exact floor of the
  square root; the portable 64-bit version equals the one with 128-bit integers, and the signed
  variants take the root of the positive part and of the absolute value.
\<close>

theorem fd_sqrt_exact:
  "is_root (fd_uchar_sqrt x8) (unat x8) \<and> is_root (fd_ushort_sqrt x16) (unat x16) \<and> is_root (fd_uint_sqrt x32) (unat x32) \<and>
   is_root (fd_ulong_sqrt x64) (unat x64) \<and> fd_ulong_sqrt_portable x64 = fd_ulong_sqrt x64 \<and>
   is_root (fd_schar_re_sqrt x8) (nat (sint x8)) \<and> is_root (fd_short_re_sqrt x16) (nat (sint x16)) \<and>
   is_root (fd_int_re_sqrt x32) (nat (sint x32)) \<and> is_root (fd_long_re_sqrt x64) (nat (sint x64)) \<and>
   is_root (fd_schar_sqrt_abs x8) (nat \<bar>sint x8\<bar>) \<and> is_root (fd_short_sqrt_abs x16) (nat \<bar>sint x16\<bar>) \<and>
   is_root (fd_int_sqrt_abs x32) (nat \<bar>sint x32\<bar>) \<and> is_root (fd_long_sqrt_abs x64) (nat \<bar>sint x64\<bar>)"
proof (intro conjI)
  show "fd_ulong_sqrt_portable x64 = fd_ulong_sqrt x64"
    using fd_ulong_sqrt_exact [of x64] floor_sqrt_unique by (metis unsigned_word_eqI)
qed (simp_all add: unsigned_roots is_root_re fd_schar_re_sqrt_def fd_short_re_sqrt_def fd_int_re_sqrt_def fd_long_re_sqrt_def
  fd_schar_sqrt_abs_def fd_short_sqrt_abs_def fd_int_sqrt_abs_def fd_long_sqrt_abs_def unat_abs [symmetric])

end
