(* ===== verification/Sat.thy ===== *)
theory Sat
  imports Uwide_Div Bits_Hash
begin

text \<open>
  The saturating arithmetic of \<open>src/src/util/bits/fd_sat.h\<close>, over the compiler builtins that return the wrapped result and
  whether the true result does not fit.
\<close>

definition builtin_uadd_overflow :: "'a :: len word \<Rightarrow> 'a word \<Rightarrow> bool \<times> 'a word" where
  "builtin_uadd_overflow x y = (unat x + unat y \<ge> 2 ^ LENGTH('a), x + y)"

definition builtin_usub_overflow :: "'a :: len word \<Rightarrow> 'a word \<Rightarrow> bool \<times> 'a word" where
  "builtin_usub_overflow x y = (unat x < unat y, x - y)"

definition builtin_umul_overflow :: "'a :: len word \<Rightarrow> 'a word \<Rightarrow> bool \<times> 'a word" where
  "builtin_umul_overflow x y = (unat x * unat y \<ge> 2 ^ LENGTH('a), x * y)"

definition builtin_soverflow :: "int \<Rightarrow> bool \<times> 'a :: len word" where
  "builtin_soverflow i = (\<not> (- (2 ^ (LENGTH('a) - 1)) \<le> i \<and> i < 2 ^ (LENGTH('a) - 1)), word_of_int i)"

definition fd_uint128_sat_add :: "128 word \<Rightarrow> 128 word \<Rightarrow> 128 word" where
  "fd_uint128_sat_add x y = (let res = x + y in fd_T_if (res < x) (- 1) res)"

definition fd_uint128_sat_mul :: "128 word \<Rightarrow> 128 word \<Rightarrow> 128 word" where
  "fd_uint128_sat_mul x y =
     (let res = x * y; overflow = x \<noteq> 0 \<and> y \<noteq> 0 \<and> (res < x \<or> res < y \<or> res div x \<noteq> y) in fd_T_if overflow (- 1) res)"

definition fd_uint128_sat_sub :: "128 word \<Rightarrow> 128 word \<Rightarrow> 128 word" where
  "fd_uint128_sat_sub x y = (let res = x - y in fd_T_if (res > x) 0 res)"

definition fd_ulong_sat_add :: "u64 \<Rightarrow> u64 \<Rightarrow> u64" where
  "fd_ulong_sat_add x y = (let (cf, res) = builtin_uadd_overflow x y in fd_T_if cf (- 1) res)"

definition fd_ulong_sat_mul :: "u64 \<Rightarrow> u64 \<Rightarrow> u64" where
  "fd_ulong_sat_mul x y = (let (cf, res) = builtin_umul_overflow x y in fd_T_if cf (- 1) res)"

definition fd_ulong_sat_sub :: "u64 \<Rightarrow> u64 \<Rightarrow> u64" where
  "fd_ulong_sat_sub x y = (let (cf, res) = builtin_usub_overflow x y in fd_T_if cf 0 res)"

definition fd_long_sat_add :: "u64 \<Rightarrow> u64 \<Rightarrow> u64" where
  "fd_long_sat_add x y =
     (let (cf, res) = builtin_soverflow (sint x + sint y) in fd_T_if cf (drop_bit 63 x + 0x7fffffffffffffff) res)"

definition fd_long_sat_sub :: "u64 \<Rightarrow> u64 \<Rightarrow> u64" where
  "fd_long_sat_sub x y =
     (let (cf, res) = builtin_soverflow (sint x - sint y) in fd_T_if cf (drop_bit 63 x + 0x7fffffffffffffff) res)"

definition fd_long_sat_mul :: "u64 \<Rightarrow> u64 \<Rightarrow> u64" where
  "fd_long_sat_mul x y =
     (let (cf, res) = builtin_soverflow (sint x * sint y) in fd_T_if cf (drop_bit 63 (x XOR y) + 0x7fffffffffffffff) res)"

definition fd_uint_sat_add :: "u32 \<Rightarrow> u32 \<Rightarrow> u32" where
  "fd_uint_sat_add x y = (let (cf, res) = builtin_uadd_overflow x y in fd_T_if cf (- 1) res)"

definition fd_uint_sat_mul :: "u32 \<Rightarrow> u32 \<Rightarrow> u32" where
  "fd_uint_sat_mul x y = (let (cf, res) = builtin_umul_overflow x y in fd_T_if cf (- 1) res)"

definition fd_uint_sat_sub :: "u32 \<Rightarrow> u32 \<Rightarrow> u32" where
  "fd_uint_sat_sub x y = (let (cf, res) = builtin_usub_overflow x y in fd_T_if cf 0 res)"

definition fd_ushort_sat_add :: "u16 \<Rightarrow> u16 \<Rightarrow> u16" where
  "fd_ushort_sat_add x y = (let res = (ucast x :: u32) + ucast y in fd_T_if (res > 0xffff) 0xffff (ucast res))"

definition fd_ushort_sat_mul :: "u16 \<Rightarrow> u16 \<Rightarrow> u16" where
  "fd_ushort_sat_mul x y = (let res = (ucast x :: u32) * ucast y in fd_T_if (res > 0xffff) 0xffff (ucast res))"

text \<open>The true result, cut off at the largest and the smallest value of the type.\<close>

definition usat :: "'a :: len itself \<Rightarrow> nat \<Rightarrow> nat" where
  "usat _ n = min n (2 ^ LENGTH('a) - 1)"

definition lsat :: "int \<Rightarrow> int" where
  "lsat i = max (- (2 ^ 63)) (min (2 ^ 63 - 1) i)"

lemma unat_all_ones: "unat (- 1 :: 'a :: len word) = 2 ^ LENGTH('a) - 1"
  by (simp add: unsigned_minus_1_eq_mask mask_eq_exp_minus_1)

lemma usat_if: "(if 2 ^ LENGTH('a) \<le> n then 2 ^ LENGTH('a) - 1 else n) = usat TYPE('a :: len) n"
proof -
  have "(1 :: nat) \<le> 2 ^ LENGTH('a)"
    by simp
  then have "n \<le> 2 ^ LENGTH('a) - 1 \<longleftrightarrow> \<not> 2 ^ LENGTH('a) \<le> n"
    by linarith
  then show ?thesis
    unfolding usat_def min_def by simp
qed

lemma u_exact:
  fixes x y :: "'a :: len word"
  shows "unat (fd_T_if (2 ^ LENGTH('a) \<le> unat x + unat y) (- 1) (x + y)) = usat TYPE('a) (unat x + unat y)"
    "unat (fd_T_if (2 ^ LENGTH('a) \<le> unat x * unat y) (- 1) (x * y)) = usat TYPE('a) (unat x * unat y)"
    "unat (fd_T_if (unat x < unat y) 0 (x - y)) = unat x - unat y"
proof -
  show "unat (fd_T_if (2 ^ LENGTH('a) \<le> unat x + unat y) (- 1) (x + y)) = usat TYPE('a) (unat x + unat y)"
    "unat (fd_T_if (2 ^ LENGTH('a) \<le> unat x * unat y) (- 1) (x * y)) = usat TYPE('a) (unat x * unat y)"
    unfolding usat_if [symmetric] by (simp_all add: fd_T_if_def unat_all_ones unat_word_ariths not_le)
  show "unat (fd_T_if (unat x < unat y) 0 (x - y)) = unat x - unat y"
    by (simp add: fd_T_if_def unat_sub_if')
qed

text \<open>The 128-bit functions find the overflow from the wrapped result.\<close>

lemma u128_overflow:
  fixes x y :: "'a :: len word"
  shows "x + y < x \<longleftrightarrow> 2 ^ LENGTH('a) \<le> unat x + unat y" "x - y > x \<longleftrightarrow> unat x < unat y"
    "x \<noteq> 0 \<and> y \<noteq> 0 \<and> (x * y < x \<or> x * y < y \<or> x * y div x \<noteq> y) \<longleftrightarrow> 2 ^ LENGTH('a) \<le> unat x * unat y"
proof -
  have b: "unat x < 2 ^ LENGTH('a)" "unat y < 2 ^ LENGTH('a)"
    by (rule unsigned_less)+
  show "x + y < x \<longleftrightarrow> 2 ^ LENGTH('a) \<le> unat x + unat y"
  proof (cases "2 ^ LENGTH('a) \<le> unat x + unat y")
    case True
    moreover have "unat x + unat y - 2 ^ LENGTH('a) < 2 ^ LENGTH('a)"
      using b by linarith
    ultimately have "unat (x + y) = unat x + unat y - 2 ^ LENGTH('a)"
      by (simp add: unat_word_ariths le_mod_geq)
    then show ?thesis
      using True b unfolding word_less_nat_alt by linarith
  qed (simp add: word_less_nat_alt unat_word_ariths)
  show "x - y > x \<longleftrightarrow> unat x < unat y"
  proof (cases "unat y \<le> unat x")
    case False
    then have "unat (x - y) = unat x + 2 ^ LENGTH('a) - unat y"
      by (simp add: unat_sub_if')
    then show ?thesis
      using False b unfolding word_less_nat_alt by linarith
  qed (simp add: word_less_nat_alt unat_sub_if')
  show "x \<noteq> 0 \<and> y \<noteq> 0 \<and> (x * y < x \<or> x * y < y \<or> x * y div x \<noteq> y) \<longleftrightarrow> 2 ^ LENGTH('a) \<le> unat x * unat y"
  proof (cases "2 ^ LENGTH('a) \<le> unat x * unat y")
    case True
    then have nz: "x \<noteq> 0" "y \<noteq> 0"
      by auto
    have "x * y div x \<noteq> y"
    proof
      assume "x * y div x = y"
      then have "unat y = unat (x * y) div unat x"
        by (metis unat_div_distrib)
      then have "unat x * unat y \<le> unat (x * y)"
        by simp
      then show False
        using True unsigned_less [of "x * y", where 'a = nat] by linarith
    qed
    then show ?thesis
      using True nz by simp
  next
    case False
    then have e: "unat (x * y) = unat x * unat y"
      by (simp add: unat_word_ariths)
    have "\<not> x * y < x" "\<not> x * y < y" "x * y div x = y" if "x \<noteq> 0" "y \<noteq> 0"
    proof -
      have p: "0 < unat x" "0 < unat y"
        using that by (simp_all add: unat_gt_0)
      show "\<not> x * y < x" "\<not> x * y < y"
        using that by (simp_all add: word_less_nat_alt e)
      show "x * y div x = y"
      proof (rule unsigned_word_eqI)
        show "unat (x * y div x) = unat y"
          using p by (simp add: unat_div_distrib e)
      qed
    qed
    then show ?thesis
      using False by blast
  qed
qed

lemma l_exact:
  assumes "\<not> (- (2 ^ 63) \<le> i \<and> i < 2 ^ 63) \<Longrightarrow> sint s < 0 \<longleftrightarrow> i < 0"
  shows "sint (let (cf, res) = builtin_soverflow i in fd_T_if cf (drop_bit 63 s + 0x7fffffffffffffff) res :: u64) = lsat i"
proof (cases "- (2 ^ 63) \<le> i \<and> i < 2 ^ 63")
  case True
  then have "sint (word_of_int i :: u64) = i"
    by (simp add: signed_of_int signed_take_bit_int_eq_self)
  then show ?thesis
    using True by (simp add: builtin_soverflow_def fd_T_if_def lsat_def)
next
  case False
  have d: "drop_bit 63 s = (if sint s < 0 then 1 else 0 :: u64)"
  proof (rule bit_word_eqI)
    fix n
    assume "n < LENGTH(64)"
    then show "bit (drop_bit 63 s) n = bit (if sint s < 0 then 1 else 0 :: u64) n"
      using bit_last_iff [of s] u64_bit_less [of s "63 + n"] by (cases n) (auto simp: bit_simps)
  qed
  show ?thesis
    using False assms by (auto simp: builtin_soverflow_def fd_T_if_def lsat_def d)
qed

lemma ushort_exact:
  fixes res :: u32
  shows "unat (fd_T_if (res > 0xffff) 0xffff (ucast res) :: u16) = usat TYPE(16) (unat res)"
proof -
  have "unat (ucast res :: u16) = unat res" if "unat res \<le> 65535"
    using that by (simp add: unsigned_ucast_eq take_bit_nat_eq_self)
  then show ?thesis
    by (auto simp: fd_T_if_def usat_def word_less_nat_alt min_def)
qed

lemma ushort_wide:
  fixes p q :: u16
  shows "unat ((ucast p :: u32) + ucast q) = unat p + unat q" "unat ((ucast p :: u32) * ucast q) = unat p * unat q"
proof -
  have b: "unat p < 65536" "unat q < 65536"
    using unsigned_less [of p, where 'a = nat] unsigned_less [of q, where 'a = nat] by simp_all
  then have "unat p * unat q < 65536 * 65536"
    by (intro mult_strict_mono') simp_all
  moreover have "unat p + unat q < 65536 * 65536"
    using b by linarith
  ultimately show "unat ((ucast p :: u32) + ucast q) = unat p + unat q" "unat ((ucast p :: u32) * ucast q) = unat p * unat q"
    by (simp_all add: unat_word_ariths unat_ucast_widen)
qed

text \<open>
  C40. The saturating additions, subtractions and multiplications return the true result when it
  fits the type and otherwise the nearest bound of the type, for 16, 32, 64 and 128 bits unsigned
  and 64 bits signed.
\<close>

theorem fd_sat_exact:
  "unat (fd_uint128_sat_add u v) = usat TYPE(128) (unat u + unat v) \<and> unat (fd_uint128_sat_mul u v) = usat TYPE(128) (unat u * unat v) \<and>
   unat (fd_uint128_sat_sub u v) = unat u - unat v \<and>
   unat (fd_ulong_sat_add x y) = usat TYPE(64) (unat x + unat y) \<and> unat (fd_ulong_sat_mul x y) = usat TYPE(64) (unat x * unat y) \<and>
   unat (fd_ulong_sat_sub x y) = unat x - unat y \<and>
   unat (fd_uint_sat_add a b) = usat TYPE(32) (unat a + unat b) \<and> unat (fd_uint_sat_mul a b) = usat TYPE(32) (unat a * unat b) \<and>
   unat (fd_uint_sat_sub a b) = unat a - unat b \<and>
   unat (fd_ushort_sat_add p q) = usat TYPE(16) (unat p + unat q) \<and> unat (fd_ushort_sat_mul p q) = usat TYPE(16) (unat p * unat q) \<and>
   sint (fd_long_sat_add x y) = lsat (sint x + sint y) \<and> sint (fd_long_sat_sub x y) = lsat (sint x - sint y) \<and>
   sint (fd_long_sat_mul x y) = lsat (sint x * sint y)"
proof (intro conjI)
  have s: "- (2 ^ 63) \<le> sint z" "sint z < 2 ^ 63" for z :: u64
    using sint_range [of z] by simp_all
  show "sint (fd_long_sat_add x y) = lsat (sint x + sint y)"
    unfolding fd_long_sat_add_def using s [of x] s [of y] by (intro l_exact) linarith
  show "sint (fd_long_sat_sub x y) = lsat (sint x - sint y)"
    unfolding fd_long_sat_sub_def using s [of x] s [of y] by (intro l_exact) linarith
  show "sint (fd_long_sat_mul x y) = lsat (sint x * sint y)"
    unfolding fd_long_sat_mul_def
  proof (rule l_exact)
    assume "\<not> (- (2 ^ 63) \<le> sint x * sint y \<and> sint x * sint y < 2 ^ 63)"
    then have "sint x \<noteq> 0" "sint y \<noteq> 0"
      by auto
    moreover have "sint (x XOR y) < 0 \<longleftrightarrow> (sint x < 0) \<noteq> (sint y < 0)"
      unfolding bit_last_iff [symmetric] by (simp add: bit_simps)
    ultimately show "sint (x XOR y) < 0 \<longleftrightarrow> sint x * sint y < 0"
      by (auto simp: mult_less_0_iff)
  qed
qed (simp_all only: fd_ushort_sat_add_def fd_ushort_sat_mul_def ushort_exact ushort_wide fd_uint128_sat_add_def fd_uint128_sat_mul_def fd_uint128_sat_sub_def fd_ulong_sat_add_def fd_ulong_sat_mul_def
  fd_ulong_sat_sub_def fd_uint_sat_add_def fd_uint_sat_mul_def fd_uint_sat_sub_def Let_def prod.case u128_overflow builtin_uadd_overflow_def
  builtin_umul_overflow_def builtin_usub_overflow_def u_exact)

end
