(* ===== verification/Spec2Isabelle.thy ===== *)
theory Spec2Isabelle
  imports Keyguard_Roles Pool Map_Chain_Correct Ghost_Correct Bits_Svw Uwide_Div Sqrt Sat
begin

text \<open>
  A verification development for the FireBAM validator, a Solana validator in C derived from
  Firedancer.  The sources are under \<open>src/src/\<close>.  It covers the parts of the validator that decide
  on untrusted bytes with plain sequential code: the transaction parser, the keyguard that decides
  what the identity key signs, the fork choice, the pool and hash map templates the fork choice is
  built from, and the integer arithmetic underneath.

  \<^bold>\<open>How the parts interact.\<close>  A payload from the network is parsed by \<open>fd_txn_parse_core\<close>
  (\<open>ballet/txn/fd_txn_parse.c\<close>) with the compact-u16 decoder (\<open>ballet/txn/fd_compact_u16.h\<close>) into a
  descriptor \<open>fd_txn_t\<close> of offsets into the payload, which every later stage uses without further
  bounds checks.  Tiles that need a signature send the message to the keyguard, which fingerprints
  it (\<open>disco/keyguard/fd_keyguard_match.c\<close>) and checks that the requesting role may have such a
  message signed (\<open>disco/keyguard/fd_keyguard_authorize.c\<close>, with the byte patterns of
  \<open>disco/bundle/fd_bundle_crank_constants.h\<close>).  Replayed blocks and votes reach the fork choice
  (\<open>choreo/ghost/fd_ghost.c\<close>), whose blocks live in an object pool (\<open>util/tmpl/fd_pool.c\<close>) and are
  found through a chained hash map (\<open>util/tmpl/fd_map_chain.c\<close>).  The headers \<open>util/bits/fd_bits.h\<close>,
  \<open>fd_bits_find_msb.h\<close>, \<open>fd_bits_find_lsb.h\<close>, \<open>fd_uwide.h\<close>, \<open>fd_sat.h\<close> and \<open>util/math/fd_sqrt.h\<close> are used
  throughout.

  \<^bold>\<open>Conventions.\<close>  C integers are machine words, or natural numbers with the wrap-around written out
  (\<open>ulong_add\<close>, \<open>ulong_sub\<close>, \<open>ulong_mul\<close>) where the code computes with sizes.  Code that touches a
  buffer returns a value of type \<open>res\<close> (theory \<open>Prelude\<close>): \<open>Ok\<close> for a result, \<open>Err\<close> with the source
  line for an early return or a failed \<open>FD_TEST\<close>, and \<open>Ub\<close> for undefined behaviour: a read outside a
  buffer, a store outside \<open>out_buf\<close>, an index outside an array, a block that is not allocated.
  That a function is safe is the theorem that it is never \<open>Ub\<close>.  The predicates \<open>wp\<close> and \<open>twp\<close> and the
  rule collections \<open>wp\<close>, \<open>twp\<close>, \<open>res_ok\<close> and \<open>res_run\<close> compute along the combinators.

  \<^bold>\<open>Transactions.\<close>
  \<^item> \<open>Compact_U16\<close>: the encoder and the decoders of the compact-u16 format.  The decoder accepts a byte
    string exactly if it is the encoding of the value returned.
  \<^item> \<open>Txn\<close>: the structs and constants of \<open>fd_txn.h\<close> and the parser, cut into the stages of the source:
    \<open>parse_v1_header\<close>, the two V1 instruction passes, \<open>parse_v0_header\<close>, \<open>parse_v0_instrs\<close>,
    \<open>parse_v0_luts\<close>, then \<open>parse_v0\<close>, \<open>parse_v1\<close>, \<open>fd_txn_parse_payload\<close> and \<open>fd_txn_parse_core\<close> with
    its counters; the accessors and \<open>fd_txn_is_simple_vote_transaction\<close>.  Every check carries its
    source line, every store into \<open>out_buf\<close> its place there (\<open>OUT_WRITE\<close>, \<open>OUT_INSTR\<close>).
  \<^item> \<open>Txn_Format\<close>: the wire format as a specification: the contents \<open>atxn\<close> of a message, its byte string
    \<open>encode\<close>, its rules \<open>atxn_wf\<close>, and the descriptor \<open>layout\<close> of the byte string.
  \<^item> \<open>Txn_Parse\<close>, \<open>Txn_Exact\<close>: when each stage, and the whole parser, returns and with what.
  \<^item> \<open>Txn_Accounts\<close>: the account categories, the iterator packed into one 64-bit word, the counts and
    the predicates.
  \<^item> \<open>Txn_Correct\<close>: the parser accepts exactly the encodings of well-formed messages; it never reads
    outside the payload and never stores past \<open>FD_TXN_MAX_SZ\<close> bytes, also on payloads it rejects half
    way; descriptors stay inside the payload and inside the size constants; the counters; the vote test
    and the V1 compute budget (\<open>fd_txn_v1.h\<close>).

  \<^bold>\<open>Keyguard.\<close>
  \<^item> \<open>Keyguard_Match\<close>: one fingerprint per payload type and their mask.  \<open>Bundle_Crank_Constants\<close> and
    \<open>Keyguard_Authorize\<close>: the crank patterns, the checks of each role and the dispatch.
  \<^item> \<open>Keyguard_Txn\<close>, \<open>Keyguard_Crank\<close>: no request makes a check read out of bounds; the message of every
    transaction the parser accepts is recognised as one; what passes the vote check is a vote of this
    validator, and what passes the crank check invokes only four programs.
  \<^item> \<open>Keyguard_Roles\<close>: \<open>role_allows\<close> describes what each role may have signed and the authorisation
    accepts exactly that; from it follow the separation of roles and the types a payload can match.

  \<^bold>\<open>Containers.\<close>
  \<^item> \<open>Pool\<close>: the free stack threaded through the elements; the locale \<open>allocator\<close> states what a client
    relies on and is interpreted on acquire and release.
  \<^item> \<open>Map_Chain\<close>, \<open>Map_Chain_Correct\<close>: the chains, the move-to-front query and the iterator, for any hash
    function (a parameter, as in the template); the locale \<open>keyed_map\<close> is the contract and is
    interpreted on the chain code.

  \<^bold>\<open>Fork choice.\<close>
  \<^item> \<open>Ghost\<close>: the state \<open>fd_ghost\<close> and every operation: init, insert, vote, publish, confirm, eqvoc, best,
    deepest, the ancestor queries and the width.  The pools and maps are the partial maps that the
    development of the templates shows them to be.
  \<^item> \<open>Ghost_Tree\<close>, \<open>Ghost_Walk\<close>, \<open>Ghost_Inv\<close>: forests, the loops over ancestors and siblings, and the
    invariant.  \<open>Ghost_Vote\<close>, \<open>Ghost_Queue\<close>, \<open>Ghost_Insert\<close>, \<open>Ghost_Deepest\<close>, \<open>Ghost_Publish\<close>, \<open>Ghost_Root\<close>,
    \<open>Ghost_Best\<close>, \<open>Ghost_Mark\<close>: each operation run on a ghost with the invariant, the queues it threads
    through the \<open>next\<close> fields included.
  \<^item> \<open>Ghost_Reach\<close>: the ghosts a sequence of operations can build, all of which have the invariant.
    Inserting a block under itself is excluded there: the code accepts it and builds a cycle, which
    \<open>Ghost_Correct\<close> shows.
  \<^item> \<open>Ghost_Lmd\<close>, \<open>Ghost_Refine\<close>, \<open>Ghost_Correct\<close>: the specification (a tree of block ids and the latest
    vote of each account) and the proofs that the operations implement it: the stake of a block is the
    weight of its subtree, the fork choice ends at a head, publishing keeps exactly the new root's
    subtree, and so on.

  \<^bold>\<open>Integer arithmetic.\<close>
  \<^item> \<open>Bits\<close>, \<open>Bits_Pow2\<close>, \<open>Bits_Hash\<close>, \<open>Bits_Find\<close>, \<open>Bits_Svw\<close>: alignment, bit fields and rotations at any
    width, powers of two, the integer hashes and their inverses, zig-zag and other signed operations,
    digit counts, bit scans, and the variable width codec that is read in both directions.
  \<^item> \<open>Uwide\<close>, \<open>Uwide_Shift\<close>, \<open>Uwide_Div\<close>: 128-bit arithmetic on pairs of words is exact; the division is
    corrected until it is exact and ends.
  \<^item> \<open>Sqrt\<close>: the integer square roots; the locale \<open>newton_loop\<close> holds the convergence argument once and
    is interpreted on the three loops of the code.  \<open>Sat\<close>: saturating addition and subtraction.

  \<^bold>\<open>Loops and bounds.\<close>  Loops with a counter are recursions on it.  The walks over the fork tree take
  fuel \<open>blk_pool_max + 1\<close>, where running out is \<open>Ub\<close>: a walk visits a block at most once and the pool has
  \<open>blk_pool_max\<close> slots, and the theorems on reachable ghosts show that the result is \<open>Ok\<close>, so the fuel is
  never used up.  The traversal that marks a subtree has this fuel for the blocks it marks and again for
  each way back up.  The walks along a chain of the hash map take one step more than the pool has
  elements.  The correction loop of the wide division and the Newton loops are partial functions whose value
  is \<open>None\<close> where they do not end; the theorems show that they end for every argument.

  \<^bold>\<open>Not modelled.\<close>  The layout of objects in shared memory and their new, join, leave and delete
  functions (beyond the initial state they produce), log messages, printing and \<open>fd_ghost_verify\<close>; the
  lazy and sentinel variants of the pool and the variants of the map with \<open>prev\<close> links; the assembly
  variants of the bit scans and operations on floating point numbers.  Of the rest of the validator, the
  tiles are event loops over shared-memory queues and sockets, the cryptography and the runtime are large
  and separate, and the protocol buffers are generated code; the keyguard does not compute signatures.
\<close>

end
